(* ===== verification/Prelude.thy ===== *)
theory Prelude
  imports Main "HOL-Library.Word" "HOL-Library.Monad_Syntax" "HOL-Library.AList"
begin

text \<open>
  Shared vocabulary of the development: Rust's fixed-width integers and byte
  slices, checked indexing with a panic as a value, big-endian codecs, the
  association lists that stand for a \<open>HashMap\<close> in its iteration order, and the
  locale in which every stateful component proves that its invariant survives
  any sequence of operations.

  A Rust computation that may panic has type \<open>'a rust\<close>: \<open>None\<close> is the panic and
  \<open>Some r\<close> the returned value, so a Rust function returning \<open>Option<T>\<close> that may
  also panic has type \<open>'t option rust\<close>.
\<close>

unbundle bit_operations_syntax

section \<open>Types\<close>

type_synonym u8 = "8 word"
type_synonym u16 = "16 word"
type_synonym u32 = "32 word"
type_synonym u64 = "64 word"
type_synonym bytes = "u8 list"

text \<open>A computation that may panic.\<close>
type_synonym 'a rust = "'a option"

text \<open>An \<open>Instant\<close>, in nanoseconds since an arbitrary origin.\<close>
type_synonym instant = nat

named_theorems slice_simps \<open>checked slice accesses\<close>
named_theorems word_simps \<open>word codecs\<close>

abbreviation seconds :: "nat \<Rightarrow> nat" where
  "seconds n \<equiv> n * 1000000000"

abbreviation millis :: "nat \<Rightarrow> nat" where
  "millis n \<equiv> n * 1000000"

section \<open>Checked slices\<close>

text \<open>\<open>xs[i]\<close>: panics out of range.\<close>
definition idx :: "'a list \<Rightarrow> nat \<Rightarrow> 'a rust" where
  "idx xs i = (if i < length xs then Some (xs ! i) else None)"

text \<open>\<open>xs.get(a..b)\<close>, and \<open>&xs[a..b]\<close> with \<open>None\<close> read as the panic.\<close>
definition get_range :: "'a list \<Rightarrow> nat \<Rightarrow> nat \<Rightarrow> 'a list option" where
  "get_range xs a b = (if a \<le> b \<and> b \<le> length xs then Some (take (b - a) (drop a xs)) else None)"

text \<open>\<open>xs.get(a..)\<close>, and \<open>&xs[a..]\<close> with \<open>None\<close> read as the panic.\<close>
definition get_from :: "'a list \<Rightarrow> nat \<Rightarrow> 'a list option" where
  "get_from xs a = (if a \<le> length xs then Some (drop a xs) else None)"

text \<open>\<open>xs[i] = v\<close>: panics out of range.\<close>
definition put :: "'a list \<Rightarrow> nat \<Rightarrow> 'a \<Rightarrow> 'a list rust" where
  "put xs i v = (if i < length xs then Some (xs[i := v]) else None)"

text \<open>\<open>xs[a..b].copy_from_slice(ys)\<close>: panics out of range or on a length mismatch.\<close>
definition copy_into :: "'a list \<Rightarrow> nat \<Rightarrow> nat \<Rightarrow> 'a list \<Rightarrow> 'a list rust" where
  "copy_into xs a b ys =
     (if a \<le> b \<and> b \<le> length xs \<and> length ys = b - a
      then Some (take a xs @ ys @ drop b xs) else None)"

text \<open>\<open>x?\<close> in a function that returns \<open>Option\<close>.\<close>
definition or_return :: "'a option \<Rightarrow> ('a \<Rightarrow> 'b option rust) \<Rightarrow> 'b option rust" where
  "or_return x f = (case x of None \<Rightarrow> Some None | Some a \<Rightarrow> f a)"

lemma or_return_simps [simp]: "or_return None f = Some None" "or_return (Some a) f = f a"
  by (simp_all add: or_return_def)

text \<open>Index bounds are arithmetic facts about lengths; keep them in that form.\<close>
declare length_greater_0_conv [simp del]

lemma idx_in [slice_simps, simp]: "i < length xs \<Longrightarrow> idx xs i = Some (xs ! i)"
  by (simp add: idx_def)

lemma idx_out [simp]: "length xs \<le> i \<Longrightarrow> idx xs i = None"
  by (simp add: idx_def)

lemma idx_eq_Some_iff: "idx xs i = Some x \<longleftrightarrow> i < length xs \<and> xs ! i = x"
  by (auto simp: idx_def)

lemma idx_eq_None_iff [simp]: "idx xs i = None \<longleftrightarrow> length xs \<le> i"
  by (auto simp: idx_def)

lemma get_range_in [slice_simps]:
  "a \<le> b \<Longrightarrow> b \<le> length xs \<Longrightarrow> get_range xs a b = Some (take (b - a) (drop a xs))"
  by (simp add: get_range_def)

lemma get_range_eq_Some_iff:
  "get_range xs a b = Some ys \<longleftrightarrow> a \<le> b \<and> b \<le> length xs \<and> ys = take (b - a) (drop a xs)"
  by (auto simp: get_range_def)

lemma get_range_eq_None_iff: "get_range xs a b = None \<longleftrightarrow> b < a \<or> length xs < b"
  by (auto simp: get_range_def)

lemma get_range_length: "get_range xs a b = Some ys \<Longrightarrow> length ys = b - a"
  by (auto simp: get_range_eq_Some_iff)

lemma get_range_nth: "get_range xs a b = Some ys \<Longrightarrow> i < b - a \<Longrightarrow> ys ! i = xs ! (a + i)"
  by (auto simp: get_range_eq_Some_iff)

lemma get_from_eq_Some_iff:
  "get_from xs a = Some ys \<longleftrightarrow> a \<le> length xs \<and> ys = drop a xs"
  by (auto simp: get_from_def)

lemma get_from_in [slice_simps]: "a \<le> length xs \<Longrightarrow> get_from xs a = Some (drop a xs)"
  by (simp add: get_from_def)

lemma get_range_append_mid:
  "length xs = a \<Longrightarrow> b = a + length ys \<Longrightarrow> get_range (xs @ ys @ zs) a b = Some ys"
  by (simp add: get_range_def)

lemma put_in [slice_simps]: "i < length xs \<Longrightarrow> put xs i v = Some (xs[i := v])"
  by (simp add: put_def)

lemma copy_into_in [slice_simps]:
  "a \<le> b \<Longrightarrow> b \<le> length xs \<Longrightarrow> length ys = b - a \<Longrightarrow>
   copy_into xs a b ys = Some (take a xs @ ys @ drop b xs)"
  by (simp add: copy_into_def)

lemma copy_into_append:
  "length a = i \<Longrightarrow> length b = length ys \<Longrightarrow> j = i + length ys \<Longrightarrow>
   copy_into (a @ b @ c) i j ys = Some (a @ ys @ c)"
  by (simp add: copy_into_def)

lemma split_length:
  assumes "n \<le> length xs"
  obtains a b where "xs = a @ b" and "length a = n"
  using assms that [of "take n xs" "drop n xs"] by simp

text \<open>\<open>xs.windows(n).position(|w| w == pat)\<close> for a non-empty pattern of length \<open>n\<close>.\<close>
fun find_window :: "'a list \<Rightarrow> 'a list \<Rightarrow> nat option" where
  "find_window pat [] = None"
| "find_window pat (x # xs) =
     (if length pat \<le> length (x # xs) \<and> take (length pat) (x # xs) = pat then Some 0
      else map_option Suc (find_window pat xs))"

lemma find_window_Some:
  "find_window pat xs = Some i \<Longrightarrow> i + length pat \<le> length xs \<and> take (length pat) (drop i xs) = pat"
  by (induction pat xs arbitrary: i rule: find_window.induct) (auto split: if_splits)

lemma find_window_first:
  "find_window pat xs = Some i \<Longrightarrow> j < i \<Longrightarrow> take (length pat) (drop j xs) \<noteq> pat"
proof (induction pat xs arbitrary: i j rule: find_window.induct)
  case (1 pat)
  then show ?case by simp
next
  case (2 pat x xs)
  then show ?case by (cases j) (auto split: if_splits)
qed

lemma find_window_None:
  assumes "find_window pat xs = None" and "pat \<noteq> []"
  shows "xs \<noteq> a @ pat @ b"
  using assms
proof (induction pat xs arbitrary: a rule: find_window.induct)
  case (1 pat)
  then show ?case by simp
next
  case (2 pat x xs)
  show ?case
  proof (cases a)
    case Nil
    show ?thesis
    proof
      assume "x # xs = a @ pat @ b"
      with Nil have "x # xs = pat @ b" by simp
      then have "take (length pat) (x # xs) = pat" and "length pat \<le> length (x # xs)"
        by (simp_all del: list.size)
      with 2 show False by (auto split: if_splits)
    qed
  next
    case (Cons y a')
    with 2 show ?thesis by (auto split: if_splits)
  qed
qed

lemma find_window_skip:
  assumes "pat = p # ps" and "p \<notin> set a"
  shows "find_window pat (a @ pat @ b) = Some (length a)"
  using assms(2)
proof (induction a)
  case Nil
  then show ?case using assms(1) by simp
next
  case (Cons x a)
  then show ?case using assms(1) by auto
qed

section \<open>Strings\<close>

text \<open>
  A Rust \<open>String\<close> is its UTF-8 bytes, so \<open>len\<close> is \<open>length\<close> and pushing a \<open>char\<close> appends its
  encoding. \<open>ascii\<close> reads a literal of the source.
\<close>
type_synonym rust_string = bytes

definition ascii :: "string \<Rightarrow> bytes" where
  "ascii s = map of_char s"

text \<open>The encoding of a \<open>u8 as char\<close>.\<close>
definition utf8_char :: "u8 \<Rightarrow> bytes" where
  "utf8_char b = (if b < 0x80 then [b] else [0xc0 OR drop_bit 6 b, 0x80 OR (b AND 0x3f)])"

definition ascii_lower :: "u8 \<Rightarrow> u8" where
  "ascii_lower b = (if 65 \<le> b \<and> b \<le> 90 then b + 32 else b)"

definition ends_with :: "'a list \<Rightarrow> 'a list \<Rightarrow> bool" where
  "ends_with s suf \<longleftrightarrow> length suf \<le> length s \<and> drop (length s - length suf) s = suf"

definition starts_with :: "'a list \<Rightarrow> 'a list \<Rightarrow> bool" where
  "starts_with s pre \<longleftrightarrow> length pre \<le> length s \<and> take (length pre) s = pre"

lemma ends_with_append [simp]: "ends_with (a @ b) b"
  by (simp add: ends_with_def)

lemma ends_with_iff: "ends_with s suf \<longleftrightarrow> (\<exists>a. s = a @ suf)"
  by (metis append_take_drop_id ends_with_append ends_with_def)

lemma starts_with_iff: "starts_with s pre \<longleftrightarrow> (\<exists>a. s = pre @ a)"
  by (auto simp: starts_with_def) (metis append_take_drop_id)

lemma utf8_ascii: "b < 0x80 \<Longrightarrow> utf8_char b = [b]"
  by (simp add: utf8_char_def)

lemma length_utf8_char: "length (utf8_char b) \<le> 2"
  by (simp add: utf8_char_def)

lemma utf8_char_nonempty [simp]: "utf8_char b \<noteq> []"
  by (simp add: utf8_char_def)

section \<open>Big-endian integers\<close>

text \<open>\<open>u16::from_be_bytes\<close> and \<open>to_be_bytes\<close>; \<open>u32\<close> likewise.\<close>
definition be16 :: "u8 \<Rightarrow> u8 \<Rightarrow> u16" where
  "be16 a b = push_bit 8 (ucast a) OR ucast b"

definition to_be16 :: "u16 \<Rightarrow> bytes" where
  "to_be16 w = [ucast (drop_bit 8 w), ucast w]"

definition to_be32 :: "u32 \<Rightarrow> bytes" where
  "to_be32 w = [ucast (drop_bit 24 w), ucast (drop_bit 16 w), ucast (drop_bit 8 w), ucast w]"

lemma length_to_be16 [simp]: "length (to_be16 w) = 2"
  by (simp add: to_be16_def)

lemma length_to_be32 [simp]: "length (to_be32 w) = 4"
  by (simp add: to_be32_def)

lemma be16_split [simp, word_simps]: "be16 (ucast (drop_bit 8 w)) (ucast w) = w"
  unfolding be16_def by (rule bit_word_eqI) (auto simp: bit_simps)

lemma be16_to_be16 [simp, word_simps]: "be16 (to_be16 w ! 0) (to_be16 w ! Suc 0) = w"
  by (simp add: to_be16_def)

lemma unat_u8: "unat (a :: u8) < 256"
  using unsigned_less [of a] by simp

lemma unat_u16: "unat (a :: u16) < 65536"
  using unsigned_less [of a] by simp

lemma unat_u32: "unat (a :: u32) < 4294967296"
  using unsigned_less [of a] by simp

lemma unat_u8_less [word_simps]: "256 \<le> n \<Longrightarrow> unat (a :: u8) < n"
  using unat_u8 [of a] by simp

lemma unat_u16_less [word_simps]: "65536 \<le> n \<Longrightarrow> unat (a :: u16) < n"
  using unat_u16 [of a] by simp

lemma unat_be16: "unat (be16 a b) = 256 * unat a + unat b"
proof -
  have b: "unat b < 256" and a: "unat a < 256" by (rule unat_u8)+
  have ua: "unat (ucast a :: u16) = unat a" and ub: "unat (ucast b :: u16) = unat b"
    using a b by (simp_all add: unsigned_ucast_eq take_bit_nat_eq_self_iff)
  have "push_bit 8 (ucast a :: u16) AND ucast b = 0"
    by (rule bit_word_eqI) (auto simp: bit_simps dest!: bit_imp_le_length)
  then have "be16 a b = push_bit 8 (ucast a) + ucast b"
    by (simp add: be16_def disjunctive_add_eq_or)
  then have "be16 a b = ucast a * 256 + ucast b"
    by (simp add: push_bit_eq_mult)
  moreover have "unat a * 256 + unat b < 65536" using a b by linarith
  ultimately show ?thesis
    using ua ub by (simp add: unat_word_ariths)
qed

lemma be16_eq_iff: "be16 a b = w \<longleftrightarrow> 256 * unat a + unat b = unat w"
  by (metis unat_be16 unsigned_word_eqI)

section \<open>Maps as association lists\<close>

text \<open>
  A \<open>HashMap\<close> is an association list with distinct keys, listed in the map's
  iteration order. Rust leaves that order unspecified, so operations that iterate
  take the order as an argument.
\<close>

definition contains_key :: "('k \<times> 'v) list \<Rightarrow> 'k \<Rightarrow> bool" where
  "contains_key m k \<longleftrightarrow> map_of m k \<noteq> None"

lemma contains_key_iff [simp]: "contains_key m k \<longleftrightarrow> k \<in> fst ` set m"
  by (auto simp: contains_key_def map_of_eq_None_iff)

lemma length_update:
  "length (AList.update k v m) = (if k \<in> fst ` set m then length m else Suc (length m))"
  by (induction m) auto

lemma length_delete_le: "length (AList.delete k m) \<le> length m"
  by (simp add: AList.delete_eq)

lemma length_delete_less: "k \<in> fst ` set m \<Longrightarrow> length (AList.delete k m) < length m"
  by (auto simp: AList.delete_eq intro!: length_filter_less)

lemma set_delete: "set (AList.delete k m) = {e \<in> set m. fst e \<noteq> k}"
  by (auto simp: AList.delete_eq)

lemma dom_delete': "fst ` set (AList.delete k m) = fst ` set m - {k}"
  by (auto simp: set_delete image_iff)

lemma length_delete_distinct:
  "distinct (map fst m) \<Longrightarrow> k \<in> fst ` set m \<Longrightarrow> Suc (length (AList.delete k m)) = length m"
proof (induction m)
  case (Cons e m)
  show ?case
  proof (cases "fst e = k")
    case True
    then have "AList.delete k m = m" using Cons.prems(1) by (auto simp: delete_idem)
    with True show ?thesis by (cases e) simp
  next
    case False
    with Cons show ?thesis by (cases e) auto
  qed
qed simp

lemma distinct_keys_filter: "distinct (map fst m) \<Longrightarrow> distinct (map fst (filter P m))"
  by (simp add: distinct_map_filter)

section \<open>State machines and their invariants\<close>

text \<open>
  A component: an initial state, and operations given as one step function with an
  output. The client lemma: what every operation keeps holds after any sequence of
  operations, and \<open>run\<close> yields one output for each.
\<close>

fun run :: "('s \<Rightarrow> 'e \<Rightarrow> 's \<times> 'o) \<Rightarrow> 's \<Rightarrow> 'e list \<Rightarrow> 's \<times> 'o list" where
  "run step s [] = (s, [])"
| "run step s (e # es) =
     (fst (run step (fst (step s e)) es), snd (step s e) # snd (run step (fst (step s e)) es))"

lemma run_append:
  "run step s (xs @ ys) =
     (fst (run step (fst (run step s xs)) ys),
      snd (run step s xs) @ snd (run step (fst (run step s xs)) ys))"
  by (induction xs arbitrary: s) auto

lemma length_run [simp]: "length (snd (run step s es)) = length es"
  by (induction es arbitrary: s) auto

lemma run_take: "snd (run step s (take i es)) = take i (snd (run step s es))"
proof (induction es arbitrary: s i)
  case (Cons e es)
  then show ?case by (cases i) auto
qed simp

lemma run_nth:
  "i < length es \<Longrightarrow>
   snd (run step s es) ! i = snd (step (fst (run step s (take i es))) (es ! i))"
proof (induction es arbitrary: s i)
  case Nil
  then show ?case by simp
next
  case (Cons e es)
  then show ?case by (cases i) auto
qed

locale machine =
  fixes init :: 's
    and step :: "'s \<Rightarrow> 'e \<Rightarrow> 's \<times> 'o"
    and ok :: "'s \<Rightarrow> bool"
  assumes ok_init: "ok init"
    and ok_step: "ok s \<Longrightarrow> ok (fst (step s e))"
begin

lemma ok_run_from: "ok s \<Longrightarrow> ok (fst (run step s es))"
  by (induction es arbitrary: s) (auto dest: ok_step)

lemma ok_run: "ok (fst (run step init es))"
  by (rule ok_run_from) (rule ok_init)

end

text \<open>The same for a step relation, whose states are those reachable from the first.\<close>
locale transitions =
  fixes init :: 's
    and step :: "'s \<Rightarrow> 's \<Rightarrow> bool"
    and ok :: "'s \<Rightarrow> bool"
  assumes ok_init: "ok init"
    and ok_step: "step s s' \<Longrightarrow> ok s \<Longrightarrow> ok s'"
begin

lemma ok_steps: "step\<^sup>*\<^sup>* s s' \<Longrightarrow> ok s \<Longrightarrow> ok s'"
  by (induction rule: rtranclp_induct) (auto intro: ok_step)

lemma ok_reachable: "step\<^sup>*\<^sup>* init s \<Longrightarrow> ok s"
  using ok_steps ok_init by blast

text \<open>An observation that steps of another relation follow.\<close>
lemma simulated:
  assumes "step\<^sup>*\<^sup>* init s" and "\<And>s s'. ok s \<Longrightarrow> step s s' \<Longrightarrow> view s' = view s \<or> astep (view s) (view s')"
  shows "astep\<^sup>*\<^sup>* (view init) (view s)"
  using assms(1)
proof (induction rule: rtranclp_induct)
  case (step s s')
  from assms(2) [OF ok_reachable [OF step.hyps(1)] step.hyps(2)] step.IH show ?case
    by (metis rtranclp.rtrancl_into_rtrancl)
qed simp

end

end
