(* ===== verification/Packet.thy ===== *)
theory Packet
  imports Prelude
begin

text \<open>
  \<open>shim/src/packet.rs\<close>: building and parsing the plain IPv6/UDP packets of the DNS
  proxy, and the same builder as the smoke test carries it (\<open>smoke/src/main.rs\<close>).
  Lengths are \<open>usize\<close> (here \<open>nat\<close>) until the code narrows them with \<open>as u16\<close>; the
  checksum accumulator is a wrapping \<open>u32\<close> (a release build has no overflow checks).
  Addresses are \<open>[u8; 16]\<close>: byte lists whose length is 16.
\<close>

section \<open>The Internet checksum\<close>

text \<open>\<open>add\<close>: the bytes in chunks of two, the last one padded with a zero.\<close>
fun add_words :: "u32 \<Rightarrow> bytes \<Rightarrow> u32" where
  "add_words acc [] = acc"
| "add_words acc [a] = acc + ucast (be16 a 0)"
| "add_words acc (a # b # rest) = add_words (acc + ucast (be16 a b)) rest"

lemma unat_low16: "unat (acc AND 0xffff :: u32) = unat acc mod 65536"
proof -
  have "acc AND 0xffff = take_bit 16 acc"
    by (simp add: take_bit_eq_mask mask_eq_exp_minus_1)
  then show ?thesis by (simp add: take_bit_eq_mod unat_mod)
qed

lemma unat_high16: "unat (drop_bit 16 acc :: u32) = unat acc div 65536"
  by (simp add: drop_bit_eq_div unat_div)

lemma fold_step_less: "65535 < (n :: nat) \<Longrightarrow> n mod 65536 + n div 65536 < n"
proof -
  assume "65535 < n"
  then have "0 < n div 65536" by (simp add: div_greater_zero_iff)
  moreover have "n = 65536 * (n div 65536) + n mod 65536" by simp
  ultimately show ?thesis by linarith
qed

lemma unat_fold_step:
  "unat ((acc AND 0xffff) + drop_bit 16 acc :: u32) = unat acc mod 65536 + unat acc div 65536"
proof -
  have "unat acc div 65536 < 65536"
    using unat_u32 [of acc] by (simp add: less_mult_imp_div_less)
  moreover have "unat acc mod 65536 < 65536" by simp
  ultimately show ?thesis by (simp add: unat_word_ariths unat_low16 unat_high16)
qed

text \<open>\<open>while sum > 0xffff { sum = (sum & 0xffff) + (sum >> 16) }\<close>\<close>
function fold_sum :: "u32 \<Rightarrow> u32" where
  "fold_sum acc = (if 0xffff < acc then fold_sum ((acc AND 0xffff) + drop_bit 16 acc) else acc)"
  by pat_completeness auto
termination
proof (relation "measure unat")
  fix acc :: u32 assume "0xffff < acc"
  then have "65535 < unat acc" by (simp add: word_less_nat_alt)
  then show "((acc AND 0xffff) + drop_bit 16 acc, acc) \<in> measure unat"
    by (simp add: unat_fold_step fold_step_less)
qed simp

declare fold_sum.simps [simp del]

text \<open>The pseudo-header and the segment, added up.\<close>
definition pseudo_sum :: "bytes \<Rightarrow> bytes \<Rightarrow> bytes \<Rightarrow> u32" where
  "pseudo_sum src dst udp =
     (let acc = add_words 0 src;
          acc = add_words acc dst;
          acc = add_words acc (to_be32 (word_of_nat (length udp)));
          acc = add_words acc [0, 0, 0, 17]
      in add_words acc udp)"

definition udp_checksum :: "bytes \<Rightarrow> bytes \<Rightarrow> bytes \<Rightarrow> u16" where
  "udp_checksum src dst udp =
     (let c = NOT (ucast (fold_sum (pseudo_sum src dst udp))) :: u16
      in if c = 0 then 0xffff else c)"

text \<open>The IPv6 header and the UDP segment around a payload.\<close>
definition build_ipv6_udp :: "bytes \<Rightarrow> bytes \<Rightarrow> u16 \<Rightarrow> u16 \<Rightarrow> bytes \<Rightarrow> bytes rust" where
  "build_ipv6_udp src dst src_port dst_port payload = do {
     let udp_len = 8 + length payload;
     let udp = to_be16 src_port @ to_be16 dst_port @ to_be16 (word_of_nat udp_len) @ [0, 0] @ payload;
     let checksum = udp_checksum src dst udp;
     udp \<leftarrow> copy_into udp 6 8 (to_be16 checksum);
     Some ([0x60, 0, 0, 0] @ to_be16 (word_of_nat udp_len) @ [17] @ [64] @ src @ dst @ udp)
   }"

section \<open>Parsing\<close>

record ipv6_udp =
  ip_src :: bytes
  ip_dst :: bytes
  ip_src_port :: u16
  ip_dst_port :: u16
  ip_payload :: bytes

definition parse_ipv6_udp :: "bytes \<Rightarrow> ipv6_udp option rust" where
  "parse_ipv6_udp packet =
     (if length packet < 48 then Some None
      else do {
        b0 \<leftarrow> idx packet 0;
        if drop_bit 4 b0 \<noteq> 6 then Some None
        else do {
          b6 \<leftarrow> idx packet 6;
          if b6 \<noteq> 17 then Some None
          else do {
            b4 \<leftarrow> idx packet 4;
            b5 \<leftarrow> idx packet 5;
            let payload_len = unat (be16 b4 b5);
            if payload_len < 8 \<or> length packet < 40 + payload_len then Some None
            else do {
              b44 \<leftarrow> idx packet 44;
              b45 \<leftarrow> idx packet 45;
              let udp_len = unat (be16 b44 b45);
              if udp_len < 8 \<or> payload_len < udp_len then Some None
              else do {
                s \<leftarrow> get_range packet 8 24;
                d \<leftarrow> get_range packet 24 40;
                b40 \<leftarrow> idx packet 40;
                b41 \<leftarrow> idx packet 41;
                b42 \<leftarrow> idx packet 42;
                b43 \<leftarrow> idx packet 43;
                p \<leftarrow> get_range packet 48 (40 + udp_len);
                Some (Some \<lparr>ip_src = s, ip_dst = d, ip_src_port = be16 b40 b41,
                            ip_dst_port = be16 b42 b43, ip_payload = p\<rparr>)
              }
            }
          }
        }
      })"

text \<open>What the parser accepts, and what it returns then.\<close>
definition plain_udp :: "bytes \<Rightarrow> bool" where
  "plain_udp p \<longleftrightarrow>
     48 \<le> length p \<and> drop_bit 4 (p ! 0) = 6 \<and> p ! 6 = 17 \<and>
     8 \<le> unat (be16 (p ! 44) (p ! 45)) \<and>
     unat (be16 (p ! 44) (p ! 45)) \<le> unat (be16 (p ! 4) (p ! 5)) \<and>
     40 + unat (be16 (p ! 4) (p ! 5)) \<le> length p"

definition udp_view :: "bytes \<Rightarrow> ipv6_udp" where
  "udp_view p =
     \<lparr>ip_src = take 16 (drop 8 p), ip_dst = take 16 (drop 24 p),
      ip_src_port = be16 (p ! 40) (p ! 41), ip_dst_port = be16 (p ! 42) (p ! 43),
      ip_payload = take (unat (be16 (p ! 44) (p ! 45)) - 8) (drop 48 p)\<rparr>"

lemma parse_ipv6_udp_eq:
  "parse_ipv6_udp p = Some (if plain_udp p then Some (udp_view p) else None)"
  by (auto simp: parse_ipv6_udp_def Let_def get_range_in plain_udp_def udp_view_def)

lemma unat_udp_len: "n \<le> 65527 \<Longrightarrow> unat (8 + word_of_nat n :: u16) = 8 + n"
  by (simp add: unat_word_ariths unat_of_nat)
lemma build_ipv6_udp_eq:
  "build_ipv6_udp s d sp dp p =
     (let len = to_be16 (word_of_nat (8 + length p));
          head = to_be16 sp @ to_be16 dp @ len
      in Some ([0x60, 0, 0, 0] @ len @ [17, 64] @ s @ d @
               head @ to_be16 (udp_checksum s d (head @ [0, 0] @ p)) @ p))"
  by (simp add: build_ipv6_udp_def Let_def copy_into_def to_be16_def)

section \<open>Checksum arithmetic\<close>

text \<open>The sum the code accumulates, without the word size.\<close>
fun word_sum :: "bytes \<Rightarrow> nat" where
  "word_sum [] = 0"
| "word_sum [a] = 256 * unat a"
| "word_sum (a # b # rest) = 256 * unat a + unat b + word_sum rest"

lemma unat_ucast_u16 [simp]: "unat (ucast (w :: u16) :: u32) = unat w"
  by (simp add: unsigned_ucast_eq take_bit_nat_eq_self_iff word_simps)

lemma unat_add_words: "unat (add_words acc bs) = (unat acc + word_sum bs) mod 4294967296"
proof (induction acc bs rule: add_words.induct)
  case (1 acc)
  then show ?case using unat_u32 [of acc] by simp
next
  case (2 acc a)
  then show ?case by (simp add: unat_word_ariths unat_be16)
next
  case (3 acc a b rest)
  have "unat (acc + ucast (be16 a b)) = (unat acc + (256 * unat a + unat b)) mod 4294967296"
    by (simp add: unat_word_ariths unat_be16)
  with 3 show ?case by (simp add: mod_add_left_eq add.assoc)
qed

lemma word_sum_append: "even (length xs) \<Longrightarrow> word_sum (xs @ ys) = word_sum xs + word_sum ys"
  by (induction xs rule: word_sum.induct) auto

lemma word_sum_bound: "word_sum xs \<le> 65535 * ((length xs + 1) div 2)"
proof (induction xs rule: word_sum.induct)
  case (2 a)
  then show ?case using unat_u8 [of a] by simp
next
  case (3 a b rest)
  have "256 * unat a + unat b \<le> 65535" using unat_u8 [of a] unat_u8 [of b] by linarith
  with 3 show ?case by simp
qed simp

lemma word_sum_be16: "word_sum (to_be16 w) = unat w"
proof -
  have "be16 (ucast (drop_bit 8 w)) (ucast w) = w" by simp
  then show ?thesis by (simp add: to_be16_def flip: unat_be16)
qed

lemma fold_sum_mod: "unat (fold_sum acc) mod 65535 = unat acc mod 65535"
proof (induction acc rule: fold_sum.induct)
  case (1 acc)
  let ?q = "unat acc div 65536" and ?r = "unat acc mod 65536"
  have "unat acc = 65535 * ?q + (?r + ?q)"
    using div_mult_mod_eq [of "unat acc" 65536] by linarith
  then have "unat acc mod 65535 = (65535 * ?q + (?r + ?q)) mod 65535" by (rule arg_cong)
  also have "\<dots> = (?r + ?q) mod 65535" by (rule mod_mult_self4)
  finally have "(?r + ?q) mod 65535 = unat acc mod 65535" by (rule sym)
  with 1 show ?case by (subst fold_sum.simps) (simp add: unat_fold_step)
qed

lemma fold_sum_le: "unat (fold_sum acc) \<le> 65535"
proof (induction acc rule: fold_sum.induct)
  case (1 acc)
  then show ?case
    by (subst fold_sum.simps) (auto simp: word_less_nat_alt not_less)
qed

lemma fold_sum_pos: "0 < unat acc \<Longrightarrow> 0 < unat (fold_sum acc)"
proof (induction acc rule: fold_sum.induct)
  case (1 acc)
  show ?case
  proof (cases "0xffff < acc")
    case True
    then have "0 < unat acc div 65536" by (simp add: word_less_nat_alt div_greater_zero_iff)
    with True 1 show ?thesis by (subst fold_sum.simps) (simp add: unat_fold_step)
  next
    case False
    with 1 show ?thesis by (subst fold_sum.simps) simp
  qed
qed

lemma fold_sum_complete:
  assumes "65535 dvd unat acc" and "0 < unat acc"
  shows "fold_sum acc = 0xffff"
proof -
  have "65535 dvd unat (fold_sum acc)"
    using assms(1) fold_sum_mod [of acc] by (simp add: dvd_eq_mod_eq_0)
  moreover have "0 < unat (fold_sum acc)" by (rule fold_sum_pos) (rule assms(2))
  ultimately have "unat (fold_sum acc) = 65535"
    using fold_sum_le [of acc] by (auto elim!: dvdE)
  then show ?thesis by (simp add: word_unat_eq_iff)
qed

lemma unat_pseudo_sum:
  assumes "length s = 16" and "length d = 16" and "length udp \<le> 65535"
  shows "unat (pseudo_sum s d udp) =
         word_sum s + word_sum d + word_sum (to_be32 (word_of_nat (length udp))) + 17 + word_sum udp"
    (is "_ = ?total")
proof -
  have "word_sum s \<le> 65535 * 8" "word_sum d \<le> 65535 * 8"
    "word_sum (to_be32 (word_of_nat (length udp))) \<le> 65535 * 2"
    using word_sum_bound [of s] word_sum_bound [of d]
      word_sum_bound [of "to_be32 (word_of_nat (length udp))"] assms by simp_all
  moreover have "word_sum udp \<le> 65535 * 32768"
    using word_sum_bound [of udp] assms(3) by linarith
  ultimately have "?total < 4294967296" by linarith
  then show ?thesis by (simp add: pseudo_sum_def Let_def unat_add_words mod_simps add.assoc del: add_words.simps)
qed

text \<open>Writing the checksum into the segment adds it to the sum: it sits at an even offset.\<close>
lemma word_sum_segment:
  assumes "even (length h)"
  shows "word_sum (h @ to_be16 c @ p) = word_sum (h @ [0, 0] @ p) + unat c"
  using assms by (simp add: word_sum_append word_sum_be16)

lemma unat_plus_u16: "unat (a + b :: u16) = (unat a + unat b) mod 65536"
  by (simp add: unat_word_ariths)

lemma unat_numeral_65535: "unat (65535 :: u16) = 65535"
  by simp

lemma unat_not_u16: "unat (NOT w :: u16) = 65535 - unat w"
proof -
  have "w + NOT w = 65535" by (simp add: not_eq_complement)
  then have "(unat w + unat (NOT w)) mod 65536 = 65535"
    by (metis unat_numeral_65535 unat_plus_u16)
  moreover have "unat w < 65536" "unat (NOT w) < 65536" by (rule unat_u16)+
  ultimately show ?thesis by (auto simp: mod_if split: if_splits)
qed

lemma checksum_completes:
  assumes "unat acc' = unat acc + unat c"
    and "c = (let c = NOT (ucast (fold_sum acc)) :: u16 in if c = 0 then 0xffff else c)"
    and "0 < unat acc"
  shows "fold_sum acc' = 0xffff"
proof (rule fold_sum_complete)
  let ?f = "unat (fold_sum acc)"
  have le: "?f \<le> 65535" by (rule fold_sum_le)
  have pos: "0 < ?f" by (rule fold_sum_pos) (rule assms(3))
  have uc: "unat (ucast (fold_sum acc) :: u16) = ?f"
    using le by (simp add: unsigned_ucast_eq take_bit_nat_eq_self_iff)
  have "?f + unat c = 65535 \<or> ?f + unat c = 2 * 65535"
    using assms(2) le uc unat_not_u16 [of "ucast (fold_sum acc)"]
    by (auto simp: Let_def unat_0_iff [symmetric] split: if_splits)
  then have "65535 dvd ?f + unat c" by auto
  then have "(?f mod 65535 + unat c) mod 65535 = 0"
    by (simp add: mod_add_left_eq dvd_eq_mod_eq_0)
  then show "65535 dvd unat acc'"
    using assms(1) by (simp add: fold_sum_mod mod_add_left_eq dvd_eq_mod_eq_0)
  show "0 < unat acc'" using assms(1,3) by simp
qed

lemma build_pkt_udp:
  assumes "build_ipv6_udp s d sp dp p = Some pkt" and "length s = 16" and "length d = 16"
  defines "h \<equiv> to_be16 sp @ to_be16 dp @ to_be16 (word_of_nat (8 + length p))"
  shows "drop 40 pkt = h @ to_be16 (udp_checksum s d (h @ [0, 0] @ p)) @ p"
    and "length pkt = 48 + length p"
  using assms by (auto simp: build_ipv6_udp_eq Let_def)

lemma built_view:
  assumes "length s = 16" and "length d = 16" and "length p \<le> 65527"
  obtains pkt where "build_ipv6_udp s d sp dp p = Some pkt" and "plain_udp pkt"
    and "udp_view pkt = \<lparr>ip_src = s, ip_dst = d, ip_src_port = sp, ip_dst_port = dp, ip_payload = p\<rparr>"
  using assms
  by (simp add: build_ipv6_udp_eq plain_udp_def udp_view_def Let_def to_be16_def nth_append unat_udp_len)

section \<open>The smoke test's builder\<close>

text \<open>\<open>smoke/src/main.rs\<close> carries its own copy, with fixed ports and the checksum inline.\<close>
definition smoke_build_ipv6_udp :: "bytes \<Rightarrow> bytes \<Rightarrow> bytes \<Rightarrow> bytes rust" where
  "smoke_build_ipv6_udp src dst payload = do {
     let udp_len = 8 + length payload;
     let udp = to_be16 40000 @ to_be16 40001 @ to_be16 (word_of_nat udp_len) @ [0, 0] @ payload;
     let acc = add_words 0 src;
     let acc = add_words acc dst;
     let acc = add_words acc (to_be32 (word_of_nat udp_len));
     let acc = add_words acc [0, 0, 0, 17];
     let acc = fold_sum (add_words acc udp);
     let checksum = (let c = NOT (ucast acc) :: u16 in if c = 0 then 0xffff else c);
     udp \<leftarrow> copy_into udp 6 8 (to_be16 checksum);
     Some ([0x60, 0, 0, 0] @ to_be16 (word_of_nat udp_len) @ [17] @ [64] @ src @ dst @ udp)
   }"

section \<open>Properties\<close>

text \<open>
  C28. A packet the proxy builds around a DNS payload parses back to exactly the
  addresses, ports and payload it was built from, for every payload that fits the
  16-bit UDP length; building never panics.
\<close>
theorem build_parse_roundtrip:
  assumes "length s = 16" and "length d = 16" and "length p \<le> 65527"
  shows "Option.bind (build_ipv6_udp s d sp dp p) parse_ipv6_udp =
         Some (Some \<lparr>ip_src = s, ip_dst = d, ip_src_port = sp, ip_dst_port = dp, ip_payload = p\<rparr>)"
  by (rule built_view [OF assms, of sp dp]) (simp add: parse_ipv6_udp_eq)

theorem build_parse_roundtrip_witness:
  "Option.bind (build_ipv6_udp (replicate 16 0xfd) (replicate 16 2) 40000 53 [1, 2, 3]) parse_ipv6_udp =
   Some (Some \<lparr>ip_src = replicate 16 0xfd, ip_dst = replicate 16 2, ip_src_port = 40000,
               ip_dst_port = 53, ip_payload = [1, 2, 3]\<rparr>)"
  by (rule build_parse_roundtrip) simp_all

text \<open>
  The checksum written into a built packet is never zero (which IPv6 forbids) and
  verifies at the receiver: the pseudo-header and the whole UDP segment, checksum
  included, add up to \<open>0xffff\<close>, and the \<open>u32\<close> accumulator never wraps on the way.
\<close>
theorem built_checksum_verifies:
  assumes "length s = 16" and "length d = 16" and "length p \<le> 65527"
    and "build_ipv6_udp s d sp dp p = Some pkt"
  shows "fold_sum (pseudo_sum s d (drop 40 pkt)) = 0xffff \<and> be16 (pkt ! 46) (pkt ! 47) \<noteq> 0"
proof
  show "fold_sum (pseudo_sum s d (drop 40 pkt)) = 0xffff" and "be16 (pkt ! 46) (pkt ! 47) \<noteq> 0"
  proof -
    define h where "h = to_be16 sp @ to_be16 dp @ to_be16 (word_of_nat (8 + length p))"
    define c where "c = udp_checksum s d (h @ [0, 0] @ p)"
    have h: "length h = 6" by (simp add: h_def)
    have udp: "drop 40 pkt = h @ to_be16 c @ p" and len: "length pkt = 48 + length p"
      using build_pkt_udp [OF assms(4,1,2)] by (simp_all add: h_def c_def)
    have "unat (pseudo_sum s d (h @ to_be16 c @ p)) = unat (pseudo_sum s d (h @ [0, 0] @ p)) + unat c"
      using assms(1-3) h by (simp add: unat_pseudo_sum word_sum_segment)
    moreover have "0 < unat (pseudo_sum s d (h @ [0, 0] @ p))"
      using assms(1-3) h by (simp add: unat_pseudo_sum)
    ultimately show "fold_sum (pseudo_sum s d (drop 40 pkt)) = 0xffff"
      unfolding udp by (intro checksum_completes [of _ _ c]) (simp_all add: c_def udp_checksum_def)
    have "pkt ! 46 = drop 40 pkt ! 6" and "pkt ! 47 = drop 40 pkt ! 7" using len by simp_all
    then have "be16 (pkt ! 46) (pkt ! 47) = c"
      unfolding udp using h by (simp add: nth_append)
    then show "be16 (pkt ! 46) (pkt ! 47) \<noteq> 0"
      by (simp add: c_def udp_checksum_def Let_def)
  qed
qed

theorem built_checksum_verifies_witness:
  "\<exists>pkt. build_ipv6_udp (replicate 16 1) (replicate 16 2) 1234 53 [97, 98, 99] = Some pkt \<and>
         fold_sum (pseudo_sum (replicate 16 1) (replicate 16 2) (drop 40 pkt)) = 0xffff"
proof -
  obtain pkt where b: "build_ipv6_udp (replicate 16 1) (replicate 16 2) 1234 53 [97, 98, 99] = Some pkt"
    by (simp add: build_ipv6_udp_eq Let_def)
  show ?thesis using b built_checksum_verifies [OF _ _ _ b] by simp
qed

text \<open>
  The parser never panics, whatever bytes arrive, and accepts exactly the plain
  IPv6/UDP packets whose UDP length fits the IPv6 payload length and whose payload
  length fits the packet, returning the fields at their fixed offsets: truncated
  packets, other protocols and extension headers are \<open>None\<close>.
\<close>
theorem parse_total_and_exact:
  "parse_ipv6_udp p = Some (if plain_udp p then Some (udp_view p) else None) \<and>
   (plain_udp p \<longrightarrow> length (ip_src (udp_view p)) = 16 \<and> length (ip_dst (udp_view p)) = 16 \<and>
      48 + length (ip_payload (udp_view p)) \<le> length p)"
  by (auto simp: parse_ipv6_udp_eq udp_view_def plain_udp_def)

theorem parse_total_and_exact_witness:
  "parse_ipv6_udp (0x60 # replicate 60 0) = Some None \<and> parse_ipv6_udp [] = Some None"
  using parse_total_and_exact [of "0x60 # replicate 60 0"] parse_total_and_exact [of "[]"]
  by (simp add: plain_udp_def)

text \<open>
  The smoke test's private copy of the builder is the shim's builder at ports
  40000 and 40001, so what the smoke test pushes through two nodes is the wire format
  the proxy produces.
\<close>
theorem smoke_builder_agrees:
  "smoke_build_ipv6_udp s d p = build_ipv6_udp s d 40000 40001 p"
  by (simp add: smoke_build_ipv6_udp_def build_ipv6_udp_def udp_checksum_def pseudo_sum_def Let_def
      del: add_words.simps)

end
