(* ===== verification/InboundFilter.thy ===== *)
theory InboundFilter
  imports Prelude
begin

text \<open>
  \<open>shim/src/filter.rs\<close>: the stateful inbound firewall of the mesh-to-app path. The
  state is the sorted allowlist and the flow table (\<open>HashMap<FlowKey, Instant>\<close>, here an
  association list with distinct keys). Every operation takes the flow table's mutex
  once, so the operations are atomic; \<open>now\<close> is read before the lock, so the times of
  consecutive operations need not increase. \<open>duration_since\<close> saturates at zero, as
  subtraction on \<open>nat\<close> does. Where the code iterates over the map, the order is
  unspecified: \<open>rank\<close> is an arbitrary ranking of the keys that gives it.
\<close>

section \<open>Data\<close>

definition PROTO_TCP :: u8 where "PROTO_TCP = 6"
definition PROTO_UDP :: u8 where "PROTO_UDP = 17"
definition PROTO_ICMPV6 :: u8 where "PROTO_ICMPV6 = 58"
definition TCP_IDLE :: nat where "TCP_IDLE = seconds 600"
definition UDP_IDLE :: nat where "UDP_IDLE = seconds 180"
definition MAX_FLOWS :: nat where "MAX_FLOWS = 4096"

lemmas filter_consts =
  PROTO_TCP_def PROTO_UDP_def PROTO_ICMPV6_def TCP_IDLE_def UDP_IDLE_def

record flow_key =
  k_proto :: u8
  k_local_port :: u16
  k_remote_addr :: bytes
  k_remote_port :: u16

record parsed =
  p_proto :: u8
  p_src_addr :: bytes
  p_src_port :: u16
  p_dst_port :: u16

type_synonym flow_table = "(flow_key \<times> instant) list"

record inbound_filter =
  allowed_ports :: "u16 list"
  flows :: flow_table

section \<open>Operations\<close>

definition filter_parse :: "bytes \<Rightarrow> parsed option rust" where
  "filter_parse packet =
     (if length packet < 40 then Some None
      else do {
        b0 \<leftarrow> idx packet 0;
        if drop_bit 4 b0 \<noteq> 6 then Some None
        else do {
          proto \<leftarrow> idx packet 6;
          src_addr \<leftarrow> get_range packet 8 24;
          if proto = PROTO_ICMPV6 then
            Some (Some \<lparr>p_proto = proto, p_src_addr = src_addr, p_src_port = 0, p_dst_port = 0\<rparr>)
          else if proto = PROTO_TCP \<or> proto = PROTO_UDP then
            (case get_range packet 40 44 of
               None \<Rightarrow> Some None
             | Some l4 \<Rightarrow> do {
                 l0 \<leftarrow> idx l4 0; l1 \<leftarrow> idx l4 1; l2 \<leftarrow> idx l4 2; l3 \<leftarrow> idx l4 3;
                 Some (Some \<lparr>p_proto = proto, p_src_addr = src_addr,
                             p_src_port = be16 l0 l1, p_dst_port = be16 l2 l3\<rparr>)
               })
          else Some None
        }
      })"

definition idle_limit :: "u8 \<Rightarrow> nat" where
  "idle_limit proto = (if proto = PROTO_TCP then TCP_IDLE else UDP_IDLE)"

definition filter_new :: "u16 list \<Rightarrow> inbound_filter" where
  "filter_new ports = \<lparr>allowed_ports = remdups_adj (sort ports), flows = []\<rparr>"

text \<open>\<open>slice::binary_search(..).is_ok()\<close>.\<close>
function bsearch :: "'a::linorder list \<Rightarrow> 'a \<Rightarrow> nat \<Rightarrow> nat \<Rightarrow> bool" where
  "bsearch xs x lo hi =
     (if lo < hi then
        (let mid = (lo + hi) div 2
         in if xs ! mid = x then True
            else if xs ! mid < x then bsearch xs x (Suc mid) hi
            else bsearch xs x lo mid)
      else False)"
  by pat_completeness auto
termination
  by (relation "measure (\<lambda>(xs, x, lo, hi). hi - lo)") auto

declare bsearch.simps [simp del]

definition port_allowed :: "inbound_filter \<Rightarrow> u16 \<Rightarrow> bool" where
  "port_allowed f port = bsearch (allowed_ports f) port 0 (length (allowed_ports f))"

text \<open>\<open>iter().min_by_key(|(_, t)| **t)\<close>: the first entry of least time in iteration order.\<close>
fun stalest :: "flow_table \<Rightarrow> (flow_key \<times> instant) option" where
  "stalest [] = None"
| "stalest (e # es) =
     (case stalest es of None \<Rightarrow> Some e | Some m \<Rightarrow> Some (if snd e \<le> snd m then e else m))"

definition iteration :: "(flow_key \<Rightarrow> nat) \<Rightarrow> flow_table \<Rightarrow> flow_table" where
  "iteration rank m = sort_key (\<lambda>e. rank (fst e)) m"

definition live :: "instant \<Rightarrow> flow_key \<times> instant \<Rightarrow> bool" where
  "live now e \<longleftrightarrow> now - snd e < idle_limit (k_proto (fst e))"

definition make_room :: "(flow_key \<Rightarrow> nat) \<Rightarrow> instant \<Rightarrow> flow_table \<Rightarrow> flow_table" where
  "make_room rank now fl =
     (let fl = filter (live now) fl
      in if MAX_FLOWS \<le> length fl then
           (case stalest (iteration rank fl) of
              None \<Rightarrow> fl
            | Some oldest \<Rightarrow> AList.delete (fst oldest) fl)
         else fl)"

definition note_outbound ::
  "(flow_key \<Rightarrow> nat) \<Rightarrow> inbound_filter \<Rightarrow> bytes \<Rightarrow> instant \<Rightarrow> inbound_filter rust" where
  "note_outbound rank f packet now = do {
     r \<leftarrow> filter_parse packet;
     case r of
       None \<Rightarrow> Some f
     | Some p \<Rightarrow>
         if p_proto p = PROTO_ICMPV6 then Some f
         else do {
           dst_addr \<leftarrow> get_range packet 24 40;
           let key = \<lparr>k_proto = p_proto p, k_local_port = p_src_port p,
                      k_remote_addr = dst_addr, k_remote_port = p_dst_port p\<rparr>;
           let fl = (if MAX_FLOWS \<le> length (flows f) \<and> \<not> contains_key (flows f) key
                     then make_room rank now (flows f) else flows f);
           Some (f\<lparr>flows := AList.update key now fl\<rparr>)
         }
   }"

definition allow_inbound :: "inbound_filter \<Rightarrow> bytes \<Rightarrow> instant \<Rightarrow> (inbound_filter \<times> bool) rust" where
  "allow_inbound f packet now = do {
     r \<leftarrow> filter_parse packet;
     case r of
       None \<Rightarrow> Some (f, False)
     | Some p \<Rightarrow>
         if p_proto p = PROTO_ICMPV6 then Some (f, True)
         else if port_allowed f (p_dst_port p) then Some (f, True)
         else
           (let key = \<lparr>k_proto = p_proto p, k_local_port = p_dst_port p,
                       k_remote_addr = p_src_addr p, k_remote_port = p_src_port p\<rparr>
            in case map_of (flows f) key of
                 None \<Rightarrow> Some (f, False)
               | Some seen \<Rightarrow>
                   if now - seen < idle_limit (p_proto p)
                   then Some (f\<lparr>flows := AList.update key now (flows f)\<rparr>, True)
                   else Some (f\<lparr>flows := AList.delete key (flows f)\<rparr>, False))
   }"

text \<open>For the drop log: protocol, destination port and source of a denied packet.\<close>
definition describe :: "bytes \<Rightarrow> (u8 \<times> u16 \<times> bytes) rust" where
  "describe packet = do {
     r \<leftarrow> filter_parse packet;
     case r of
       Some p \<Rightarrow> Some (p_proto p, p_dst_port p, p_src_addr p)
     | None \<Rightarrow> Some (case idx packet 6 of Some b \<Rightarrow> b | None \<Rightarrow> 0, 0, replicate 16 0)
   }"

section \<open>The parser's reference\<close>

text \<open>The packets the firewall can attribute to a protocol, and the attribution.\<close>
definition plain_l4 :: "bytes \<Rightarrow> bool" where
  "plain_l4 p \<longleftrightarrow> 40 \<le> length p \<and> drop_bit 4 (p ! 0) = 6 \<and>
     (p ! 6 = PROTO_ICMPV6 \<or> (p ! 6 = PROTO_TCP \<or> p ! 6 = PROTO_UDP) \<and> 44 \<le> length p)"

definition is_icmp :: "bytes \<Rightarrow> bool" where
  "is_icmp p \<longleftrightarrow> p ! 6 = PROTO_ICMPV6"

text \<open>The flow of a packet seen from our side, going out or coming in.\<close>
definition out_key :: "bytes \<Rightarrow> flow_key" where
  "out_key p = \<lparr>k_proto = p ! 6, k_local_port = be16 (p ! 40) (p ! 41),
                k_remote_addr = take 16 (drop 24 p), k_remote_port = be16 (p ! 42) (p ! 43)\<rparr>"

definition in_key :: "bytes \<Rightarrow> flow_key" where
  "in_key p = \<lparr>k_proto = p ! 6, k_local_port = be16 (p ! 42) (p ! 43),
               k_remote_addr = take 16 (drop 8 p), k_remote_port = be16 (p ! 40) (p ! 41)\<rparr>"

definition dst_port_of :: "bytes \<Rightarrow> u16" where
  "dst_port_of p = be16 (p ! 42) (p ! 43)"

lemma filter_parse_eq:
  "filter_parse p =
     Some (if plain_l4 p then
             Some (if is_icmp p
                   then \<lparr>p_proto = p ! 6, p_src_addr = take 16 (drop 8 p), p_src_port = 0, p_dst_port = 0\<rparr>
                   else \<lparr>p_proto = p ! 6, p_src_addr = take 16 (drop 8 p),
                         p_src_port = be16 (p ! 40) (p ! 41), p_dst_port = be16 (p ! 42) (p ! 43)\<rparr>)
           else None)"
  by (auto simp: filter_parse_def plain_l4_def is_icmp_def get_range_def filter_consts)

text \<open>The operations without the panics that cannot happen.\<close>
definition noted :: "(flow_key \<Rightarrow> nat) \<Rightarrow> flow_table \<Rightarrow> flow_key \<Rightarrow> instant \<Rightarrow> flow_table" where
  "noted rank fl key now =
     AList.update key now
       (if MAX_FLOWS \<le> length fl \<and> key \<notin> fst ` set fl then make_room rank now fl else fl)"

lemma note_outbound_eq:
  "note_outbound rank f p now =
     Some (if plain_l4 p \<and> \<not> is_icmp p
           then f\<lparr>flows := noted rank (flows f) (out_key p) now\<rparr> else f)"
  by (auto simp: note_outbound_def filter_parse_eq is_icmp_def plain_l4_def get_range_def
      out_key_def noted_def Let_def)

lemma allow_inbound_eq:
  "allow_inbound f p now =
     Some (if \<not> plain_l4 p then (f, False)
           else if is_icmp p \<or> port_allowed f (dst_port_of p) then (f, True)
           else case map_of (flows f) (in_key p) of
                  None \<Rightarrow> (f, False)
                | Some seen \<Rightarrow>
                    if now - seen < idle_limit (p ! 6)
                    then (f\<lparr>flows := AList.update (in_key p) now (flows f)\<rparr>, True)
                    else (f\<lparr>flows := AList.delete (in_key p) (flows f)\<rparr>, False))"
  by (auto simp: allow_inbound_def filter_parse_eq is_icmp_def in_key_def dst_port_of_def Let_def
      split: option.splits)

section \<open>The allowlist\<close>

lemma bsearch_correct:
  "sorted xs \<Longrightarrow> hi \<le> length xs \<Longrightarrow> bsearch xs x lo hi \<longleftrightarrow> (\<exists>i. lo \<le> i \<and> i < hi \<and> xs ! i = x)"
proof (induction xs x lo hi rule: bsearch.induct)
  case (1 xs x lo hi)
  let ?mid = "(lo + hi) div 2"
  show ?case
  proof (cases "lo < hi")
    case False
    then show ?thesis by (subst bsearch.simps) simp
  next
    case True
    then have mid: "lo \<le> ?mid" "?mid < hi" by simp_all
    consider "xs ! ?mid = x" | "xs ! ?mid < x" | "x < xs ! ?mid" by (rule linorder_cases) auto
    then show ?thesis
    proof cases
      case 1
      then have "bsearch xs x lo hi" using True by (subst bsearch.simps) simp
      then show ?thesis using mid 1 by auto
    next
      case 2
      have up: "Suc ?mid \<le> i" if "i < hi" "xs ! i = x" for i
      proof (rule ccontr)
        assume "\<not> Suc ?mid \<le> i"
        then have "xs ! i \<le> xs ! ?mid"
          using "1.prems" mid by (intro sorted_nth_mono) auto
        with 2 that show False by simp
      qed
      have "bsearch xs x lo hi = bsearch xs x (Suc ?mid) hi"
        using True 2 by (subst bsearch.simps) (auto simp: Let_def)
      also have "\<dots> \<longleftrightarrow> (\<exists>i. Suc ?mid \<le> i \<and> i < hi \<and> xs ! i = x)"
        using 2 "1.prems" by (intro "1.IH"(1) [OF True refl]) auto
      also have "\<dots> \<longleftrightarrow> (\<exists>i. lo \<le> i \<and> i < hi \<and> xs ! i = x)"
        using up mid(1) by (metis Suc_leD le_trans)
      finally show ?thesis .
    next
      case 3
      have down: "i < ?mid" if "i < hi" "xs ! i = x" for i
      proof (rule ccontr)
        assume "\<not> i < ?mid"
        then have "xs ! ?mid \<le> xs ! i"
          using "1.prems" that by (intro sorted_nth_mono) auto
        with 3 that show False by simp
      qed
      have "bsearch xs x lo hi = bsearch xs x lo ?mid"
        using True 3 by (subst bsearch.simps) (auto simp: Let_def)
      also have "\<dots> \<longleftrightarrow> (\<exists>i. lo \<le> i \<and> i < ?mid \<and> xs ! i = x)"
        using 3 mid "1.prems" by (intro "1.IH"(2) [OF True refl]) auto
      also have "\<dots> \<longleftrightarrow> (\<exists>i. lo \<le> i \<and> i < hi \<and> xs ! i = x)"
        using down mid(2) by (metis less_trans)
      finally show ?thesis .
    qed
  qed
qed

lemma bsearch_member: "sorted xs \<Longrightarrow> bsearch xs x 0 (length xs) \<longleftrightarrow> x \<in> set xs"
  by (auto simp: bsearch_correct in_set_conv_nth)

section \<open>The flow table\<close>

lemma stalest_Some:
  "es \<noteq> [] \<Longrightarrow> \<exists>m. stalest es = Some m \<and> m \<in> set es \<and> (\<forall>e\<in>set es. snd m \<le> snd e)"
proof (induction es)
  case (Cons e es)
  show ?case
  proof (cases "es = []")
    case False
    with Cons.IH obtain m where m: "stalest es = Some m" "m \<in> set es" "\<forall>e\<in>set es. snd m \<le> snd e"
      by auto
    show ?thesis
    proof (cases "snd e \<le> snd m")
      case True
      then have "\<forall>e'\<in>set (e # es). snd e \<le> snd e'" using m(3) order_trans by auto
      then show ?thesis using True m(1) by simp
    next
      case False
      then show ?thesis using m by simp
    qed
  qed simp
qed simp

lemma set_iteration [simp]: "set (iteration rank m) = set m"
  by (simp add: iteration_def)

lemma stalest_iteration:
  assumes "fl \<noteq> []"
  obtains m where "stalest (iteration rank fl) = Some m" "m \<in> set fl" "\<forall>e\<in>set fl. snd m \<le> snd e"
proof -
  have "iteration rank fl \<noteq> []" using assms by (metis set_empty set_iteration)
  from stalest_Some [OF this] show ?thesis using that by auto
qed

lemma set_make_room: "set (make_room rank now fl) \<subseteq> set fl"
  by (auto simp: make_room_def Let_def AList.delete_eq split: option.splits)

lemma distinct_make_room:
  "distinct (map fst fl) \<Longrightarrow> distinct (map fst (make_room rank now fl))"
  by (auto simp: make_room_def Let_def AList.delete_eq distinct_keys_filter split: option.splits)

lemma length_make_room:
  assumes "length fl \<le> MAX_FLOWS"
  shows "length (make_room rank now fl) < MAX_FLOWS"
proof -
  let ?fl = "filter (live now) fl"
  have le: "length ?fl \<le> MAX_FLOWS" using assms length_filter_le order_trans by blast
  show ?thesis
  proof (cases "MAX_FLOWS \<le> length ?fl")
    case True
    then have "?fl \<noteq> []" by (auto simp: MAX_FLOWS_def)
    then obtain m where m: "stalest (iteration rank ?fl) = Some m" "m \<in> set ?fl"
      by (rule stalest_iteration [where rank = rank])
    then have "length (AList.delete (fst m) ?fl) < length ?fl"
      by (intro length_delete_less) auto
    then show ?thesis using True m le by (simp add: make_room_def Let_def)
  qed (simp add: make_room_def Let_def)
qed

lemma set_update_subset: "set (AList.update k v m) \<subseteq> insert (k, v) (set m)"
  by (induction m) auto

lemma noted_entry: "map_of (noted rank fl k now) k = Some now"
  by (simp add: noted_def AList.update_conv)

lemma set_noted: "set (noted rank fl k now) \<subseteq> insert (k, now) (set fl)"
  using set_make_room [of rank now fl] set_update_subset [of k now]
  by (auto simp: noted_def split: if_splits)

section \<open>Histories\<close>

text \<open>
  The pump's reader notes outbound packets, its bridge asks for verdicts; both share
  the filter, in any interleaving. \<open>rank\<close> is the iteration order at that moment.
\<close>
datatype fw_event =
    Outbound bytes instant "flow_key \<Rightarrow> nat"
  | Inbound bytes instant

datatype fw_output = Noted | Verdict bool | Panicked

fun fw_step :: "inbound_filter \<Rightarrow> fw_event \<Rightarrow> inbound_filter \<times> fw_output" where
  "fw_step f (Outbound p t rank) =
     (case note_outbound rank f p t of None \<Rightarrow> (f, Panicked) | Some f' \<Rightarrow> (f', Noted))"
| "fw_step f (Inbound p t) =
     (case allow_inbound f p t of None \<Rightarrow> (f, Panicked) | Some (f', v) \<Rightarrow> (f', Verdict v))"

text \<open>What every operation keeps: a sorted allowlist and a bounded table without duplicates.\<close>
definition filter_ok :: "inbound_filter \<Rightarrow> bool" where
  "filter_ok f \<longleftrightarrow> sorted (allowed_ports f) \<and> distinct (map fst (flows f)) \<and>
     length (flows f) \<le> MAX_FLOWS"

lemma filter_ok_new: "filter_ok (filter_new ports)"
  by (simp add: filter_ok_def filter_new_def sorted_remdups_adj)

lemma filter_ok_note: "filter_ok f \<Longrightarrow> filter_ok (f\<lparr>flows := noted rank (flows f) k t\<rparr>)"
  using length_make_room [of "flows f" rank t]
  by (auto simp: filter_ok_def noted_def length_update AList.distinct_update distinct_make_room)

lemma filter_ok_allow: "filter_ok f \<Longrightarrow> allow_inbound f p t = Some (f', v) \<Longrightarrow> filter_ok f'"
  using length_delete_le [of "in_key p" "flows f"]
  by (auto simp: allow_inbound_eq filter_ok_def AList.distinct_update AList.distinct_delete
      length_update weak_map_of_SomeI rev_image_eqI dest!: map_of_SomeD
      split: if_splits option.splits)

interpretation fw: machine "filter_new ports" fw_step filter_ok for ports
proof unfold_locales
  show "filter_ok (filter_new ports)" by (rule filter_ok_new)
next
  fix f e assume "filter_ok f"
  then show "filter_ok (fst (fw_step f e))"
    by (cases e) (auto simp: note_outbound_eq filter_ok_note filter_ok_allow
        split: option.splits)
qed

lemma allowed_ports_step: "allowed_ports (fst (fw_step f e)) = allowed_ports f"
  by (cases e) (auto simp: note_outbound_eq allow_inbound_eq split: option.splits)

lemma allowed_ports_run: "allowed_ports (fst (run fw_step f es)) = allowed_ports f"
  by (induction es arbitrary: f) (auto simp: allowed_ports_step)

lemma port_allowed_run:
  "port_allowed (fst (run fw_step (filter_new ports) es)) port \<longleftrightarrow> port \<in> set ports"
  using filter_ok_new [of ports]
  by (simp add: port_allowed_def allowed_ports_run filter_ok_def bsearch_member)
    (simp add: filter_new_def)

text \<open>
  A history: each operation with its outcome. \<open>sends\<close>: we sent a packet of the flow \<open>k\<close>;
  \<open>touches\<close>: a packet of the flow was sent, or let in, at the time \<open>u\<close>.
\<close>
definition history :: "u16 list \<Rightarrow> fw_event list \<Rightarrow> (fw_event \<times> fw_output) list" where
  "history ports es = zip es (snd (run fw_step (filter_new ports) es))"

fun sends :: "fw_event \<times> fw_output \<Rightarrow> flow_key \<Rightarrow> bool" where
  "sends (Outbound p t rank, _) k \<longleftrightarrow> plain_l4 p \<and> \<not> is_icmp p \<and> out_key p = k"
| "sends (Inbound p t, _) k \<longleftrightarrow> False"

fun touches :: "fw_event \<times> fw_output \<Rightarrow> flow_key \<Rightarrow> instant \<Rightarrow> bool" where
  "touches (Outbound p t rank, _) k u \<longleftrightarrow> plain_l4 p \<and> \<not> is_icmp p \<and> out_key p = k \<and> t = u"
| "touches (Inbound p t, v) k u \<longleftrightarrow>
     v = Verdict True \<and> plain_l4 p \<and> \<not> is_icmp p \<and> in_key p = k \<and> t = u"

text \<open>Every entry of the table has its reasons in the history.\<close>
definition justified :: "(fw_event \<times> fw_output) list \<Rightarrow> flow_table \<Rightarrow> bool" where
  "justified h fl \<longleftrightarrow>
     (\<forall>(k, u) \<in> set fl. (\<exists>e\<in>set h. sends e k) \<and> (\<exists>e\<in>set h. touches e k u))"

lemma justified_step:
  assumes "justified h (flows f)"
  shows "justified (h @ [(e, snd (fw_step f e))]) (flows (fst (fw_step f e)))"
proof (cases e)
  case (Outbound p t rank)
  show ?thesis
    using assms set_noted [of rank "flows f" "out_key p" t] Outbound
    by (fastforce simp: justified_def note_outbound_eq)
next
  case (Inbound p t)
  show ?thesis
    using assms set_update_subset [of "in_key p" t "flows f"] Inbound
    by (fastforce simp: justified_def allow_inbound_eq AList.delete_eq dest: map_of_SomeD
        split: option.splits)
qed

lemma history_snoc:
  "history ports (es @ [e]) =
     history ports es @ [(e, snd (fw_step (fst (run fw_step (filter_new ports) es)) e))]"
  by (simp add: history_def run_append)

lemma history_take: "history ports (take i es) = take i (history ports es)"
  by (simp add: history_def run_take take_zip)

lemma justified_run:
  "justified (history ports es) (flows (fst (run fw_step (filter_new ports) es)))"
proof (induction es rule: rev_induct)
  case Nil
  then show ?case by (simp add: justified_def filter_new_def)
next
  case (snoc e es)
  then show ?case by (simp add: history_snoc run_append justified_step)
qed

lemma map_of_Some_justified:
  "justified h fl \<Longrightarrow> map_of fl k = Some u \<Longrightarrow>
   (\<exists>e\<in>set h. sends e k) \<and> (\<exists>e\<in>set h. touches e k u)"
  by (auto simp: justified_def dest: map_of_SomeD)

section \<open>Properties\<close>

text \<open>
  C2. Default deny. In any history of a fresh filter, an inbound packet is let in only
  if it is ICMPv6, or its destination port is on the allowlist, or it belongs to a flow
  this device opened: an earlier outbound packet had exactly the reversed addresses and
  ports with the same protocol, and the last packet of that flow sent or let in lies
  less than the protocol's idle limit back. Anything the parser cannot attribute is
  refused.
\<close>
theorem inbound_only_if_solicited:
  assumes "i < length es" and "es ! i = Inbound p t"
    and "snd (run fw_step (filter_new ports) es) ! i = Verdict True"
  shows "plain_l4 p \<and>
         (is_icmp p \<or> dst_port_of p \<in> set ports \<or>
          (\<exists>e\<in>set (take i (history ports es)). sends e (in_key p)) \<and>
          (\<exists>e\<in>set (take i (history ports es)). \<exists>u. touches e (in_key p) u \<and> t - u < idle_limit (p ! 6)))"
proof -
  let ?f = "fst (run fw_step (filter_new ports) (take i es))"
  have v: "snd (fw_step ?f (Inbound p t)) = Verdict True"
    using assms by (simp add: run_nth)
  have j: "justified (take i (history ports es)) (flows ?f)"
    using justified_run [of ports "take i es"] by (simp add: history_take)
  show ?thesis
    using v map_of_Some_justified [OF j, of "in_key p"]
    by (auto simp: allow_inbound_eq port_allowed_run split: if_splits option.splits)
qed

text \<open>The packets of the unit tests: a fixed header and four bytes of ports.\<close>
definition pkt :: "u8 \<Rightarrow> bytes \<Rightarrow> u16 \<Rightarrow> bytes \<Rightarrow> u16 \<Rightarrow> bytes" where
  "pkt proto src sport dst dport =
     [0x60, 0, 0, 0, 0, 0, proto, 0] @ src @ dst @ to_be16 sport @ to_be16 dport"

definition addr :: "u8 \<Rightarrow> bytes" where
  "addr n = 0xfd # replicate 14 0 @ [n]"

lemma pkt_fields [simp]:
  assumes "length s = 16" and "length d = 16"
  shows "length (pkt proto s sp d dp) = 44" and "pkt proto s sp d dp ! 0 = 0x60"
    and "pkt proto s sp d dp ! 6 = proto"
    and "take 16 (drop 8 (pkt proto s sp d dp)) = s" and "take 16 (drop 24 (pkt proto s sp d dp)) = d"
    and "be16 (pkt proto s sp d dp ! 40) (pkt proto s sp d dp ! 41) = sp"
    and "be16 (pkt proto s sp d dp ! 42) (pkt proto s sp d dp ! 43) = dp"
  using assms by (simp_all add: pkt_def to_be16_def nth_append)

lemma length_addr [simp]: "length (addr a) = 16"
  by (simp add: addr_def)

lemma pkt_flow:
  "length s = 16 \<Longrightarrow> length d = 16 \<Longrightarrow> proto = 6 \<or> proto = 17 \<Longrightarrow>
   plain_l4 (pkt proto s sp d dp) \<and> \<not> is_icmp (pkt proto s sp d dp)"
  by (auto simp: plain_l4_def is_icmp_def filter_consts)

lemma pkt_reply:
  "length s = 16 \<Longrightarrow> length d = 16 \<Longrightarrow> in_key (pkt proto d dp s sp) = out_key (pkt proto s sp d dp)"
  by (simp add: in_key_def out_key_def)

text \<open>
  C34. The flow table stays usable and bounded: after any history of outbound and inbound
  packets, in any order and with any clock readings, it holds at most \<open>MAX_FLOWS\<close>
  entries with distinct keys, the allowlist is still the sorted list the filter was
  built with (so its binary search decides membership), and no operation panicked.
\<close>
theorem filter_bounded_and_total:
  fixes ports es
  defines "f \<equiv> fst (run fw_step (filter_new ports) es)"
  shows "length (flows f) \<le> MAX_FLOWS \<and> distinct (map fst (flows f)) \<and>
         (\<forall>port. port_allowed f port = (port \<in> set ports)) \<and>
         Panicked \<notin> set (snd (run fw_step (filter_new ports) es))"
proof -
  have "filter_ok f" unfolding f_def by (rule fw.ok_run)
  moreover have "snd (fw_step g e) \<noteq> Panicked" for g e
    by (cases e) (auto simp: note_outbound_eq allow_inbound_eq split: option.splits)
  then have "Panicked \<notin> set (snd (run fw_step g es))" for g
    by (induction es arbitrary: g) (auto dest: sym)
  ultimately show ?thesis by (simp add: filter_ok_def f_def port_allowed_run)
qed

lemma entry_survives_inbound:
  assumes "map_of (flows f) k = Some seen" and "t0 \<le> seen"
    and "t0 \<le> t" and "t < t0 + idle_limit (k_proto k)"
  shows "\<exists>seen'. map_of (flows (fst (fw_step f (Inbound p t)))) k = Some seen' \<and> t0 \<le> seen'"
proof (cases "in_key p = k")
  case True
  then have "k_proto k = p ! 6" by (auto simp: in_key_def)
  then have "t - seen < idle_limit (p ! 6)" using assms(2-4) by auto
  with True assms show ?thesis by (auto simp: allow_inbound_eq AList.update_conv)
next
  case False
  with assms show ?thesis
    by (auto simp: allow_inbound_eq AList.update_conv split: option.splits)
qed

lemma entry_survives_inbounds:
  assumes "map_of (flows f) k = Some seen" and "t0 \<le> seen"
    and "\<forall>e\<in>set es. \<exists>p t. e = Inbound p t \<and> t0 \<le> t \<and> t < t0 + idle_limit (k_proto k)"
  shows "\<exists>seen'. map_of (flows (fst (run fw_step f es))) k = Some seen' \<and> t0 \<le> seen'"
  using assms
proof (induction es arbitrary: f seen)
  case (Cons e es)
  then obtain p t where e: "e = Inbound p t" "t0 \<le> t" "t < t0 + idle_limit (k_proto k)" by auto
  obtain seen' where "map_of (flows (fst (fw_step f e))) k = Some seen'" "t0 \<le> seen'"
    using entry_survives_inbound [OF Cons.prems(1,2) e(2,3)] e(1) by blast
  then show ?case using Cons.IH Cons.prems(3) by simp
qed auto

text \<open>
  C3. Replies get in, and strangers cannot prevent it: once this device has sent a
  packet of a flow, a packet with the reversed tuple is let in at any time within the
  idle limit of that send, whatever other inbound packets (any number, from anyone,
  on any flow) arrived in between.
\<close>
theorem replies_pass_despite_inbound_traffic:
  assumes "plain_l4 q" and "\<not> is_icmp q" and "note_outbound rank f q t0 = Some f1"
    and "\<forall>e\<in>set es. \<exists>x u. e = Inbound x u \<and> t0 \<le> u \<and> u < t0 + idle_limit (q ! 6)"
    and "plain_l4 p" and "in_key p = out_key q" and "t0 \<le> t" and "t < t0 + idle_limit (q ! 6)"
  shows "\<exists>f2. allow_inbound (fst (run fw_step f1 es)) p t = Some (f2, True)"
proof -
  have pq: "p ! 6 = q ! 6" using assms(6) by (simp add: in_key_def out_key_def)
  have "map_of (flows f1) (out_key q) = Some t0"
    using assms(1-3) by (auto simp: note_outbound_eq noted_entry)
  then obtain seen where "map_of (flows (fst (run fw_step f1 es))) (in_key p) = Some seen" "t0 \<le> seen"
    using entry_survives_inbounds [of f1 "out_key q" t0 t0 es] assms(4,6) by (auto simp: out_key_def)
  moreover have "t - seen < idle_limit (p ! 6)"
    using assms(7,8) \<open>t0 \<le> seen\<close> pq by auto
  ultimately show ?thesis using assms(5) by (auto simp: allow_inbound_eq)
qed

lemma update_keeps: "e \<in> set m \<Longrightarrow> fst e \<noteq> k \<Longrightarrow> e \<in> set (AList.update k v m)"
  by (induction m) auto

lemma make_room_lost:
  assumes "distinct (map fst fl)" and "length fl \<le> MAX_FLOWS"
    and "(k, seen) \<in> set fl" and "(k, seen) \<notin> set (make_room rank now fl)" and "live now (k, seen)"
  shows "length (filter (live now) fl) = MAX_FLOWS \<and> (\<forall>e\<in>set fl. live now e \<longrightarrow> seen \<le> snd e) \<and>
         make_room rank now fl = AList.delete k (filter (live now) fl)"
proof -
  let ?fl = "filter (live now) fl"
  have "MAX_FLOWS \<le> length ?fl" using assms(3-5) by (auto simp: make_room_def Let_def split: if_splits)
  moreover have "length ?fl \<le> MAX_FLOWS" using assms(2) length_filter_le order_trans by blast
  moreover have ne: "?fl \<noteq> []" using assms(3,5) by (auto simp: filter_empty_conv)
  obtain m where m: "stalest (iteration rank ?fl) = Some m" "m \<in> set ?fl" "\<forall>e\<in>set ?fl. snd m \<le> snd e"
    using ne by (rule stalest_iteration)
  moreover have room: "make_room rank now fl = AList.delete (fst m) ?fl"
    using calculation by (simp add: make_room_def Let_def)
  then have "fst m = k" using assms(3-5) by (auto simp: AList.delete_eq)
  moreover from this have "m = (k, seen)"
    using m(2) assms(1,3) by (cases m) (auto dest: eq_key_imp_eq_value)
  ultimately show ?thesis using room by auto
qed

text \<open>
  Noting a packet costs at most one live flow, and then the stalest: an entry of
  another flow is gone afterwards only if it had expired, or if more live entries than
  the table can hold would remain and it was the one with the oldest time among them.
\<close>
theorem eviction_is_stalest:
  assumes "filter_ok f" and "note_outbound rank f p now = Some f'"
    and "(k, seen) \<in> set (flows f)" and "k \<noteq> out_key p" and "(k, seen) \<notin> set (flows f')"
  shows "\<not> live now (k, seen) \<or>
         length (filter (live now) (flows f)) = MAX_FLOWS \<and>
         (\<forall>e\<in>set (flows f). live now e \<longrightarrow> seen \<le> snd e) \<and>
         (\<forall>e\<in>set (flows f). live now e \<and> fst e \<noteq> k \<longrightarrow> fst e \<in> fst ` set (flows f'))"
proof (cases "live now (k, seen)")
  case True
  let ?room = "make_room rank now (flows f)"
  have f': "flows f' = AList.update (out_key p) now ?room"
    and lost: "(k, seen) \<notin> set ?room"
    using assms(2-5) update_keeps [of "(k, seen)" _ "out_key p" now]
    by (auto simp: note_outbound_eq noted_def split: if_splits)
  have r: "length (filter (live now) (flows f)) = MAX_FLOWS"
    "\<forall>e\<in>set (flows f). live now e \<longrightarrow> seen \<le> snd e"
    "?room = AList.delete k (filter (live now) (flows f))"
    using make_room_lost [OF _ _ assms(3) lost True] assms(1) by (simp_all add: filter_ok_def)
  have "e \<in> set ?room" if "e \<in> set (flows f)" "live now e" "fst e \<noteq> k" for e
    using that r(3) by (auto simp: AList.delete_eq)
  then have "fst e \<in> fst ` set (flows f')" if "e \<in> set (flows f)" "live now e" "fst e \<noteq> k" for e
    using that f' by (auto simp: AList.dom_update)
  with r show ?thesis by blast
qed simp

section \<open>Witnesses\<close>

lemma keys_neq: "out_key (pkt 6 s sp d dp) = k \<Longrightarrow> k_proto k = 6"
  by (auto simp: out_key_def pkt_def)

text \<open>A reply to an outbound TCP packet is let in, with the reason the theorem names.\<close>
theorem inbound_only_if_solicited_witness:
  "snd (run fw_step (filter_new [])
     [Outbound (pkt 6 (addr 1) 40000 (addr 2) 80) 5 (\<lambda>_. 0),
      Inbound (pkt 6 (addr 2) 80 (addr 1) 40000) 9]) ! 1 = Verdict True \<and>
   plain_l4 (pkt 6 (addr 2) 80 (addr 1) 40000) \<and>
   \<not> is_icmp (pkt 6 (addr 2) 80 (addr 1) 40000)"
proof -
  let ?es = "[Outbound (pkt 6 (addr 1) 40000 (addr 2) 80) 5 (\<lambda>_. 0),
      Inbound (pkt 6 (addr 2) 80 (addr 1) 40000) 9]"
  have v: "snd (run fw_step (filter_new []) ?es) ! 1 = Verdict True"
    by (simp add: note_outbound_eq allow_inbound_eq pkt_flow pkt_reply [where s = "addr 1"]
        noted_entry filter_consts idle_limit_def port_allowed_def filter_new_def bsearch.simps)
  show ?thesis
    using inbound_only_if_solicited [OF _ _ v] v pkt_flow by (simp add: pkt_flow)
qed

theorem replies_pass_despite_inbound_traffic_witness:
  "\<exists>f1 f2. note_outbound (\<lambda>_. 0) (filter_new []) (pkt 17 (addr 1) 40000 (addr 2) 53) 7 = Some f1 \<and>
     allow_inbound (fst (run fw_step f1 [Inbound (pkt 17 (addr 3) 53 (addr 1) 40000) 8]))
       (pkt 17 (addr 2) 53 (addr 1) 40000) 9 = Some (f2, True)"
proof -
  obtain f1 where f1: "note_outbound (\<lambda>_. 0) (filter_new []) (pkt 17 (addr 1) 40000 (addr 2) 53) 7 = Some f1"
    by (simp add: note_outbound_eq)
  have "\<exists>f2. allow_inbound (fst (run fw_step f1 [Inbound (pkt 17 (addr 3) 53 (addr 1) 40000) 8]))
       (pkt 17 (addr 2) 53 (addr 1) 40000) 9 = Some (f2, True)"
    by (rule replies_pass_despite_inbound_traffic [OF _ _ f1])
      (simp_all add: pkt_flow pkt_reply [where s = "addr 1"] filter_consts idle_limit_def)
  with f1 show ?thesis by blast
qed

text \<open>A table full of live flows: noting one more evicts an entry.\<close>
definition full_table :: flow_table where
  "full_table =
     map (\<lambda>i. (\<lparr>k_proto = 17, k_local_port = word_of_nat i, k_remote_addr = addr 2, k_remote_port = 53\<rparr>, 0))
       [0..<MAX_FLOWS]"

lemma distinct_full_table: "distinct (map fst full_table)"
proof -
  have "inj_on (word_of_nat :: nat \<Rightarrow> u16) {0..<MAX_FLOWS}"
    by (rule inj_onI) (simp add: MAX_FLOWS_def word_of_nat_eq_iff take_bit_nat_eq_self_iff
        take_bit_nat_def)
  then show ?thesis
    by (auto simp: full_table_def distinct_map comp_def inj_on_def)
qed

theorem eviction_is_stalest_witness:
  "\<exists>f' k. note_outbound (\<lambda>_. 0) \<lparr>allowed_ports = [], flows = full_table\<rparr>
           (pkt 17 (addr 1) 50000 (addr 3) 53) 1 = Some f' \<and>
     (k, 0) \<in> set full_table \<and> (k, 0) \<notin> set (flows f') \<and> live 1 (k, 0) \<and>
     (\<forall>e\<in>set full_table. live 1 e \<and> fst e \<noteq> k \<longrightarrow> fst e \<in> fst ` set (flows f'))"
proof -
  let ?f = "\<lparr>allowed_ports = [], flows = full_table\<rparr>" and ?p = "pkt 17 (addr 1) 50000 (addr 3) 53"
  have ok: "filter_ok ?f"
    using distinct_full_table by (simp add: filter_ok_def full_table_def)
  obtain f' where f': "note_outbound (\<lambda>_. 0) ?f ?p 1 = Some f'" by (simp add: note_outbound_eq)
  have new: "out_key ?p \<notin> fst ` set full_table"
    by (auto simp: full_table_def out_key_def addr_def)
  have entries: "snd e = 0 \<and> live 1 e" if "e \<in> set full_table" for e
    using that by (auto simp: full_table_def live_def idle_limit_def filter_consts)
  have "filter_ok f'"
    using filter_ok_note [OF ok] f' ok by (auto simp: note_outbound_eq split: if_splits)
  then have "length (flows f') \<le> MAX_FLOWS" by (simp add: filter_ok_def)
  moreover have "out_key ?p \<in> fst ` set (flows f')"
    using f' by (auto simp: note_outbound_eq pkt_flow noted_def AList.dom_update)
  moreover have "card (set (map fst full_table)) = MAX_FLOWS"
    by (subst distinct_card [OF distinct_full_table]) (simp add: full_table_def)
  moreover have "card (set (map fst (flows f'))) \<le> length (flows f')"
    using card_length [of "map fst (flows f')"] by simp
  ultimately have "\<not> fst ` set full_table \<subseteq> fst ` set (flows f')"
    using new card_mono [of "fst ` set (flows f')" "insert (out_key ?p) (fst ` set full_table)"]
    by auto
  then obtain e where e: "e \<in> set full_table" "fst e \<notin> fst ` set (flows f')" by auto
  obtain k where k: "e = (k, 0)" using entries [OF e(1)] by (cases e) auto
  have "(k, 0) \<notin> set (flows f')" "k \<noteq> out_key ?p" using e k new by force+
  with eviction_is_stalest [OF ok f', of k 0] e(1) k f' entries [OF e(1)] show ?thesis by auto
qed

end
