(* ===== verification/Divert.thy ===== *)
theory Divert
  imports Packet
begin

text \<open>
  \<open>shim/src/meshhttp.rs\<close>, the reply tap: \<open>tap_flow_key\<close>, \<open>is_icmp_unreachable\<close>,
  \<open>Divert::claim\<close>, \<open>Divert::open\<close> and \<open>FlowGuard\<close>. A channel is its queue of packets
  not yet received, found by a channel number; a \<open>Sender\<close> or \<open>Receiver\<close> is that
  number. The random port pick is an argument. The guard's drop takes the flow out
  under the lock and decrements the counter after releasing it, so it is two steps.
\<close>

section \<open>Flow keys\<close>

text \<open>Remote address, remote port, local port.\<close>
type_synonym tap_key = "bytes \<times> u16 \<times> u16"

definition LOCAL_PORTS_START :: u16 where "LOCAL_PORTS_START = 61000"
definition LOCAL_PORTS_END :: u16 where "LOCAL_PORTS_END = 65535"

definition port_at :: "bytes \<Rightarrow> u16 rust" where
  "port_at b = do { b0 \<leftarrow> idx b 0; b1 \<leftarrow> idx b 1; Some (be16 b0 b1) }"

definition tap_flow_key :: "bytes \<Rightarrow> tap_key option rust" where
  "tap_flow_key p =
     (if length p < 44 then Some None
      else do {
        b0 \<leftarrow> idx p 0;
        if drop_bit 4 b0 \<noteq> 6 then Some None
        else do {
          proto \<leftarrow> idx p 6;
          if proto = 6 \<or> proto = 17 then do {
            a \<leftarrow> get_range p 8 24;
            sp \<leftarrow> get_range p 40 42 \<bind> port_at;
            dp \<leftarrow> get_range p 42 44 \<bind> port_at;
            Some (Some (a, sp, dp))
          }
          else if proto = 58 then do {
            ty \<leftarrow> idx p 40;
            if ty = 129 \<and> 48 \<le> length p then do {
              a \<leftarrow> get_range p 8 24;
              ident \<leftarrow> get_range p 44 46 \<bind> port_at;
              Some (Some (a, 0, ident))
            }
            else if ty = 1 \<and> 48 + 44 \<le> length p then do {
              inner \<leftarrow> idx p (48 + 6);
              if inner = 6 \<or> inner = 17 then do {
                q \<leftarrow> get_from p 48;
                a \<leftarrow> get_range q 24 40;
                rp \<leftarrow> get_range q 42 44 \<bind> port_at;
                lp \<leftarrow> get_range q 40 42 \<bind> port_at;
                Some (Some (a, rp, lp))
              }
              else Some None
            }
            else Some None
          }
          else Some None
        }
      })"

definition is_icmp_unreachable :: "bytes \<Rightarrow> bool rust" where
  "is_icmp_unreachable p =
     (if 40 < length p then do {
        proto \<leftarrow> idx p 6;
        if proto = 58 then do { ty \<leftarrow> idx p 40; Some (ty = 1) } else Some False
      } else Some False)"

text \<open>The key, read off the bytes.\<close>
definition key_of :: "bytes \<Rightarrow> tap_key option" where
  "key_of p =
     (if length p < 44 \<or> drop_bit 4 (p ! 0) \<noteq> 6 then None
      else if p ! 6 = 6 \<or> p ! 6 = 17 then
        Some (take 16 (drop 8 p), be16 (p ! 40) (p ! 41), be16 (p ! 42) (p ! 43))
      else if p ! 6 = 58 \<and> p ! 40 = 129 \<and> 48 \<le> length p then
        Some (take 16 (drop 8 p), 0, be16 (p ! 44) (p ! 45))
      else if p ! 6 = 58 \<and> p ! 40 = 1 \<and> 92 \<le> length p \<and> (p ! 54 = 6 \<or> p ! 54 = 17) then
        Some (take 16 (drop 72 p), be16 (p ! 90) (p ! 91), be16 (p ! 88) (p ! 89))
      else None)"

lemma port_at_in: "2 \<le> length b \<Longrightarrow> port_at b = Some (be16 (b ! 0) (b ! 1))"
  by (simp add: port_at_def)

lemma tap_flow_key_eq: "tap_flow_key p = Some (key_of p)"
  by (auto simp: tap_flow_key_def key_of_def get_range_def get_from_def port_at_in add.commute)

lemma is_icmp_unreachable_eq:
  "is_icmp_unreachable p = Some (40 < length p \<and> p ! 6 = 58 \<and> p ! 40 = 1)"
  by (simp add: is_icmp_unreachable_def)

section \<open>The tap\<close>

record divert =
  active :: nat
  d_flows :: "(tap_key \<times> nat) list"
  queues :: "nat \<Rightarrow> bytes list"
  next_chan :: nat

record flow_guard =
  g_key :: tap_key
  g_rx :: nat

definition divert_default :: divert where
  "divert_default = \<lparr>active = 0, d_flows = [], queues = (\<lambda>_. []), next_chan = 0\<rparr>"

definition claim :: "divert \<Rightarrow> bytes \<Rightarrow> (divert \<times> bytes option) rust" where
  "claim d packet =
     (if active d = 0 then Some (d, Some packet)
      else do {
        k \<leftarrow> tap_flow_key packet;
        case k of
          None \<Rightarrow> Some (d, Some packet)
        | Some key \<Rightarrow>
            (case map_of (d_flows d) key of
               Some tx \<Rightarrow> Some (d\<lparr>queues := (queues d)(tx := queues d tx @ [packet])\<rparr>, None)
             | None \<Rightarrow> Some (d, Some packet))
      })"

definition span :: nat where
  "span = unat (LOCAL_PORTS_END - LOCAL_PORTS_START) + 1"

definition candidate :: "bytes \<Rightarrow> u16 \<Rightarrow> nat \<Rightarrow> nat \<Rightarrow> tap_key" where
  "candidate remote remote_port first i =
     (remote, remote_port, LOCAL_PORTS_START + word_of_nat ((first + i) mod span))"

text \<open>\<open>for i in 0..span\<close>: the first candidate that is not in the map.\<close>
fun free_from :: "(tap_key \<times> nat) list \<Rightarrow> bytes \<Rightarrow> u16 \<Rightarrow> nat \<Rightarrow> nat list \<Rightarrow> tap_key option" where
  "free_from fl remote remote_port first [] = None"
| "free_from fl remote remote_port first (i # is) =
     (let key = candidate remote remote_port first i
      in if contains_key fl key then free_from fl remote remote_port first is else Some key)"

definition open_flow :: "divert \<Rightarrow> bytes \<Rightarrow> u16 \<Rightarrow> u64 \<Rightarrow> divert \<times> flow_guard option" where
  "open_flow d remote remote_port random =
     (let first = unat random mod span
      in case free_from (d_flows d) remote remote_port first [0..<span] of
           None \<Rightarrow> (d, None)
         | Some key \<Rightarrow>
             (let ch = next_chan d
              in (d\<lparr>d_flows := AList.update key ch (d_flows d), active := active d + 1,
                    next_chan := Suc ch\<rparr>,
                  Some \<lparr>g_key = key, g_rx = ch\<rparr>)))"

text \<open>\<open>FlowGuard::take_rx\<close>: the receiver moves out, a fresh dead channel takes its place.\<close>
definition take_rx :: "divert \<Rightarrow> flow_guard \<Rightarrow> divert \<times> flow_guard \<times> nat" where
  "take_rx d g = (d\<lparr>next_chan := Suc (next_chan d)\<rparr>, g\<lparr>g_rx := next_chan d\<rparr>, g_rx g)"

definition drop_remove :: "divert \<Rightarrow> tap_key \<Rightarrow> divert" where
  "drop_remove d key = d\<lparr>d_flows := AList.delete key (d_flows d)\<rparr>"

definition drop_count :: "divert \<Rightarrow> divert" where
  "drop_count d = d\<lparr>active := active d - 1\<rparr>"

lemma claim_eq:
  "claim d p =
     (case key_of p of
        Some k \<Rightarrow>
          (case map_of (d_flows d) k of
             Some tx \<Rightarrow>
               if active d = 0 then Some (d, Some p)
               else Some (d\<lparr>queues := (queues d)(tx := queues d tx @ [p])\<rparr>, None)
           | None \<Rightarrow> Some (d, Some p))
      | None \<Rightarrow> Some (d, Some p))"
  by (auto simp: claim_def tap_flow_key_eq split: option.splits)

section \<open>The contract of a packet tap\<close>

text \<open>
  What the request code of \<open>meshhttp.rs\<close>, \<open>meshudp.rs\<close> and \<open>meshtcp.rs\<close> relies on when it
  opens a flow and waits on its queue, and what the pump's bridge relies on when it
  offers every packet to the tap first.
\<close>
locale packet_tap =
  fixes offer :: "'d \<Rightarrow> 'p \<Rightarrow> 'd \<times> 'p option"
    and key :: "'p \<Rightarrow> 'k option"
    and is_open :: "'d \<Rightarrow> 'k \<Rightarrow> bool"
    and inbox :: "'d \<Rightarrow> 'k \<Rightarrow> 'p list"
    and ok :: "'d \<Rightarrow> bool"
  assumes offer_ok: "ok d \<Longrightarrow> ok (fst (offer d p))"
    and offer_open: "ok d \<Longrightarrow> is_open (fst (offer d p)) k = is_open d k"
    and offer_taken: "ok d \<Longrightarrow> key p = Some k \<Longrightarrow> is_open d k \<Longrightarrow> snd (offer d p) = None"
    and offer_inbox: "ok d \<Longrightarrow> is_open d k \<Longrightarrow>
      inbox (fst (offer d p)) k = (if key p = Some k then inbox d k @ [p] else inbox d k)"
    and offer_passed: "ok d \<Longrightarrow> (\<And>k. key p = Some k \<Longrightarrow> \<not> is_open d k) \<Longrightarrow> snd (offer d p) = Some p"
begin

lemma run_open: "ok d \<Longrightarrow> is_open (fst (run offer d ps)) k = is_open d k"
  by (induction ps arbitrary: d) (auto simp: offer_ok offer_open)

lemma run_inbox:
  "ok d \<Longrightarrow> is_open d k \<Longrightarrow>
   inbox (fst (run offer d ps)) k = inbox d k @ filter (\<lambda>p. key p = Some k) ps"
  by (induction ps arbitrary: d) (auto simp: offer_ok offer_open offer_inbox)

lemma offer_result:
  "ok d \<Longrightarrow> snd (offer d p) = (if \<exists>k. key p = Some k \<and> is_open d k then None else Some p)"
  using offer_taken offer_passed by auto

lemma run_passed:
  "ok d \<Longrightarrow>
   snd (run offer d ps) = map (\<lambda>p. if \<exists>k. key p = Some k \<and> is_open d k then None else Some p) ps"
  by (induction ps arbitrary: d) (simp_all add: offer_ok offer_open offer_result)

end

section \<open>The tap in use\<close>

text \<open>
  The tap with its live guards, and the drops that have removed their flow but not yet
  decremented the counter.
\<close>
record tap_sys =
  tap :: divert
  guards :: "tap_key list"
  dropping :: nat

definition tap_init :: tap_sys where
  "tap_init = \<lparr>tap = divert_default, guards = [], dropping = 0\<rparr>"

datatype tap_event =
    Claim bytes
  | Open bytes u16 u64
  | TakeRx flow_guard
  | DropRemove tap_key
  | DropCount

datatype tap_output = Claimed "bytes option" | Opened "tap_key option" | Done | TapPanic

fun tap_step :: "tap_sys \<Rightarrow> tap_event \<Rightarrow> tap_sys \<times> tap_output" where
  "tap_step s (Claim p) =
     (case claim (tap s) p of
        None \<Rightarrow> (s, TapPanic)
      | Some (d, r) \<Rightarrow> (s\<lparr>tap := d\<rparr>, Claimed r))"
| "tap_step s (Open remote port random) =
     (case open_flow (tap s) remote port random of
        (d, None) \<Rightarrow> (s\<lparr>tap := d\<rparr>, Opened None)
      | (d, Some g) \<Rightarrow> (s\<lparr>tap := d, guards := g_key g # guards s\<rparr>, Opened (Some (g_key g))))"
| "tap_step s (TakeRx g) = (s\<lparr>tap := fst (take_rx (tap s) g)\<rparr>, Done)"
| "tap_step s (DropRemove k) =
     (if k \<in> set (guards s)
      then (s\<lparr>tap := drop_remove (tap s) k, guards := remove1 k (guards s),
              dropping := Suc (dropping s)\<rparr>, Done)
      else (s, Done))"
| "tap_step s DropCount =
     (if 0 < dropping s then (s\<lparr>tap := drop_count (tap s), dropping := dropping s - 1\<rparr>, Done)
      else (s, Done))"

definition local_port :: "tap_key \<Rightarrow> u16" where
  "local_port k = snd (snd k)"

definition divert_ok :: "divert \<Rightarrow> bool" where
  "divert_ok d \<longleftrightarrow>
     distinct (map fst (d_flows d)) \<and> inj_on snd (set (d_flows d)) \<and>
     (\<forall>e\<in>set (d_flows d). snd e < next_chan d \<and> 61000 \<le> unat (local_port (fst e))) \<and>
     (\<forall>ch\<ge>next_chan d. queues d ch = []) \<and>
     length (d_flows d) \<le> active d"

definition tap_ok :: "tap_sys \<Rightarrow> bool" where
  "tap_ok s \<longleftrightarrow>
     divert_ok (tap s) \<and> active (tap s) = length (d_flows (tap s)) + dropping s \<and>
     distinct (guards s) \<and> set (guards s) = fst ` set (d_flows (tap s))"

lemma span_value: "span = 4536"
  by (simp add: span_def LOCAL_PORTS_START_def LOCAL_PORTS_END_def)

lemma candidate_port:
  "unat (local_port (candidate remote port first i)) = 61000 + (first + i) mod 4536"
proof -
  have "(first + i) mod 4536 < 4536" by simp
  then show ?thesis
    by (simp add: candidate_def local_port_def span_value LOCAL_PORTS_START_def unat_word_ariths
        unat_of_nat)
qed

lemma free_from_Some:
  "free_from fl remote port first is = Some k \<Longrightarrow>
   k \<notin> fst ` set fl \<and> (\<exists>i\<in>set is. k = candidate remote port first i)"
  by (induction "is") (auto simp: Let_def split: if_splits)

lemma free_from_None:
  "free_from fl remote port first is = None \<longleftrightarrow>
   (\<forall>i\<in>set is. candidate remote port first i \<in> fst ` set fl)"
  by (induction "is") (auto simp: Let_def)

lemma open_flow_Some:
  assumes "open_flow d remote port random = (d', Some g)"
  shows "g_key g \<notin> fst ` set (d_flows d)" and "61000 \<le> unat (local_port (g_key g))"
    and "fst (g_key g) = remote" and "fst (snd (g_key g)) = port" and "g_rx g = next_chan d"
    and "d' = d\<lparr>d_flows := d_flows d @ [(g_key g, next_chan d)], active := active d + 1,
               next_chan := Suc (next_chan d)\<rparr>"
proof -
  have new: "AList.update k v m = m @ [(k, v)]" if "k \<notin> fst ` set m" for k v and m :: "(tap_key \<times> nat) list"
    using that by (induction m) auto
  obtain k where k: "free_from (d_flows d) remote port (unat random mod span) [0..<span] = Some k"
    "g = \<lparr>g_key = k, g_rx = next_chan d\<rparr>"
    "d' = d\<lparr>d_flows := AList.update k (next_chan d) (d_flows d), active := active d + 1,
            next_chan := Suc (next_chan d)\<rparr>"
    using assms by (auto simp: open_flow_def Let_def split: option.splits)
  with free_from_Some [OF k(1)] show "g_key g \<notin> fst ` set (d_flows d)"
    "61000 \<le> unat (local_port (g_key g))" "fst (g_key g) = remote" "fst (snd (g_key g)) = port"
    "g_rx g = next_chan d"
    "d' = d\<lparr>d_flows := d_flows d @ [(g_key g, next_chan d)], active := active d + 1,
               next_chan := Suc (next_chan d)\<rparr>"
    by (auto simp: candidate_port new) (auto simp: candidate_def)
qed

lemma open_flow_None: "open_flow d remote port random = (d', None) \<Longrightarrow> d' = d"
  by (auto simp: open_flow_def Let_def split: option.splits)

text \<open>A guard that is dropped leaves the flows and the count as they were before it opened.\<close>
lemma open_drop_restores:
  assumes "open_flow d remote port random = (d', Some g)"
  shows "d_flows (drop_count (drop_remove d' (g_key g))) = d_flows d"
    and "active (drop_count (drop_remove d' (g_key g))) = active d"
proof -
  note f = open_flow_Some [OF assms]
  have "AList.delete (g_key g) (d_flows d) = d_flows d" using f(1) by (simp add: delete_idem image_iff)
  then show "d_flows (drop_count (drop_remove d' (g_key g))) = d_flows d"
    and "active (drop_count (drop_remove d' (g_key g))) = active d"
    using f(6) by (simp_all add: AList.delete_eq drop_count_def drop_remove_def)
qed

text \<open>
  The contract of a flow's lifetime, which a request over TCP or UDP, an echo and a relay
  connection rely on: they open a flow, work with it, and drop its guard on every path out.
\<close>
locale flow_scope =
  fixes obtain_flow :: "'d \<Rightarrow> 'd \<times> 'g option"
    and release :: "'d \<Rightarrow> 'g \<Rightarrow> 'd"
    and held :: "'d \<Rightarrow> 'v"
  assumes obtain_refused: "obtain_flow d = (d', None) \<Longrightarrow> held d' = held d"
    and obtain_released: "obtain_flow d = (d', Some g) \<Longrightarrow> held (release d' g) = held d"
begin

lemma scope:
  obtains (refused) d1 where "obtain_flow d = (d1, None)" and "held d1 = held d"
  | (opened) d1 g where "obtain_flow d = (d1, Some g)" and "held (release d1 g) = held d"
  using obtain_refused [of d] obtain_released [of d] by (metis option.exhaust surj_pair)

end

interpretation tap_flow: flow_scope "\<lambda>d. open_flow d remote port random"
  "\<lambda>d g. drop_count (drop_remove d (g_key g))" "\<lambda>d. (d_flows d, active d)" for remote port random
  by unfold_locales (auto dest: open_flow_None open_drop_restores)

lemma divert_ok_claim: "divert_ok d \<Longrightarrow> claim d p = Some (d', r) \<Longrightarrow> divert_ok d'"
  by (fastforce simp: claim_eq divert_ok_def split: option.splits if_splits dest: map_of_SomeD)

lemma divert_ok_open:
  assumes "divert_ok d" and "open_flow d remote port random = (d', Some g)"
  shows "divert_ok d'"
  using assms(1) open_flow_Some [OF assms(2)]
  by (fastforce simp: divert_ok_def inj_on_def)

lemma divert_ok_drop_remove: "divert_ok d \<Longrightarrow> divert_ok (drop_remove d k)"
  using length_delete_le [of k "d_flows d"]
  by (auto simp: divert_ok_def drop_remove_def distinct_delete set_delete inj_on_def)

text \<open>With the fast path taken only when no flow is open, it never changes the outcome.\<close>
lemma claim_without_fast_path:
  assumes "divert_ok d"
  shows "claim d p =
     Some (case key_of p of
             None \<Rightarrow> (d, Some p)
           | Some k \<Rightarrow>
               (case map_of (d_flows d) k of
                  None \<Rightarrow> (d, Some p)
                | Some tx \<Rightarrow> (d\<lparr>queues := (queues d)(tx := queues d tx @ [p])\<rparr>, None)))"
  using assms by (auto simp: claim_eq divert_ok_def split: option.splits)

definition offer :: "divert \<Rightarrow> bytes \<Rightarrow> divert \<times> bytes option" where
  "offer d p = (case claim d p of None \<Rightarrow> (d, None) | Some r \<Rightarrow> r)"

definition is_open :: "divert \<Rightarrow> tap_key \<Rightarrow> bool" where
  "is_open d k \<longleftrightarrow> k \<in> fst ` set (d_flows d)"

definition inbox :: "divert \<Rightarrow> tap_key \<Rightarrow> bytes list" where
  "inbox d k = (case map_of (d_flows d) k of None \<Rightarrow> [] | Some ch \<Rightarrow> queues d ch)"

lemma is_open_iff: "is_open d k \<longleftrightarrow> map_of (d_flows d) k \<noteq> None"
  by (simp add: is_open_def map_of_eq_None_iff)

lemma distinct_channels:
  "divert_ok d \<Longrightarrow> map_of (d_flows d) k = Some ch \<Longrightarrow> map_of (d_flows d) k' = Some ch \<Longrightarrow> k = k'"
proof -
  assume ok: "divert_ok d" and "map_of (d_flows d) k = Some ch" "map_of (d_flows d) k' = Some ch"
  then have "(k, ch) \<in> set (d_flows d)" "(k', ch) \<in> set (d_flows d)" by (auto dest: map_of_SomeD)
  moreover have "inj_on snd (set (d_flows d))" using ok by (simp add: divert_ok_def)
  ultimately show ?thesis
    using inj_onD [of snd "set (d_flows d)" "(k, ch)" "(k', ch)"] by simp
qed

lemma offer_eq:
  "divert_ok d \<Longrightarrow> offer d p =
     (case key_of p of
        None \<Rightarrow> (d, Some p)
      | Some k \<Rightarrow>
          (case map_of (d_flows d) k of
             None \<Rightarrow> (d, Some p)
           | Some tx \<Rightarrow> (d\<lparr>queues := (queues d)(tx := queues d tx @ [p])\<rparr>, None)))"
  by (simp add: offer_def claim_without_fast_path)

lemma offer_inbox_eq:
  assumes "divert_ok d" and "is_open d k"
  shows "inbox (fst (offer d p)) k = (if key_of p = Some k then inbox d k @ [p] else inbox d k)"
proof -
  obtain ch where ch: "map_of (d_flows d) k = Some ch" using assms(2) by (auto simp: is_open_iff)
  show ?thesis
  proof (cases "\<exists>k' tx. key_of p = Some k' \<and> map_of (d_flows d) k' = Some tx")
    case True
    then obtain k' tx where k': "key_of p = Some k'" "map_of (d_flows d) k' = Some tx" by blast
    show ?thesis
    proof (cases "k' = k")
      case True
      then show ?thesis using ch k' by (simp add: offer_eq [OF assms(1)] inbox_def)
    next
      case False
      then have "tx \<noteq> ch" using distinct_channels [OF assms(1)] ch k'(2) by blast
      then show ?thesis using False ch k' by (simp add: offer_eq [OF assms(1)] inbox_def)
    qed
  next
    case False
    then have "key_of p \<noteq> Some k" using ch by blast
    moreover have "offer d p = (d, Some p)"
      using False by (auto simp: offer_eq [OF assms(1)] split: option.splits)
    ultimately show ?thesis by simp
  qed
qed

interpretation dtap: packet_tap offer key_of is_open inbox divert_ok
proof (unfold_locales, goal_cases)
  case (1 d p)
  then show ?case
    using divert_ok_claim [of d p] by (cases "claim d p") (auto simp: offer_def claim_without_fast_path)
next
  case (2 d p k)
  then show ?case by (simp add: offer_eq is_open_def split: option.splits)
next
  case (3 d p k)
  then show ?case by (auto simp: offer_eq is_open_iff)
next
  case (4 d k p)
  then show ?case by (simp add: offer_inbox_eq)
next
  case (5 d p)
  then show ?case by (auto simp: offer_eq is_open_iff split: option.splits)
qed

lemma tap_ok_init: "tap_ok tap_init"
  by (simp add: tap_ok_def tap_init_def divert_ok_def divert_default_def)

lemma tap_ok_step: "tap_ok s \<Longrightarrow> tap_ok (fst (tap_step s e))"
proof (induction s e rule: tap_step.induct)
  case (1 s p)
  then have ok: "divert_ok (tap s)" by (simp add: tap_ok_def)
  then show ?case
    using 1 divert_ok_claim [OF ok, of p]
    by (auto simp: tap_ok_def claim_without_fast_path [OF ok] split: option.splits)
next
  case (2 s remote port random)
  then have ok: "divert_ok (tap s)" by (simp add: tap_ok_def)
  obtain d r where o: "open_flow (tap s) remote port random = (d, r)" by fastforce
  show ?case
  proof (cases r)
    case None
    with o have "d = tap s" by (simp add: open_flow_None)
    then show ?thesis using 2 o None by simp
  next
    case (Some g)
    have "divert_ok d" using divert_ok_open [OF ok] o Some by simp
    then show ?thesis
      using 2 o Some open_flow_Some [OF o [unfolded Some]] by (auto simp: tap_ok_def)
  qed
next
  case (3 s g)
  then show ?case
    by (auto simp: tap_ok_def take_rx_def divert_ok_def less_Suc_eq)
next
  case (4 s k)
  show ?case
  proof (cases "k \<in> set (guards s)")
    case True
    have d: "distinct (map fst (d_flows (tap s)))" and k: "k \<in> fst ` set (d_flows (tap s))"
      using True 4 by (auto simp: tap_ok_def divert_ok_def)
    have "divert_ok (drop_remove (tap s) k)" using 4 by (simp add: tap_ok_def divert_ok_drop_remove)
    with True 4 length_delete_distinct [OF d k] show ?thesis
      by (simp add: tap_ok_def) (simp add: drop_remove_def dom_delete')
  qed (use 4 in simp)
next
  case (5 s)
  then show ?case by (auto simp: tap_ok_def divert_ok_def drop_count_def)
qed

interpretation tapm: machine tap_init tap_step tap_ok
  by unfold_locales (auto simp: tap_ok_init tap_ok_step)

lemma built_fields:
  assumes "build_ipv6_udp s d sp dp p = Some pkt" and "length s = 16" and "length d = 16"
  shows "48 \<le> length pkt" and "drop_bit 4 (pkt ! 0) = 6" and "pkt ! 6 = 17"
    and "take 16 (drop 8 pkt) = s" and "take 16 (drop 24 pkt) = d"
    and "be16 (pkt ! 40) (pkt ! 41) = sp" and "be16 (pkt ! 42) (pkt ! 43) = dp"
proof -
  obtain a c where b: "pkt = ([0x60, 0, 0, 0] @ to_be16 a @ [17, 64]) @ s @ d @ to_be16 sp @ to_be16 dp @ c"
    and c: "4 \<le> length c"
    using assms by (auto simp: build_ipv6_udp_eq Let_def)
  show "48 \<le> length pkt" using assms c by (simp add: b)
  show "drop_bit 4 (pkt ! 0) = 6" and "pkt ! 6 = 17" by (simp_all add: b to_be16_def)
  show "take 16 (drop 8 pkt) = s" using assms by (simp add: b)
  show "take 16 (drop 24 pkt) = d" using assms by (simp add: b)
  have "pkt ! (40 + i) = (to_be16 sp @ to_be16 dp @ c) ! i" for i
    using assms by (simp add: b nth_append)
  from this [of 0] this [of 1] this [of 2] this [of 3]
  show "be16 (pkt ! 40) (pkt ! 41) = sp" and "be16 (pkt ! 42) (pkt ! 43) = dp"
    by (simp_all add: to_be16_def)
qed

section \<open>What an open flow receives\<close>

fun delivered :: "tap_key \<Rightarrow> tap_event \<Rightarrow> bytes list" where
  "delivered k (Claim p) = (if key_of p = Some k then [p] else [])"
| "delivered k _ = []"

lemma inbox_append_other:
  "is_open d k \<Longrightarrow> inbox (d\<lparr>d_flows := d_flows d @ [(k', c)], active := a, next_chan := n\<rparr>) k = inbox d k \<and>
   is_open (d\<lparr>d_flows := d_flows d @ [(k', c)], active := a, next_chan := n\<rparr>) k"
  by (auto simp: inbox_def is_open_iff map_add_def split: option.splits)

lemma step_inbox:
  assumes "tap_ok s" and "is_open (tap s) k" and "e \<noteq> DropRemove k"
  shows "is_open (tap (fst (tap_step s e))) k"
    and "inbox (tap (fst (tap_step s e))) k = inbox (tap s) k @ delivered k e"
proof -
  have ok: "divert_ok (tap s)" using assms(1) by (simp add: tap_ok_def)
  have "is_open (tap (fst (tap_step s e))) k \<and>
        inbox (tap (fst (tap_step s e))) k = inbox (tap s) k @ delivered k e"
  proof (cases e)
    case (Claim p)
    then have "tap (fst (tap_step s e)) = fst (offer (tap s) p)"
      by (simp add: offer_def claim_without_fast_path [OF ok] split: option.splits)
    then show ?thesis
      using dtap.offer_open [OF ok] dtap.offer_inbox [OF ok] assms(2) Claim by simp
  next
    case (Open remote port random)
    obtain d r where o: "open_flow (tap s) remote port random = (d, r)" by fastforce
    show ?thesis
    proof (cases r)
      case None
      with o have "d = tap s" by (simp add: open_flow_None)
      then show ?thesis using Open o None assms(2) by simp
    next
      case (Some g)
      then show ?thesis
        using Open o open_flow_Some(6) [OF o [unfolded Some]] assms(2) inbox_append_other by simp
    qed
  next
    case (DropRemove k')
    then show ?thesis
      using assms(2,3)
      by (auto simp: drop_remove_def inbox_def is_open_iff delete_conv split: option.splits)
  next
    case (TakeRx g)
    then show ?thesis using assms(2) by (simp add: take_rx_def inbox_def is_open_def split: option.split)
  next
    case DropCount
    then show ?thesis
      using assms(2) by (cases "0 < dropping s") (simp_all add: drop_count_def inbox_def is_open_def split: option.split)
  qed
  then show "is_open (tap (fst (tap_step s e))) k"
    and "inbox (tap (fst (tap_step s e))) k = inbox (tap s) k @ delivered k e" by blast+
qed

lemma run_step_inbox:
  "tap_ok s \<Longrightarrow> is_open (tap s) k \<Longrightarrow> DropRemove k \<notin> set es \<Longrightarrow>
   inbox (tap (fst (run tap_step s es))) k = inbox (tap s) k @ concat (map (delivered k) es)"
  by (induction es arbitrary: s) (auto simp: tap_ok_step step_inbox)

section \<open>Properties\<close>

text \<open>
  C17. While a flow is open its queue receives exactly the packets whose key is the flow's,
  in order and complete, however other flows are opened, fed and dropped in between:
  no packet reaches another flow's queue and none is lost.
\<close>
theorem tap_flow_isolation:
  assumes "is_open (tap (fst (run tap_step tap_init es))) k" and "DropRemove k \<notin> set later"
  shows "inbox (tap (fst (run tap_step tap_init (es @ later)))) k =
         inbox (tap (fst (run tap_step tap_init es))) k @ concat (map (delivered k) later)"
  using run_step_inbox [OF tapm.ok_run assms] by (simp add: run_append)

text \<open>
  The bridge's offer is decided by the open flows alone: a packet is kept from the
  applications exactly when its flow is open, and is otherwise handed back unchanged. The
  \<open>active == 0\<close> fast path, read without the lock while drops are in progress, never
  changes the outcome, and no claim panics.
\<close>
theorem tap_claim_decided_by_flows:
  fixes es :: "tap_event list"
  defines "d \<equiv> tap (fst (run tap_step tap_init es))"
  shows "claim d p =
     Some (case key_of p of
             None \<Rightarrow> (d, Some p)
           | Some k \<Rightarrow>
               (case map_of (d_flows d) k of
                  None \<Rightarrow> (d, Some p)
                | Some tx \<Rightarrow> (d\<lparr>queues := (queues d)(tx := queues d tx @ [p])\<rparr>, None)))"
  using claim_without_fast_path tapm.ok_run unfolding d_def tap_ok_def by blast

text \<open>
  Opening a flow yields the requested remote end with a local port of 61000 or above
  that no open flow to that remote uses, and it fails only when all 4536 ports are in
  use, wherever the random start lies; a failed open changes nothing.
\<close>
theorem tap_open_fresh_port:
  "case open_flow d remote port random of
     (d', Some g) \<Rightarrow>
       (\<exists>lp. g_key g = (remote, port, lp) \<and> 61000 \<le> unat lp) \<and>
       \<not> is_open d (g_key g) \<and> is_open d' (g_key g)
   | (d', None) \<Rightarrow> d' = d \<and> (\<forall>lp. 61000 \<le> unat lp \<longrightarrow> is_open d (remote, port, lp))"
proof -
  obtain d' r where o: "open_flow d remote port random = (d', r)" by fastforce
  show ?thesis
  proof (cases r)
    case (Some g)
    note open_flow_Some [OF o [unfolded Some]]
    then show ?thesis
      using o Some by (cases "g_key g") (auto simp: is_open_def local_port_def)
  next
    case None
    have taken: "candidate remote port (unat random mod span) i \<in> fst ` set (d_flows d)" if "i < 4536" for i
      using o None that by (auto simp: open_flow_def Let_def free_from_None span_value split: option.splits)
    have "is_open d (remote, port, lp)" if lp: "61000 \<le> unat lp" for lp
    proof -
      define a where "a = unat random mod span"
      define t where "t = unat lp - 61000"
      have a: "a < 4536" and t: "t < 4536" using lp unat_u16 [of lp] by (simp_all add: a_def t_def span_value)
      define i where "i = (t + 4536 - a) mod 4536"
      have "(a + i) mod 4536 = t"
      proof -
        have "(a + i) mod 4536 = (a + (t + 4536 - a)) mod 4536" unfolding i_def by (simp add: mod_add_right_eq)
        also have "a + (t + 4536 - a) = t + 4536" using a by simp
        finally show ?thesis using t by simp
      qed
      then have "unat (local_port (candidate remote port a i)) = unat lp"
        using lp by (simp add: candidate_port t_def)
      then have "candidate remote port a i = (remote, port, lp)"
        by (simp add: candidate_def local_port_def word_unat_eq_iff)
      with taken [of i] show ?thesis by (simp add: is_open_def a_def i_def)
    qed
    then show ?thesis using o None open_flow_None [of d remote port random d'] by simp
  qed
qed

text \<open>
  C35. After any sequence of opens, claims and drops, in any interleaving of the two steps
  of a drop, the counter is the number of open flows plus the drops that have not
  decremented yet (so it never underflows), the open flows are exactly those whose guard
  is alive, and no step panicked.
\<close>
theorem tap_counter_and_guards:
  defines "end_state es \<equiv> fst (run tap_step tap_init es)"
  shows "active (tap (end_state es)) = length (d_flows (tap (end_state es))) + dropping (end_state es) \<and>
         (is_open (tap (end_state es)) k \<longleftrightarrow> k \<in> set (guards (end_state es))) \<and>
         TapPanic \<notin> set (snd (run tap_step tap_init es))"
proof -
  have ok: "tap_ok (end_state es)" unfolding end_state_def by (rule tapm.ok_run)
  have "TapPanic \<notin> set (snd (run tap_step s es))" if "tap_ok s" for s
    using that
  proof (induction es arbitrary: s)
    case (Cons e es)
    then have "divert_ok (tap s)" by (simp add: tap_ok_def)
    then have "snd (tap_step s e) \<noteq> TapPanic"
      by (cases e) (auto simp: claim_without_fast_path split: option.splits prod.splits)
    with Cons show ?case by (simp add: tap_ok_step)
  qed simp
  with ok tap_ok_init show ?thesis by (simp add: tap_ok_def is_open_def)
qed

text \<open>
  The reply to a request and the errors about it carry the request's key: the answer
  from the remote port, and any ICMPv6 "destination unreachable" that quotes at least the
  first 44 bytes of the request, whoever sends it, and only the latter counts as
  unreachable.
\<close>
theorem tap_replies_and_errors_share_key:
  assumes "length us = 16" and "length remote = 16"
    and "build_ipv6_udp us remote lport rport query = Some req"
    and "build_ipv6_udp remote us rport lport answer = Some rep"
    and "length ip = 40" and "drop_bit 4 (ip ! 0) = 6" and "ip ! 6 = 58" and "length icmp = 8"
    and "icmp ! 0 = 1" and "44 \<le> n"
  defines "err \<equiv> ip @ icmp @ take n req"
  shows "tap_flow_key rep = Some (Some (remote, rport, lport)) \<and>
         tap_flow_key err = Some (Some (remote, rport, lport)) \<and>
         is_icmp_unreachable rep = Some False \<and> is_icmp_unreachable err = Some True"
proof -
  note req = built_fields [OF assms(3,1,2)] and rep = built_fields [OF assms(4,2,1)]
  have "err ! i = ip ! i" if "i < 40" for i using that assms(5) by (simp add: err_def nth_append)
  then have "err ! 0 = ip ! 0" "err ! 6 = 58" using assms(7) by simp_all
  moreover have "err ! 40 = 1" using assms(5,8,9) by (simp add: err_def nth_append)
  moreover have at: "err ! (48 + i) = req ! i" if "i < 44" for i
    using that assms(5,8,10) by (simp add: err_def nth_append)
  moreover have "take 16 (drop 72 err) = remote"
    using assms(5,8,10) req(1,5) by (simp add: err_def drop_take)
  moreover have "92 \<le> length err" using assms(5,8,10) req by (simp add: err_def)
  moreover have "err ! 54 = 17" "err ! 88 = req ! 40" "err ! 89 = req ! 41" "err ! 90 = req ! 42" "err ! 91 = req ! 43"
    using at [of 6] at [of 40] at [of 41] at [of 42] at [of 43] req by simp_all
  ultimately show ?thesis
    using req rep assms(6) by (simp add: tap_flow_key_eq is_icmp_unreachable_eq key_of_def)
qed

section \<open>Witnesses\<close>

definition some_reply :: bytes where
  "some_reply = 0x60 # replicate 5 0 @ [17, 64] @ replicate 16 0xfd @ replicate 16 2 @
     [0, 53] @ to_be16 61005 @ replicate 4 0"

lemma some_reply_key: "key_of some_reply = Some (replicate 16 0xfd, 53, 61005)"
proof -
  have l: "length some_reply = 48" by code_simp
  have "some_reply ! 0 = 0x60" and "some_reply ! 6 = 17" and "take 16 (drop 8 some_reply) = replicate 16 0xfd"
    and "some_reply ! 40 = 0" "some_reply ! 41 = 53" "some_reply ! 42 = 0xee" "some_reply ! 43 = 0x4d"
    unfolding some_reply_def to_be16_def by code_simp+
  then show ?thesis by (simp add: key_of_def l) (simp add: be16_def)
qed

lemma open_flow_empty:
  assumes "d_flows d = []"
  shows "open_flow d remote port random =
    (let k = candidate remote port (unat random mod span) 0
     in (d\<lparr>d_flows := [(k, next_chan d)], active := active d + 1, next_chan := Suc (next_chan d)\<rparr>,
         Some \<lparr>g_key = k, g_rx = next_chan d\<rparr>))"
proof -
  have "[0..<span] = 0 # [Suc 0..<span]" by (rule upt_conv_Cons) (simp add: span_value)
  then have "free_from [] remote port f [0..<span] = Some (candidate remote port f 0)" for f
    by simp
  then show ?thesis by (simp add: open_flow_def assms Let_def)
qed

definition opened_flow :: "tap_event list" where
  "opened_flow = [Open (replicate 16 0xfd) 53 5]"

lemma opened_flow_run:
  "fst (run tap_step tap_init opened_flow) =
   \<lparr>tap = \<lparr>active = 1, d_flows = [((replicate 16 0xfd, 53, 61005), 0)], queues = (\<lambda>_. []), next_chan = 1\<rparr>,
    guards = [(replicate 16 0xfd, 53, 61005)], dropping = 0\<rparr>"
  by (simp add: opened_flow_def tap_init_def divert_default_def open_flow_empty
      candidate_def LOCAL_PORTS_START_def Let_def) (simp add: span_value)

theorem tap_flow_isolation_witness:
  "inbox (tap (fst (run tap_step tap_init (opened_flow @ [Open (replicate 16 0xfd) 53 5, Claim some_reply]))))
     (replicate 16 0xfd, 53, 61005) = [some_reply]"
proof -
  have "is_open (tap (fst (run tap_step tap_init opened_flow))) (replicate 16 0xfd, 53, 61005)"
    by (simp add: opened_flow_run is_open_def)
  from tap_flow_isolation [OF this, of "[Open (replicate 16 0xfd) 53 5, Claim some_reply]"]
  have "inbox (tap (fst (run tap_step tap_init (opened_flow @ [Open (replicate 16 0xfd) 53 5, Claim some_reply]))))
     (replicate 16 0xfd, 53, 61005) =
     inbox (tap (fst (run tap_step tap_init opened_flow))) (replicate 16 0xfd, 53, 61005) @ [some_reply]"
    by (simp del: run.simps add: some_reply_key)
  then show ?thesis by (simp only: opened_flow_run) (simp add: inbox_def)
qed

theorem tap_open_fresh_port_witness:
  "case open_flow divert_default (replicate 16 0xfd) 80 7 of
     (d', Some g) \<Rightarrow> is_open d' (g_key g) | (d', None) \<Rightarrow> False"
  using tap_open_fresh_port [of divert_default "replicate 16 0xfd" 80 7]
proof -
  have "\<not> is_open divert_default (replicate 16 0xfd, 80, 0xffff)"
    by (simp add: is_open_def divert_default_def)
  with tap_open_fresh_port [of divert_default "replicate 16 0xfd" 80 7] show ?thesis
    by (auto split: prod.splits option.splits)
qed

theorem tap_replies_and_errors_share_key_witness:
  "\<exists>req rep. build_ipv6_udp (replicate 16 2) (replicate 16 3) 61000 53 [1] = Some req \<and>
     build_ipv6_udp (replicate 16 3) (replicate 16 2) 53 61000 [2] = Some rep \<and>
     tap_flow_key rep = Some (Some (replicate 16 3, 53, 61000)) \<and>
     is_icmp_unreachable ((0x60 # replicate 5 0 @ 58 # replicate 33 0) @ (1 # replicate 7 0) @ take 48 req) = Some True"
proof -
  obtain req where q: "build_ipv6_udp (replicate 16 2) (replicate 16 3) 61000 53 [1] = Some req"
    by (simp add: build_ipv6_udp_eq Let_def)
  obtain rep where r: "build_ipv6_udp (replicate 16 3) (replicate 16 2) 53 61000 [2] = Some rep"
    by (simp add: build_ipv6_udp_eq Let_def)
  have "tap_flow_key rep = Some (Some (replicate 16 3, 53, 61000)) \<and>
     is_icmp_unreachable ((0x60 # replicate 5 0 @ 58 # replicate 33 0) @ (1 # replicate 7 0) @ take 48 req) = Some True"
    using tap_replies_and_errors_share_key [OF _ _ q r, of "0x60 # replicate 5 0 @ 58 # replicate 33 0"
        "1 # replicate 7 0" 48]
    by (simp add: nth_append del: append_Cons append_assoc)
  with q r show ?thesis by blast
qed

end
