(* ===== verification/DnsCodec.thy ===== *)
theory DnsCodec
  imports Packet
begin

text \<open>
  \<open>shim/src/dns.rs\<close>, the message code: \<open>parse_qname\<close>, \<open>question_end\<close>, \<open>qtype_of\<close>,
  \<open>npub_query\<close>, \<open>answer_as_asked\<close>, \<open>servfail_for\<close>, and \<open>DnsProxy::intercepts\<close>. Every slice
  access of the source is a checked one here, so that the absence of panics on hostile
  messages is a theorem. The loops walk an offset forward through the message, which is
  their termination measure.
\<close>

section \<open>Questions\<close>

definition intercepts :: "bytes \<Rightarrow> bytes \<Rightarrow> bool rust" where
  "intercepts packet dns_addr = do {
     r \<leftarrow> parse_ipv6_udp packet;
     Some (case r of None \<Rightarrow> False | Some p \<Rightarrow> ip_dst_port p = 53 \<and> ip_dst p = dns_addr)
   }"

text \<open>The label loop of \<open>parse_qname\<close>.\<close>
function qname_from :: "bytes \<Rightarrow> nat \<Rightarrow> rust_string \<Rightarrow> rust_string option" where
  "qname_from message pos name =
     (if pos < length message then
        let len = message ! pos in
        if len = 0 then Some name
        else if len AND 0xc0 \<noteq> 0 \<or> 255 < length name + unat len + 1 then None
        else
          (case get_range message (pos + 1) (pos + 1 + unat len) of
             None \<Rightarrow> None
           | Some label \<Rightarrow>
               qname_from message (pos + 1 + unat len)
                 ((if name \<noteq> [] then name @ ascii ''.'' else name) @
                  concat (map (utf8_char \<circ> ascii_lower) label)))
      else None)"
  by pat_completeness auto
termination
  by (relation "measure (\<lambda>(message, pos, _). length message - pos)") auto

declare qname_from.simps [simp del]

definition parse_qname :: "bytes \<Rightarrow> rust_string option rust" where
  "parse_qname message =
     (if length message < 12 then Some None
      else do {
        q4 \<leftarrow> idx message 4;
        q5 \<leftarrow> idx message 5;
        if be16 q4 q5 = 0 then Some None else Some (qname_from message 12 [])
      })"

function question_end_from :: "bytes \<Rightarrow> nat \<Rightarrow> nat option" where
  "question_end_from message pos =
     (if pos < length message then
        let len = message ! pos in
        if len = 0 then if pos + 5 \<le> length message then Some (pos + 5) else None
        else if len AND 0xc0 = 0 then question_end_from message (pos + 1 + unat len)
        else None
      else None)"
  by pat_completeness auto
termination
  by (relation "measure (\<lambda>(message, pos). length message - pos)") auto

declare question_end_from.simps [simp del]

definition question_end :: "bytes \<Rightarrow> nat option" where
  "question_end message = question_end_from message 12"

definition qtype_of :: "bytes \<Rightarrow> u16 rust" where
  "qtype_of message =
     (case question_end message of
        None \<Rightarrow> Some 0
      | Some e \<Rightarrow> do { a \<leftarrow> idx message (e - 4); b \<leftarrow> idx message (e - 3); Some (be16 a b) })"

definition TYPE_AAAA :: u16 where "TYPE_AAAA = 28"

section \<open>Translating a hosts name\<close>

definition npub_query :: "bytes \<Rightarrow> rust_string \<Rightarrow> bytes option rust" where
  "npub_query query npub =
     or_return (question_end query) (\<lambda>e.
       if npub = [] \<or> 63 < length npub then Some None
       else do {
         msg \<leftarrow> get_range query 0 4;
         tail \<leftarrow> get_range query (e - 4) e;
         Some (Some (msg @ [0, 1, 0, 0, 0, 0, 0, 0] @ [word_of_nat (length npub)] @ npub @
                     ([4] @ ascii ''fips'' @ [0]) @ tail))
       })"

text \<open>The offset past an owner name.\<close>
function skip_owner :: "bytes \<Rightarrow> nat \<Rightarrow> nat option" where
  "skip_owner reply pos =
     (if pos < length reply then
        let len = reply ! pos in
        if len = 0 then Some (pos + 1)
        else if len AND 0xc0 = 0xc0 then Some (pos + 2)
        else skip_owner reply (pos + 1 + unat len)
      else None)"
  by pat_completeness auto
termination
  by (relation "measure (\<lambda>(reply, pos). length reply - pos)") auto

declare skip_owner.simps [simp del]

text \<open>The record loop of \<open>answer_as_asked\<close>, with the records still to read.\<close>
fun answer_records :: "bytes \<Rightarrow> nat \<Rightarrow> nat \<Rightarrow> bytes \<Rightarrow> u16 \<Rightarrow> (bytes \<times> u16) option rust" where
  "answer_records reply 0 pos out answers = Some (Some (out, answers))"
| "answer_records reply (Suc n) pos out answers =
     or_return (skip_owner reply pos) (\<lambda>pos.
     or_return (get_range reply pos (pos + 10)) (\<lambda>fixed. do {
       f8 \<leftarrow> idx fixed 8;
       f9 \<leftarrow> idx fixed 9;
       let rdlen = unat (be16 f8 f9);
       or_return (get_range reply (pos + 10) (pos + 10 + rdlen)) (\<lambda>rdata. do {
         f0 \<leftarrow> idx fixed 0;
         f1 \<leftarrow> idx fixed 1;
         if be16 f0 f1 = TYPE_AAAA \<and> rdlen = 16
         then answer_records reply n (pos + 10 + rdlen) (out @ [0xc0, 0x0c] @ fixed @ rdata) (answers + 1)
         else answer_records reply n (pos + 10 + rdlen) out answers
       })
     }))"

definition answer_as_asked :: "bytes \<Rightarrow> bytes \<Rightarrow> bytes option rust" where
  "answer_as_asked query reply =
     or_return (question_end query) (\<lambda>e. do {
       out \<leftarrow> get_range query 0 e;
       or_return (get_range reply 2 4) (\<lambda>flags. do {
         out \<leftarrow> copy_into out 2 4 flags;
         out \<leftarrow> copy_into out 4 12 [0, 1, 0, 0, 0, 0, 0, 0];
         or_return (question_end reply) (\<lambda>pos. do {
           r6 \<leftarrow> idx reply 6;
           r7 \<leftarrow> idx reply 7;
           r \<leftarrow> answer_records reply (unat (be16 r6 r7)) pos out 0;
           or_return r (\<lambda>(out, answers). do {
             out \<leftarrow> copy_into out 6 8 (to_be16 answers);
             Some (Some out)
           })
         })
       })
     })"

section \<open>SERVFAIL\<close>

definition servfail_for :: "bytes \<Rightarrow> bytes option rust" where
  "servfail_for query =
     (if length query < 12 then Some None
      else do {
        b \<leftarrow> idx query 2;
        r \<leftarrow> put query 2 (b OR 0x80);
        b \<leftarrow> idx r 2;
        r \<leftarrow> put r 2 (b AND NOT 0x04);
        b \<leftarrow> idx r 3;
        r \<leftarrow> put r 3 ((b AND 0xf0) OR 0x02);
        r \<leftarrow> put r 6 0;
        r \<leftarrow> put r 7 0;
        r \<leftarrow> put r 8 0;
        r \<leftarrow> put r 9 0;
        r \<leftarrow> put r 10 0;
        r \<leftarrow> put r 11 0;
        Some (Some r)
      })"

section \<open>Question offsets\<close>

lemma question_end_from_bounds:
  "question_end_from message pos = Some e \<Longrightarrow> pos + 5 \<le> e \<and> e \<le> length message"
proof (induction message pos rule: question_end_from.induct)
  case (1 message pos)
  then show ?case
    by (subst (asm) question_end_from.simps [of message pos]) (auto simp: Let_def split: if_splits)
qed

lemma question_end_bounds: "question_end message = Some e \<Longrightarrow> 17 \<le> e \<and> e \<le> length message"
  using question_end_from_bounds by (fastforce simp: question_end_def)

lemma question_end_from_agree:
  "question_end_from message pos = Some e \<Longrightarrow> e \<le> length message' \<Longrightarrow>
   (\<And>i. pos \<le> i \<Longrightarrow> i < e \<Longrightarrow> message' ! i = message ! i) \<Longrightarrow> question_end_from message' pos = Some e"
proof (induction message pos rule: question_end_from.induct)
  case (1 message pos)
  have "pos + 5 \<le> e" using question_end_from_bounds [OF "1.prems"(1)] by simp
  moreover from this have "message' ! pos = message ! pos" using "1.prems"(3) by simp
  moreover have p: "pos < length message"
    and "message ! pos = 0 \<and> e = pos + 5 \<or> message ! pos \<noteq> 0 \<and> message ! pos AND 0xc0 = 0 \<and>
         question_end_from message (pos + 1 + unat (message ! pos)) = Some e"
    using "1.prems"(1) by (subst (asm) question_end_from.simps, auto simp: Let_def split: if_splits)+
  ultimately show ?case
    using "1.IH" [OF p refl] "1.prems"(2,3) by (subst question_end_from.simps) auto
qed

lemma question_end_agree:
  "question_end message = Some e \<Longrightarrow> e \<le> length message' \<Longrightarrow>
   (\<And>i. 12 \<le> i \<Longrightarrow> i < e \<Longrightarrow> message' ! i = message ! i) \<Longrightarrow> question_end message' = Some e"
  unfolding question_end_def by (rule question_end_from_agree)

lemma qtype_of_eq:
  "qtype_of message =
     Some (case question_end message of None \<Rightarrow> 0 | Some e \<Rightarrow> be16 (message ! (e - 4)) (message ! (e - 3)))"
  using question_end_bounds [of message] by (auto simp: qtype_of_def split: option.split)

lemma parse_qname_eq:
  "parse_qname message =
     Some (if length message < 12 \<or> be16 (message ! 4) (message ! 5) = 0 then None
           else qname_from message 12 [])"
  by (simp add: parse_qname_def)

lemma intercepts_eq:
  "intercepts packet dns_addr =
     Some (plain_udp packet \<and> be16 (packet ! 42) (packet ! 43) = 53 \<and> take 16 (drop 24 packet) = dns_addr)"
  by (auto simp: intercepts_def parse_ipv6_udp_eq udp_view_def)

section \<open>Names on the wire\<close>

definition wire_name :: "bytes list \<Rightarrow> bytes" where
  "wire_name labels = concat (map (\<lambda>l. word_of_nat (length l) # l) labels) @ [0]"

definition label_ok :: "bytes \<Rightarrow> bool" where
  "label_ok l \<longleftrightarrow> 0 < length l \<and> length l \<le> 63 \<and> (\<forall>b\<in>set l. b < 0x80)"

text \<open>The text form: labels joined by dots.\<close>
fun join_dots :: "bytes list \<Rightarrow> bytes" where
  "join_dots [] = []"
| "join_dots (l # ls) = l @ concat (map (\<lambda>x. ascii ''.'' @ x) ls)"

fun join_onto :: "bytes \<Rightarrow> bytes list \<Rightarrow> bytes" where
  "join_onto name [] = name"
| "join_onto name (l # ls) = join_onto ((if name \<noteq> [] then name @ ascii ''.'' else name) @ l) ls"

lemma join_onto_nonempty:
  "name \<noteq> [] \<Longrightarrow> join_onto name ls = name @ concat (map (\<lambda>x. ascii ''.'' @ x) ls)"
  by (induction ls arbitrary: name) simp_all

lemma join_onto_Nil: "\<forall>l\<in>set ls. l \<noteq> [] \<Longrightarrow> join_onto [] ls = join_dots ls"
  by (cases ls) (simp_all add: join_onto_nonempty)

lemma length_join_onto: "length name \<le> length (join_onto name ls)"
  by (cases "name = []") (simp_all add: join_onto_nonempty)

lemma low_bits: "\<forall>n<64. (word_of_nat n :: u8) AND 0xc0 = 0"
  by code_simp

lemma label_len:
  assumes "label_ok l"
  shows "unat (word_of_nat (length l) :: u8) = length l" and "(word_of_nat (length l) :: u8) \<noteq> 0"
    and "(word_of_nat (length l) :: u8) AND 0xc0 = 0"
proof -
  show u: "unat (word_of_nat (length l) :: u8) = length l"
    using assms by (simp add: label_ok_def unat_of_nat)
  then show "(word_of_nat (length l) :: u8) \<noteq> 0"
    using assms by (auto simp: label_ok_def)
  show "(word_of_nat (length l) :: u8) AND 0xc0 = 0"
    using assms low_bits by (simp add: label_ok_def)
qed

lemma utf8_lower_ascii: "\<forall>b\<in>set l. b < 0x80 \<Longrightarrow> concat (map (utf8_char \<circ> ascii_lower) l) = map ascii_lower l"
proof (induction l)
  case (Cons b l)
  have "ascii_lower b < 0x80"
    using Cons.prems by (auto simp: ascii_lower_def word_less_nat_alt word_le_nat_alt unat_word_ariths)
  with Cons show ?case by (simp add: utf8_ascii)
qed simp

lemma qname_from_step:
  "pos < length m \<Longrightarrow> m ! pos = b \<Longrightarrow> b \<noteq> 0 \<Longrightarrow> b AND 0xc0 = 0 \<Longrightarrow> length name + unat b + 1 \<le> 255 \<Longrightarrow>
   get_range m (pos + 1) (pos + 1 + unat b) = Some label \<Longrightarrow>
   qname_from m pos name =
   qname_from m (pos + 1 + unat b)
     ((if name \<noteq> [] then name @ ascii ''.'' else name) @ concat (map (utf8_char \<circ> ascii_lower) label))"
  by (subst qname_from.simps) (simp add: Let_def)

lemma qname_from_wire:
  "\<forall>l\<in>set labels. label_ok l \<Longrightarrow> length (join_onto name (map (map ascii_lower) labels)) \<le> 254 \<Longrightarrow>
   qname_from (pre @ wire_name labels @ rest) (length pre) name =
   Some (join_onto name (map (map ascii_lower) labels))"
proof (induction labels arbitrary: pre name)
  case Nil
  then show ?case by (simp add: qname_from.simps wire_name_def nth_append)
next
  case (Cons l labels)
  define name' where "name' = (if name \<noteq> [] then name @ ascii ''.'' else name) @ map ascii_lower l"
  have l: "label_ok l" using Cons.prems(1) by simp
  note ll = label_len [OF l]
  define M where "M = (pre @ word_of_nat (length l) # l) @ wire_name labels @ rest"
  have m: "pre @ wire_name (l # labels) @ rest = M"
    by (simp add: wire_name_def M_def)
  have "length name' \<le> 254"
    using Cons.prems(2) length_join_onto [of name' "map (map ascii_lower) labels"] by (simp add: name'_def)
  then have "length name + unat (word_of_nat (length l) :: u8) + 1 \<le> 255"
    using ll(1) by (auto simp: name'_def split: if_splits)
  moreover have "M ! length pre = word_of_nat (length l)" and "length pre < length M"
    by (simp_all add: M_def nth_append)
  moreover have "get_range M (length pre + 1) (length pre + 1 + unat (word_of_nat (length l) :: u8)) = Some l"
    using ll(1) by (simp add: M_def get_range_def)
  moreover have "concat (map (utf8_char \<circ> ascii_lower) l) = map ascii_lower l"
    using l by (intro utf8_lower_ascii) (simp add: label_ok_def)
  ultimately have "qname_from M (length pre) name =
        qname_from ((pre @ word_of_nat (length l) # l) @ wire_name labels @ rest)
          (length (pre @ word_of_nat (length l) # l)) name'"
    using qname_from_step [of "length pre" M "word_of_nat (length l)" name l] ll
    by (simp add: name'_def M_def)
  also have "\<dots> = Some (join_onto name' (map (map ascii_lower) labels))"
    using Cons.prems by (intro Cons.IH) (simp_all add: name'_def)
  finally show ?case by (simp only: m) (simp add: name'_def)
qed

lemma question_end_wire:
  "\<forall>l\<in>set labels. 0 < length l \<and> length l \<le> 63 \<Longrightarrow> length tail = 4 \<Longrightarrow>
   question_end_from (pre @ wire_name labels @ tail @ rest) (length pre) =
   Some (length pre + length (wire_name labels) + 4)"
proof (induction labels arbitrary: pre)
  case Nil
  then show ?case by (simp add: question_end_from.simps wire_name_def nth_append)
next
  case (Cons l labels)
  have u: "unat (word_of_nat (length l) :: u8) = length l" "(word_of_nat (length l) :: u8) \<noteq> 0"
    "(word_of_nat (length l) :: u8) AND 0xc0 = 0"
    using label_len [of "replicate (length l) 0"] Cons.prems(1) by (simp_all add: label_ok_def)
  have m: "pre @ wire_name (l # labels) @ tail @ rest =
           (pre @ word_of_nat (length l) # l) @ wire_name labels @ tail @ rest"
    by (simp add: wire_name_def)
  have nth: "((pre @ word_of_nat (length l) # l) @ wire_name labels @ tail @ rest) ! length pre = word_of_nat (length l)"
    by (simp add: nth_append)
  have "question_end_from (pre @ wire_name (l # labels) @ tail @ rest) (length pre) =
        question_end_from ((pre @ word_of_nat (length l) # l) @ wire_name labels @ tail @ rest)
          (length (pre @ word_of_nat (length l) # l))"
    unfolding m by (subst question_end_from.simps) (use u in \<open>simp only: nth, simp add: Let_def\<close>)
  also have "\<dots> = Some (length (pre @ word_of_nat (length l) # l) + length (wire_name labels) + 4)"
    using Cons.prems by (intro Cons.IH) simp_all
  finally show ?case by (simp add: wire_name_def)
qed

section \<open>Records\<close>

text \<open>
  What a message says: its \<open>n\<close> resource records from an offset on, each as its bytes from
  TYPE to the end of RDATA.
\<close>
fun records :: "bytes \<Rightarrow> nat \<Rightarrow> nat \<Rightarrow> bytes list option" where
  "records m 0 pos = Some []"
| "records m (Suc n) pos =
     (case skip_owner m pos of
        None \<Rightarrow> None
      | Some p \<Rightarrow>
          if p + 10 \<le> length m \<and> p + 10 + unat (be16 (m ! (p + 8)) (m ! (p + 9))) \<le> length m
          then map_option
                 (Cons (take (10 + unat (be16 (m ! (p + 8)) (m ! (p + 9)))) (drop p m)))
                 (records m n (p + 10 + unat (be16 (m ! (p + 8)) (m ! (p + 9)))))
          else None)"

definition is_aaaa :: "bytes \<Rightarrow> bool" where
  "is_aaaa r \<longleftrightarrow> be16 (r ! 0) (r ! 1) = 28 \<and> be16 (r ! 8) (r ! 9) = 16"

definition answer_section :: "bytes list \<Rightarrow> bytes" where
  "answer_section rs = concat (map (\<lambda>r. [0xc0, 0x0c] @ r) rs)"

lemma answer_section_simps [simp]:
  "answer_section [] = []" "answer_section (r # rs) = [0xc0, 0x0c] @ r @ answer_section rs"
  by (simp_all add: answer_section_def)

lemma record_bytes: "take 10 (drop p m) @ take n (drop (p + 10) m) @ rest = take (10 + n) (drop p m) @ rest"
  by (metis append_assoc drop_drop take_add add.commute)

lemma answer_records_eq:
  "answer_records m n pos out a =
   Some (map_option (\<lambda>rs. (out @ answer_section (filter is_aaaa rs),
                           a + word_of_nat (length (filter is_aaaa rs)))) (records m n pos))"
proof (induction n arbitrary: pos out a)
  case (Suc n)
  show ?case
  proof (cases "skip_owner m pos")
    case (Some p)
    show ?thesis
    proof (cases "p + 10 \<le> length m")
      case True
      define k where "k = unat (be16 (m ! (p + 8)) (m ! (p + 9)))"
      have fixed: "get_range m p (p + 10) = Some (take 10 (drop p m))"
        using True by (simp add: get_range_def)
      have nth: "idx (take 10 (drop p m)) i = Some (m ! (p + i))" if "i < 10" for i
        using True that by simp
      show ?thesis
      proof (cases "p + 10 + k \<le> length m")
        case fits: True
        have idxs: "idx (take 10 (drop p m)) 8 = Some (m ! (p + 8))" "idx (take 10 (drop p m)) 9 = Some (m ! (p + 9))"
          "idx (take 10 (drop p m)) 0 = Some (m ! p)" "idx (take 10 (drop p m)) 1 = Some (m ! (p + 1))"
          using nth [of 0] by (simp_all only: nth) simp
        define B where "B \<longleftrightarrow> be16 (m ! (p + 0)) (m ! (p + 1)) = TYPE_AAAA \<and> k = 16"
        have aaaa: "is_aaaa (take (10 + k) (drop p m)) = B"
          using True by (simp add: is_aaaa_def TYPE_AAAA_def k_def word_unat_eq_iff B_def)
        have data: "get_range m (p + 10) (p + 10 + k) = Some (take k (drop (p + 10) m))"
          using fits by (simp add: get_range_def)
        have "answer_records m (Suc n) pos out a =
          (if B then answer_records m n (p + 10 + k)
                       (out @ [0xc0, 0x0c] @ take 10 (drop p m) @ take k (drop (p + 10) m)) (a + 1)
           else answer_records m n (p + 10 + k) out a)"
          unfolding B_def
          by (subst answer_records.simps) (simp only: or_return_simps Some fixed idxs bind.bind_lunit
              k_def [symmetric] Let_def data add_0_right)
        moreover have "records m (Suc n) pos =
          map_option (Cons (take (10 + k) (drop p m))) (records m n (p + 10 + k))"
          using Some True fits by (simp add: k_def)
        ultimately show ?thesis
          by (simp add: Suc.IH aaaa option.map_comp o_def record_bytes add.assoc [of a] del: answer_records.simps records.simps)
      next
        case False
        then have data: "get_range m (p + 10) (p + 10 + k) = None" by (simp add: get_range_def)
        show ?thesis
          using Some True False
          by (simp only: answer_records.simps records.simps or_return_simps Some fixed nth [of 8] nth [of 9])
            (simp add: Let_def k_def [symmetric] data)
      qed
    qed (use Some in \<open>simp add: get_range_def\<close>)
  qed simp
qed simp

lemma records_length: "records m n pos = Some rs \<Longrightarrow> length rs = n"
  by (induction n arbitrary: pos rs) (auto split: option.splits if_splits)

lemma records_record:
  "records m n pos = Some rs \<Longrightarrow> r \<in> set rs \<Longrightarrow> length r = 10 + unat (be16 (r ! 8) (r ! 9))"
proof (induction n arbitrary: pos rs)
  case (Suc n)
  then show ?case by (auto split: option.splits if_splits)
qed simp

text \<open>An answer section of AAAA records, read back.\<close>
lemma records_answer_section:
  "\<forall>r\<in>set rs. length r = 26 \<and> is_aaaa r \<Longrightarrow>
   records (pre @ answer_section rs) (length rs) (length pre) = Some rs"
proof (induction rs arbitrary: pre)
  case (Cons r rs)
  define M where "M = (pre @ [0xc0, 0x0c] @ r) @ answer_section rs"
  have r: "length r = 26" "unat (be16 (r ! 8) (r ! 9)) = 16" using Cons.prems by (simp_all add: is_aaaa_def)
  have skip: "skip_owner M (length pre) = Some (length pre + 2)"
    by (subst skip_owner.simps) (simp add: M_def nth_append Let_def)
  have at: "M ! (length pre + 2 + i) = r ! i" if "i < 26" for i
    using that r by (simp add: M_def nth_append)
  have rec: "take 26 (drop (length pre + 2) M) = r" and len: "length pre + 28 \<le> length M"
    using r by (simp_all add: M_def)
  have "records M (length rs) (28 + length pre) = Some rs"
    using Cons.IH [of "pre @ [0xc0, 0x0c] @ r"] Cons.prems r by (simp add: M_def add.commute)
  then have "records M (length (r # rs)) (length pre) = Some (r # rs)"
    using skip at [of 8] at [of 9] r rec len by (simp add: eval_nat_numeral(3) [symmetric])
  then show ?case by (simp add: M_def)
qed simp

section \<open>Whole messages\<close>

definition reissued_head :: "bytes \<Rightarrow> bytes \<Rightarrow> nat \<Rightarrow> nat \<Rightarrow> bytes" where
  "reissued_head query reply e n =
     take 2 query @ take 2 (drop 2 reply) @ [0, 1] @ to_be16 (word_of_nat n) @ [0, 0, 0, 0] @
     take (e - 12) (drop 12 query)"

lemma header_split:
  assumes "12 \<le> length xs"
  obtains a b c d e r where "xs = a @ b @ c @ d @ e @ r"
    and "length a = 2" "length b = 2" "length c = 2" "length d = 2" "length e = 4"
proof -
  obtain a r1 where 1: "xs = a @ r1" "length a = 2" by (rule split_length [of 2 xs]) (use assms in simp)
  obtain b r2 where 2: "r1 = b @ r2" "length b = 2" by (rule split_length [of 2 r1]) (use assms 1 in simp)
  obtain c r3 where 3: "r2 = c @ r3" "length c = 2" by (rule split_length [of 2 r2]) (use assms 1 2 in simp)
  obtain d r4 where 4: "r3 = d @ r4" "length d = 2" by (rule split_length [of 2 r3]) (use assms 1 2 3 in simp)
  obtain e r5 where 5: "r4 = e @ r5" "length e = 4" by (rule split_length [of 4 r4]) (use assms 1 2 3 4 in simp)
  show thesis using that [of a b c d e r5] 1 2 3 4 5 by simp
qed

text \<open>The three writes into the echoed question, and the count written at the end.\<close>
lemma head_writes:
  assumes "17 \<le> e" and "e \<le> length query" and "4 \<le> length reply"
  obtains out where "copy_into (take e query) 2 4 (take 2 (drop 2 reply)) = Some out"
    and "copy_into out 4 12 [0, 1, 0, 0, 0, 0, 0, 0] = Some (reissued_head query reply e 0)"
    and "\<And>n tail. copy_into (reissued_head query reply e 0 @ tail) 6 8 (to_be16 (word_of_nat n)) = Some (reissued_head query reply e n @ tail)"
proof -
  obtain a b c d f r where x: "take e query = a @ b @ c @ d @ f @ r"
    and l: "length a = 2" "length b = 2" "length c = 2" "length d = 2" "length f = 4"
    by (rule header_split [of "take e query"]) (use assms in simp)
  have "take 2 (take e query) = a" and "drop 12 (take e query) = r"
    by (simp_all add: x l)
  then have h: "reissued_head query reply e n = a @ take 2 (drop 2 reply) @ [0, 1] @ to_be16 (word_of_nat n) @ [0, 0, 0, 0] @ r" for n
    using assms by (simp add: reissued_head_def drop_take)
  have zero: "to_be16 0 = [0, 0]" by (simp add: to_be16_def)
  have fl: "length (take 2 (drop 2 reply)) = 2" using assms by simp
  show thesis
  proof (rule that)
    show "copy_into (take e query) 2 4 (take 2 (drop 2 reply)) = Some (a @ take 2 (drop 2 reply) @ c @ d @ f @ r)"
      unfolding x by (rule copy_into_append) (use l fl in simp_all)
    have "copy_into ((a @ take 2 (drop 2 reply)) @ (c @ d @ f) @ r) 4 12 [0, 1, 0, 0, 0, 0, 0, 0] =
          Some ((a @ take 2 (drop 2 reply)) @ [0, 1, 0, 0, 0, 0, 0, 0] @ r)"
      by (rule copy_into_append) (use l fl in simp_all)
    then show "copy_into (a @ take 2 (drop 2 reply) @ c @ d @ f @ r) 4 12 [0, 1, 0, 0, 0, 0, 0, 0] = Some (reissued_head query reply e 0)"
      by (simp add: h zero)
    have "copy_into ((a @ take 2 (drop 2 reply) @ [0, 1]) @ [0, 0] @ ([0, 0, 0, 0] @ r @ tail)) 6 8 (to_be16 (word_of_nat n)) =
          Some ((a @ take 2 (drop 2 reply) @ [0, 1]) @ to_be16 (word_of_nat n) @ ([0, 0, 0, 0] @ r @ tail))" for n tail
      by (rule copy_into_append) (use l fl in simp_all)
    then show "copy_into (reissued_head query reply e 0 @ tail) 6 8 (to_be16 (word_of_nat n)) = Some (reissued_head query reply e n @ tail)" for n tail
      by (simp add: h zero)
  qed
qed

lemma answer_as_asked_eq:
  "answer_as_asked query reply =
   Some (case (question_end query, question_end reply) of
           (Some e, Some pos) \<Rightarrow>
             map_option (\<lambda>rs. reissued_head query reply e (length (filter is_aaaa rs)) @ answer_section (filter is_aaaa rs))
               (records reply (unat (be16 (reply ! 6) (reply ! 7))) pos)
         | _ \<Rightarrow> None)"
proof (cases "question_end query")
  case (Some e)
  note q = question_end_bounds [OF Some]
  have range: "get_range query 0 e = Some (take e query)" using q by (simp add: get_range_def)
  show ?thesis
  proof (cases "4 \<le> length reply")
    case True
    obtain out where w: "copy_into (take e query) 2 4 (take 2 (drop 2 reply)) = Some out"
      "copy_into out 4 12 [0, 1, 0, 0, 0, 0, 0, 0] = Some (reissued_head query reply e 0)"
      "\<And>n tail. copy_into (reissued_head query reply e 0 @ tail) 6 8 (to_be16 (word_of_nat n)) = Some (reissued_head query reply e n @ tail)"
      using head_writes [of e query reply] q True by blast
    have flags: "get_range reply 2 4 = Some (take 2 (drop 2 reply))" using True by (simp add: get_range_def)
    show ?thesis
    proof (cases "question_end reply")
      case None
      then show ?thesis using Some w range flags by (simp add: answer_as_asked_def)
    next
      case pos: (Some pos)
      then have "17 \<le> length reply" using question_end_bounds by fastforce
      then show ?thesis
        using Some pos w range flags
        by (cases "records reply (unat (be16 (reply ! 6) (reply ! 7))) pos")
          (simp_all add: answer_as_asked_def answer_records_eq)
    qed
  next
    case False
    then have "question_end reply = None" using question_end_bounds [of reply] by (cases "question_end reply") auto
    with False Some range show ?thesis by (simp add: answer_as_asked_def get_range_def)
  qed
qed (simp add: answer_as_asked_def)

lemma npub_query_eq:
  "npub_query query npub =
   Some (case question_end query of
           None \<Rightarrow> None
         | Some e \<Rightarrow>
             if npub = [] \<or> 63 < length npub then None
             else Some (take 4 query @ [0, 1, 0, 0, 0, 0, 0, 0] @ wire_name [npub, ascii ''fips''] @
                        take 4 (drop (e - 4) query)))"
proof (cases "question_end query")
  case (Some e)
  with question_end_bounds [OF Some] show ?thesis
    by (simp add: npub_query_def get_range_def wire_name_def ascii_def)
qed (simp add: npub_query_def)

lemma servfail_for_eq:
  "servfail_for query =
   Some (if length query < 12 then None
         else Some (take 2 query @
           [(query ! 2 OR 0x80) AND NOT 0x04, (query ! 3 AND 0xf0) OR 0x02] @
           take 2 (drop 4 query) @ [0, 0, 0, 0, 0, 0] @ drop 12 query))"
proof (cases "length query < 12")
  case False
  then obtain a b c d e r where x: "query = a @ b @ c @ d @ e @ r"
    and l: "length a = 2" "length b = 2" "length c = 2" "length d = 2" "length e = 4"
    using header_split [of query] by (metis not_less)
  obtain b0 b1 where b: "b = [b0, b1]" using l by (auto simp: numeral_2_eq_2 length_Suc_conv)
  obtain a0 a1 where a: "a = [a0, a1]" using l by (auto simp: numeral_2_eq_2 length_Suc_conv)
  obtain c0 c1 where c: "c = [c0, c1]" using l by (auto simp: numeral_2_eq_2 length_Suc_conv)
  obtain d0 d1 where d: "d = [d0, d1]" using l by (auto simp: numeral_2_eq_2 length_Suc_conv)
  obtain e0 e1 e2 e3 where e: "e = [e0, e1, e2, e3]" using l by (auto simp: eval_nat_numeral length_Suc_conv)
  show ?thesis
    by (simp add: servfail_for_def x a b c d e put_def idx_def)
qed (simp add: servfail_for_def)

lemma head_fields:
  assumes "17 \<le> e" and "e \<le> length query" and "17 \<le> length reply"
  shows "length (reissued_head query reply e n) = e"
    and "take 2 (reissued_head query reply e n @ x) = take 2 query"
    and "take 2 (drop 2 (reissued_head query reply e n @ x)) = take 2 (drop 2 reply)"
    and "be16 ((reissued_head query reply e n @ x) ! 6) ((reissued_head query reply e n @ x) ! 7) = word_of_nat n"
    and "12 \<le> i \<Longrightarrow> i < e \<Longrightarrow> (reissued_head query reply e n @ x) ! i = query ! i"
proof -
  define a b where "a = take 2 query" and "b = take 2 (drop 2 reply)"
  have l: "length a = 2" "length b = 2" using assms by (simp_all add: a_def b_def)
  have h: "reissued_head query reply e n = a @ b @ [0, 1] @ to_be16 (word_of_nat n) @ [0, 0, 0, 0] @ take (e - 12) (drop 12 query)"
    by (simp add: reissued_head_def a_def b_def)
  show "length (reissued_head query reply e n) = e" using assms l by (simp add: h)
  show "take 2 (reissued_head query reply e n @ x) = take 2 query" using l by (simp add: h a_def [symmetric])
  show "take 2 (drop 2 (reissued_head query reply e n @ x)) = take 2 (drop 2 reply)" using l by (simp add: h b_def [symmetric])
  show "be16 ((reissued_head query reply e n @ x) ! 6) ((reissued_head query reply e n @ x) ! 7) = word_of_nat n"
    using l by (simp add: h nth_append to_be16_def)
  show "(reissued_head query reply e n @ x) ! i = query ! i" if "12 \<le> i" "i < e"
  proof -
    have "length (a @ b @ [0, 1] @ to_be16 (word_of_nat n) @ [0, 0, 0, 0]) = 12" using l by simp
    moreover have "reissued_head query reply e n @ x = (a @ b @ [0, 1] @ to_be16 (word_of_nat n) @ [0, 0, 0, 0]) @ take (e - 12) (drop 12 query) @ x"
      by (simp add: h)
    moreover have "i - 12 < e - 12" using that by simp
    ultimately show ?thesis using that assms by (simp only: nth_append) simp
  qed
qed

section \<open>Properties\<close>

text \<open>
  C36. The message code never panics, whatever the bytes: reading the question name or
  type, deciding an interception, building the translated query, re-issuing the reply and
  building a SERVFAIL all return.
\<close>
theorem dns_codec_never_panics:
  "parse_qname m \<noteq> None \<and> qtype_of m \<noteq> None \<and> intercepts m a \<noteq> None \<and>
   npub_query m npub \<noteq> None \<and> answer_as_asked m reply \<noteq> None \<and> servfail_for m \<noteq> None"
  by (simp add: parse_qname_eq qtype_of_eq intercepts_eq npub_query_eq answer_as_asked_eq servfail_for_eq)

text \<open>
  The name read from a question is its labels, lowercased and joined by dots, for
  every name whose text fits 254 bytes.
\<close>
theorem parse_qname_reads_labels:
  assumes "length hdr = 12" and "be16 (hdr ! 4) (hdr ! 5) \<noteq> 0" and "\<forall>l\<in>set labels. label_ok l"
    and "length (join_dots (map (map ascii_lower) labels)) \<le> 254"
  shows "parse_qname (hdr @ wire_name labels @ rest) = Some (Some (join_dots (map (map ascii_lower) labels)))"
proof -
  have j: "join_onto [] (map (map ascii_lower) labels) = join_dots (map (map ascii_lower) labels)"
    using assms(3) by (intro join_onto_Nil) (auto simp: label_ok_def)
  have "qname_from (hdr @ wire_name labels @ rest) (length hdr) [] = Some (join_dots (map (map ascii_lower) labels))"
    using qname_from_wire [of labels "[]" hdr rest] assms(3,4) by (simp add: j)
  then show ?thesis using assms(1,2) by (simp add: parse_qname_eq nth_append)
qed

text \<open>
  A hosts name is re-asked faithfully: the translated query keeps the id, the flags
  and the query type, asks for exactly \<open><npub>.fips\<close>, and ends with its question.
\<close>
theorem npub_query_asks_npub:
  assumes "npub_query query npub = Some (Some q)" and "\<forall>b\<in>set npub. b < 0x80"
  shows "take 4 q = take 4 query \<and> parse_qname q = Some (Some (map ascii_lower npub @ ascii ''.fips'')) \<and>
         qtype_of q = qtype_of query \<and> question_end q = Some (length q)"
proof -
  obtain e where e: "question_end query = Some e" and npub: "npub \<noteq> []" "length npub \<le> 63"
    and q: "q = take 4 query @ [0, 1, 0, 0, 0, 0, 0, 0] @ wire_name [npub, ascii ''fips''] @ take 4 (drop (e - 4) query)"
    using assms(1) by (auto simp: npub_query_eq split: option.splits if_splits)
  note b = question_end_bounds [OF e]
  define hdr tail where "hdr = take 4 query @ [0, 1, 0, 0, 0, 0, 0, 0]" and "tail = take 4 (drop (e - 4) query)"
  have l: "length hdr = 12" "length tail = 4"
    unfolding hdr_def tail_def using b by (simp, simp, linarith)
  have q: "q = hdr @ wire_name [npub, ascii ''fips''] @ tail" by (simp add: q hdr_def tail_def)
  have "label_ok npub" and "label_ok (ascii ''fips'')"
    using npub assms(2) by (simp_all add: label_ok_def ascii_def length_greater_0_conv)
  moreover have "map ascii_lower (ascii ''fips'') = ascii ''fips''" and "ascii ''.'' @ ascii ''fips'' = ascii ''.fips''"
    by (simp_all add: ascii_def ascii_lower_def)
  ultimately have "qname_from q (length hdr) [] = Some (map ascii_lower npub @ ascii ''.fips'')"
    using qname_from_wire [of "[npub, ascii ''fips'']" "[]" hdr tail] npub by (simp add: q ascii_def)
  moreover have "be16 (q ! 4) (q ! 5) \<noteq> 0" using b by (simp add: q hdr_def nth_append be16_def)
  ultimately have name: "parse_qname q = Some (Some (map ascii_lower npub @ ascii ''.fips''))"
    using l by (simp add: parse_qname_eq q)
  have whole: "question_end q = Some (length q)"
    using question_end_wire [of "[npub, ascii ''fips'']" tail hdr "[]"] npub l length_greater_0_conv [of npub]
    by (simp add: question_end_def q ascii_def)
  have "q ! (length q - 4 + i) = query ! (e - 4 + i)" if "i < 4" for i
    using that l b by (simp add: q nth_append tail_def)
  from this [of 0] this [of 1] have "be16 (q ! (length q - 4)) (q ! (length q - 3)) = be16 (query ! (e - 4)) (query ! (e - 3))"
    using l b question_end_bounds [OF whole] by (simp add: numeral_3_eq_3 Suc_diff_Suc numeral_eq_Suc)
  then have "qtype_of q = qtype_of query" using e whole by (simp add: qtype_of_eq)
  with name whole b show ?thesis by (simp add: q hdr_def)
qed

text \<open>
  C16. The re-issued reply answers the question that was asked: it carries the query's
  transaction id and question and the responder's flags and RCODE, and its records, read
  back with its own count, are exactly the responder's AAAA records, in order.
\<close>
theorem answer_as_asked_faithful:
  assumes "answer_as_asked query reply = Some (Some out)"
  shows "\<exists>e pos rs. question_end query = Some e \<and> question_end reply = Some pos \<and>
    records reply (unat (be16 (reply ! 6) (reply ! 7))) pos = Some rs \<and>
    take 2 out = take 2 query \<and> take 2 (drop 2 out) = take 2 (drop 2 reply) \<and>
    question_end out = Some e \<and> (\<forall>i. 12 \<le> i \<and> i < e \<longrightarrow> out ! i = query ! i) \<and>
    records out (unat (be16 (out ! 6) (out ! 7))) e = Some (filter is_aaaa rs)"
proof -
  obtain e pos rs where e: "question_end query = Some e" and pos: "question_end reply = Some pos"
    and rs: "records reply (unat (be16 (reply ! 6) (reply ! 7))) pos = Some rs"
    and out: "out = reissued_head query reply e (length (filter is_aaaa rs)) @ answer_section (filter is_aaaa rs)"
    using assms by (auto simp: answer_as_asked_eq split: option.splits)
  have b: "17 \<le> e" "e \<le> length query" "17 \<le> length reply"
    using question_end_bounds [OF e] question_end_bounds [OF pos] by simp_all
  note h = head_fields [OF b, where n = "length (filter is_aaaa rs)"]
  have "length (filter is_aaaa rs) < 65536"
    using records_length [OF rs] length_filter_le [of is_aaaa rs] unat_u16 [of "be16 (reply ! 6) (reply ! 7)"] by simp
  then have count: "unat (be16 (out ! 6) (out ! 7)) = length (filter is_aaaa rs)"
    unfolding out h(4) by (simp add: unat_of_nat)
  have "\<forall>r\<in>set (filter is_aaaa rs). length r = 26 \<and> is_aaaa r"
    using records_record [OF rs] by (auto simp: is_aaaa_def)
  from records_answer_section [OF this, of "reissued_head query reply e (length (filter is_aaaa rs))"]
  have "records out (unat (be16 (out ! 6) (out ! 7))) e = Some (filter is_aaaa rs)"
    by (simp add: count h(1)) (simp add: out)
  moreover have "question_end out = Some e"
    by (rule question_end_agree [OF e]) (use h(1) h(5) in \<open>simp_all add: out\<close>)
  ultimately show ?thesis
    using e pos rs h(2,3,5) by (auto simp: out)
qed

text \<open>
  The SERVFAIL is a response to the query that asked: same length, id and question
  section, QR set, AA clear, RCODE 2, and no record counts; it exists for every query
  with a complete header.
\<close>
theorem servfail_answers_query:
  assumes "12 \<le> length query"
  shows "\<exists>r. servfail_for query = Some (Some r) \<and> length r = length query \<and>
    take 2 r = take 2 query \<and> take 2 (drop 4 r) = take 2 (drop 4 query) \<and> drop 12 r = drop 12 query \<and>
    r ! 2 AND 0x84 = 0x80 \<and> r ! 3 AND 0x0f = 2 \<and> take 6 (drop 6 r) = [0, 0, 0, 0, 0, 0]"
proof -
  have bits: "(((x :: u8) OR 0x80) AND NOT 0x04) AND 0x84 = 0x80" "((y :: u8) AND 0xf0 OR 0x02) AND 0x0f = 2" for x y
    by (rule bit_word_eqI; auto simp: bit_simps bit_numeral_rec less_Suc_eq eval_nat_numeral)+
  define a where "a = take 2 query"
  define c where "c = take 2 (drop 4 query)"
  have l: "length a = 2" "length c = 2" using assms by (simp_all add: a_def c_def)
  have s: "servfail_for query = Some (Some (a @ [(query ! 2 OR 0x80) AND NOT 0x04, (query ! 3 AND 0xf0) OR 0x02] @
             c @ [0, 0, 0, 0, 0, 0] @ drop 12 query))"
    using assms by (simp add: servfail_for_eq a_def c_def)
  show ?thesis
    by (rule exI, rule conjI, rule s)
      (use assms l bits in \<open>simp add: nth_append a_def [symmetric] c_def [symmetric]\<close>)
qed

section \<open>Witnesses\<close>

definition home_query :: bytes where
  "home_query = [0xbe, 0xef, 1, 0, 0, 1, 0, 0, 0, 0, 0, 0] @ wire_name [ascii ''home'', ascii ''fips''] @ [0, 28, 0, 1]"

theorem parse_qname_reads_labels_witness:
  "parse_qname ([0xbe, 0xef, 1, 0, 0, 1, 0, 0, 0, 0, 0, 0] @ wire_name [ascii ''Home'', ascii ''FIPS''] @ [0, 28, 0, 1]) =
   Some (Some (ascii ''home.fips''))"
proof -
  have l: "\<forall>l\<in>set [ascii ''Home'', ascii ''FIPS'']. label_ok l"
    and j: "join_dots (map (map ascii_lower) [ascii ''Home'', ascii ''FIPS'']) = ascii ''home.fips''"
    and n: "length (ascii ''home.fips'') \<le> 254"
    by code_simp+
  show ?thesis
    using parse_qname_reads_labels [OF _ _ l, of "[0xbe, 0xef, 1, 0, 0, 1, 0, 0, 0, 0, 0, 0]" "[0, 28, 0, 1]"] n
    unfolding j by (simp add: be16_def)
qed

theorem npub_query_asks_npub_witness:
  "\<exists>q. npub_query home_query (ascii ''npub1xyz'') = Some (Some q) \<and>
       parse_qname q = Some (Some (ascii ''npub1xyz.fips'')) \<and> qtype_of q = Some 28"
proof -
  have t: "qtype_of home_query = Some 28" and "map ascii_lower (ascii ''npub1xyz'') @ ascii ''.fips'' = ascii ''npub1xyz.fips''"
    and "\<forall>b\<in>set (ascii ''npub1xyz''). b < 0x80"
    and "question_end home_query = Some 27" "ascii ''npub1xyz'' \<noteq> []" "length (ascii ''npub1xyz'') \<le> 63"
    by code_simp+
  moreover from this obtain q where "npub_query home_query (ascii ''npub1xyz'') = Some (Some q)"
    by (auto simp: npub_query_eq)
  ultimately show ?thesis using npub_query_asks_npub [of home_query "ascii ''npub1xyz''" q] by simp
qed

definition aaaa_reply :: bytes where
  "aaaa_reply = [0xbe, 0xef, 0x84, 0, 0, 1, 0, 2, 0, 0, 0, 0] @ wire_name [ascii ''npub1xyz'', ascii ''fips''] @ [0, 28, 0, 1] @
     [0xc0, 12, 0, 16, 0, 1, 0, 0, 0, 9, 0, 1, 7] @
     [0xc0, 12, 0, 28, 0, 1, 0, 0, 0, 9, 0, 16] @ replicate 16 0xfd"

theorem answer_as_asked_faithful_witness:
  "\<exists>out. answer_as_asked home_query aaaa_reply = Some (Some out) \<and> take 2 out = [0xbe, 0xef] \<and>
         records out 1 27 = Some [[0, 28, 0, 1, 0, 0, 0, 9, 0, 16] @ replicate 16 0xfd]"
proof -
  have a: "question_end home_query = Some 27" "question_end aaaa_reply = Some 31"
    "unat (be16 (aaaa_reply ! 6) (aaaa_reply ! 7)) = 2"
    "records aaaa_reply 2 31 = Some [[0, 16, 0, 1, 0, 0, 0, 9, 0, 1, 7], [0, 28, 0, 1, 0, 0, 0, 9, 0, 16] @ replicate 16 0xfd]"
    "take 2 home_query = [0xbe, 0xef]"
    "filter is_aaaa [[0, 16, 0, 1, 0, 0, 0, 9, 0, 1, 7], [0, 28, 0, 1, 0, 0, 0, 9, 0, 16] @ replicate 16 0xfd] =
       [[0, 28, 0, 1, 0, 0, 0, 9, 0, 16] @ replicate 16 0xfd]"
    by code_simp+
  then obtain out where out: "answer_as_asked home_query aaaa_reply = Some (Some out)"
    by (simp add: answer_as_asked_eq)
  from answer_as_asked_faithful [OF out]
  have "take 2 out = [0xbe, 0xef]" and r: "records out (unat (be16 (out ! 6) (out ! 7))) 27 =
    Some [[0, 28, 0, 1, 0, 0, 0, 9, 0, 16] @ replicate 16 0xfd]"
    using a by auto
  moreover have "unat (be16 (out ! 6) (out ! 7)) = 1" using records_length [OF r] by simp
  ultimately show ?thesis using out by auto
qed

theorem servfail_answers_query_witness:
  "\<exists>r. servfail_for home_query = Some (Some r) \<and> r ! 3 AND 0x0f = 2"
proof -
  have "12 \<le> length home_query" by code_simp
  from servfail_answers_query [OF this] show ?thesis by blast
qed

end
