(* ===== verification/DnsServe.thy ===== *)
theory DnsServe
  imports DnsCodec "HOL-Library.Sublist"
begin

text \<open>
  \<open>shim/src/dns.rs\<close>, serving one intercepted query: \<open>DnsProxy::serve\<close>, \<open>forward\<close>,
  \<open>forward_upstreams\<close>, \<open>hosts_npub\<close>, with the outcome types of \<open>shim/src/names.rs\<close>.

  What the sockets, the threads and the clock do during one serve is its environment:
  what each exchange received, whether the fetching thread lived and by which look at it
  its answer was in, what each poll of a released lookup returned. The reply and the
  socket operations are functions of it, so the theorems quantify over every timing.
  \<open>HostMap::lookup_npub\<close>, \<open>clamp_ttls\<close> and \<open>OVERRUN_TTL_SECS\<close> are dependencies, arguments
  of the proxy; the lookup of \<open>names.rs\<close> enters by its outcome and its calls of \<open>pending\<close>.
\<close>

section \<open>Outcomes of the public-names lookup\<close>

datatype decided = DAnswer bytes | DLegacy | DCapped u32

text \<open>\<open>Early\<close> holds a closure: its polls are part of the environment.\<close>
datatype outcome = OAnswer bytes | OLegacy | OCapped u32 | OEarly

section \<open>One exchange\<close>

datatype sockaddr = SockV4 bytes u16 | SockV6 bytes u16

fun is_ipv4 :: "sockaddr \<Rightarrow> bool" where
  "is_ipv4 (SockV4 _ _) = True"
| "is_ipv4 (SockV6 _ _) = False"

text \<open>The socket operations of the proxy, in order.\<close>
datatype net_op = BindAny bool | Protect | SendTo bytes sockaddr

text \<open>
  What a socket does: whether it binds, takes its timeout and sends, and what the calls of
  \<open>recv_from\<close> return in turn (\<open>None\<close> an error or the timeout, also past the end).
\<close>
record exchange =
  x_bound :: bool
  x_timeout_set :: bool
  x_sent :: bool
  x_received :: "bytes option list"

definition MAX_RESPONSE :: nat where "MAX_RESPONSE = 4096"

fun recv_matching :: "nat \<Rightarrow> bytes \<Rightarrow> bytes option list \<Rightarrow> bytes option" where
  "recv_matching 0 query rs = None"
| "recv_matching (Suc n) query [] = None"
| "recv_matching (Suc n) query (None # rs) = None"
| "recv_matching (Suc n) query (Some d # rs) =
     (let buf = take MAX_RESPONSE d
      in if 2 \<le> length buf \<and> 2 \<le> length query \<and> take 2 buf = take 2 query then Some buf
         else recv_matching n query rs)"

record dns_proxy =
  local_responder :: sockaddr
  upstreams :: "sockaddr list"
  protect_hook :: bool
  hosts :: "(rust_string \<Rightarrow> rust_string option) option"
  clamp_ttls :: "bytes \<Rightarrow> u32 \<Rightarrow> bytes option"
  overrun_ttl :: u32

definition forward :: "dns_proxy \<Rightarrow> exchange \<Rightarrow> bytes \<Rightarrow> sockaddr \<Rightarrow> bool \<Rightarrow> bytes option \<times> net_op list" where
  "forward proxy x query server protect =
     (let bind = [BindAny (is_ipv4 server)]
      in if \<not> x_bound x then (None, bind)
         else
           let ops = bind @ (if protect \<and> protect_hook proxy then [Protect] else [])
           in if \<not> x_timeout_set x then (None, ops)
              else
                let ops = ops @ [SendTo query server]
                in if \<not> x_sent x then (None, ops)
                   else (recv_matching 3 query (x_received x), ops))"

text \<open>\<open>find_map\<close> over the upstreams; \<open>io i\<close> is the exchange with the \<open>i\<close>-th.\<close>
fun forward_list :: "dns_proxy \<Rightarrow> (nat \<Rightarrow> exchange) \<Rightarrow> nat \<Rightarrow> bytes \<Rightarrow> sockaddr list \<Rightarrow> bytes option \<times> net_op list" where
  "forward_list proxy io i query [] = (None, [])"
| "forward_list proxy io i query (upstream # us) =
     (case forward proxy (io i) query upstream True of
        (Some r, ops) \<Rightarrow> (Some r, ops)
      | (None, ops) \<Rightarrow>
          (let (r, more) = forward_list proxy io (Suc i) query us in (r, ops @ more)))"

definition forward_upstreams :: "dns_proxy \<Rightarrow> (nat \<Rightarrow> exchange) \<Rightarrow> bytes \<Rightarrow> bytes option \<times> net_op list" where
  "forward_upstreams proxy io query = forward_list proxy io 0 query (upstreams proxy)"

definition hosts_npub :: "dns_proxy \<Rightarrow> rust_string \<Rightarrow> rust_string option" where
  "hosts_npub proxy qname =
     (if ends_with qname (ascii ''.fips'') then
        case hosts proxy of
          None \<Rightarrow> None
        | Some lookup_npub \<Rightarrow> lookup_npub (take (length qname - 5) qname)
      else None)"

section \<open>Serving\<close>

text \<open>One turn of the loop that waits for the legacy answer and the decision at once.\<close>
record pass =
  arrived :: bool
  expired :: bool
  poll :: "decided option"

text \<open>
  \<open>lookup\<close>: how often the lookup called \<open>start_prefetch\<close>, and its outcome, when the resolver
  is on. \<open>prefetch_io\<close>: the fetching thread's exchanges, \<open>None\<close> when it could not be spawned
  or died. \<open>inline_io\<close>: those of the serving thread.
\<close>
record world =
  responder_io :: exchange
  lookup :: "(nat \<times> outcome) option"
  prefetch_io :: "(nat \<Rightarrow> exchange) option"
  inline_io :: "nat \<Rightarrow> exchange"
  first_poll :: "decided option"
  passes :: "pass list"

definition clamp_to :: "dns_proxy \<Rightarrow> bytes \<Rightarrow> u32 \<Rightarrow> bytes" where
  "clamp_to proxy legacy cap =
     (case clamp_ttls proxy legacy cap of Some c \<Rightarrow> c | None \<Rightarrow> legacy)"

text \<open>The fetching thread, once started: its answer (\<open>None\<close> when it died) and its operations.\<close>
definition prefetch_result :: "dns_proxy \<Rightarrow> world \<Rightarrow> bytes \<Rightarrow> bool \<Rightarrow> bytes option option \<times> net_op list" where
  "prefetch_result proxy w query started =
     (if started then
        case prefetch_io w of
          None \<Rightarrow> (None, [])
        | Some io \<Rightarrow> (let (r, ops) = forward_upstreams proxy io query in (Some r, ops))
      else (None, []))"

text \<open>The closure \<open>forward\<close>: receive from the thread, or ask here.\<close>
definition legacy_answer :: "dns_proxy \<Rightarrow> world \<Rightarrow> bytes \<Rightarrow> bytes option option \<Rightarrow> bytes option \<times> net_op list" where
  "legacy_answer proxy w query prefetched =
     (case prefetched of
        Some r \<Rightarrow> (r, [])
      | None \<Rightarrow> forward_upstreams proxy (inline_io w) query)"

text \<open>
  The loop of \<open>Outcome::Early\<close>, with the passes still to come: the decision, the legacy
  answer and the operations, or \<open>None\<close> while it goes on.
\<close>
fun early_loop ::
  "dns_proxy \<Rightarrow> world \<Rightarrow> bytes \<Rightarrow> bool \<Rightarrow> bytes option option \<Rightarrow> decided option \<Rightarrow> bytes option option \<Rightarrow>
   pass list \<Rightarrow> (decided option \<times> bytes option option \<times> net_op list) option" where
  "early_loop proxy w query started prefetched (Some d) legacy ps = Some (Some d, legacy, [])"
| "early_loop proxy w query started prefetched None legacy [] =
     (case legacy of Some (Some l) \<Rightarrow> Some (None, legacy, []) | _ \<Rightarrow> None)"
| "early_loop proxy w query started prefetched None legacy (p # ps) =
     (case legacy of
        None \<Rightarrow>
          if started \<and> \<not> arrived p then early_loop proxy w query started prefetched (poll p) None ps
          else
            (let (reply, ops) = legacy_answer proxy w query prefetched
             in map_option (\<lambda>(d, l, more). (d, l, ops @ more))
                  (early_loop proxy w query started prefetched (poll p) (Some reply) ps))
      | Some (Some l) \<Rightarrow> Some (None, legacy, [])
      | Some None \<Rightarrow>
          if expired p then Some (None, legacy, [])
          else early_loop proxy w query started prefetched (poll p) legacy ps)"

text \<open>\<open>legacy.unwrap_or_else(|| forward(prefetched))\<close>\<close>
definition legacy_or :: "dns_proxy \<Rightarrow> world \<Rightarrow> bytes \<Rightarrow> bytes option option \<Rightarrow> bytes option option \<Rightarrow> bytes option \<times> net_op list" where
  "legacy_or proxy w query prefetched legacy =
     (case legacy of Some r \<Rightarrow> (r, []) | None \<Rightarrow> legacy_answer proxy w query prefetched)"

definition early_answer ::
  "dns_proxy \<Rightarrow> world \<Rightarrow> bytes \<Rightarrow> bytes option option \<Rightarrow> decided option \<times> bytes option option \<times> net_op list \<Rightarrow>
   bytes option \<times> net_op list" where
  "early_answer proxy w query prefetched = (\<lambda>(d, legacy, ops).
     case d of
       Some (DAnswer a) \<Rightarrow> (Some a, ops)
     | Some DLegacy \<Rightarrow>
         (let (r, more) = legacy_or proxy w query prefetched legacy in (r, ops @ more))
     | Some (DCapped cap) \<Rightarrow>
         (let (r, more) = legacy_or proxy w query prefetched legacy
          in (map_option (\<lambda>l. clamp_to proxy l cap) r, ops @ more))
     | None \<Rightarrow>
         (map_option (\<lambda>l. clamp_to proxy l (overrun_ttl proxy)) (Option.bind legacy id), ops))"

text \<open>A name that is not \<open>.fips\<close>.\<close>
definition public_response :: "dns_proxy \<Rightarrow> world \<Rightarrow> bytes \<Rightarrow> (bytes option \<times> net_op list) option" where
  "public_response proxy w query =
     (let started = (case lookup w of None \<Rightarrow> False | Some (calls, _) \<Rightarrow> 0 < calls);
          (prefetched, bg) = prefetch_result proxy w query started;
          forwarded = legacy_answer proxy w query prefetched
      in case map_option snd (lookup w) of
           Some (OAnswer a) \<Rightarrow> Some (Some a, bg)
         | Some (OCapped cap) \<Rightarrow>
             Some (map_option (\<lambda>l. clamp_to proxy l cap) (fst forwarded), bg @ snd forwarded)
         | Some OEarly \<Rightarrow>
             map_option (\<lambda>e. let (r, ops) = early_answer proxy w query prefetched e in (r, bg @ ops))
               (early_loop proxy w query started prefetched (first_poll w) None (passes w))
         | Some OLegacy \<Rightarrow> Some (fst forwarded, bg @ snd forwarded)
         | None \<Rightarrow> Some (fst forwarded, bg @ snd forwarded))"

definition fips_response :: "dns_proxy \<Rightarrow> world \<Rightarrow> bytes \<Rightarrow> rust_string \<Rightarrow> (bytes option \<times> net_op list) rust" where
  "fips_response proxy w query qname =
     (case hosts_npub proxy qname of
        Some npub \<Rightarrow> do {
          q \<leftarrow> npub_query query npub;
          case q of
            None \<Rightarrow> Some (None, [])
          | Some q \<Rightarrow>
              (let (r, ops) = forward proxy (responder_io w) q (local_responder proxy) False
               in case r of
                    None \<Rightarrow> Some (None, ops)
                  | Some reply \<Rightarrow> do { a \<leftarrow> answer_as_asked query reply; Some (a, ops) })
        }
      | None \<Rightarrow> Some (forward proxy (responder_io w) query (local_responder proxy) False))"

definition is_fips :: "rust_string \<Rightarrow> bool" where
  "is_fips qname \<longleftrightarrow> qname = ascii ''fips'' \<or> ends_with qname (ascii ''.fips'')"

text \<open>\<open>Waiting\<close>: the observed passes end before the loop does.\<close>
datatype reply = Sent bytes | NoReply | Waiting

text \<open>The end of \<open>serve\<close>: the payload or a SERVFAIL, swapped back toward the querier.\<close>
definition respond :: "ipv6_udp \<Rightarrow> (bytes option \<times> net_op list) option \<Rightarrow> (reply \<times> net_op list) rust" where
  "respond q response =
     (case response of
        None \<Rightarrow> Some (Waiting, [])
      | Some (payload, ops) \<Rightarrow> do {
          payload \<leftarrow> (case payload of Some p \<Rightarrow> Some (Some p) | None \<Rightarrow> servfail_for (ip_payload q));
          case payload of
            None \<Rightarrow> Some (NoReply, ops)
          | Some payload \<Rightarrow> do {
              response \<leftarrow> build_ipv6_udp (ip_dst q) (ip_src q) 53 (ip_src_port q) payload;
              Some (Sent response, ops)
            }
        })"

definition serve :: "dns_proxy \<Rightarrow> world \<Rightarrow> bytes \<Rightarrow> (reply \<times> net_op list) rust" where
  "serve proxy w packet = do {
     parsed \<leftarrow> parse_ipv6_udp packet;
     case parsed of
       None \<Rightarrow> Some (NoReply, [])
     | Some q \<Rightarrow> do {
         name \<leftarrow> parse_qname (ip_payload q);
         let qname = (case name of Some n \<Rightarrow> n | None \<Rightarrow> []);
         response \<leftarrow>
           (if is_fips qname then map_option Some (fips_response proxy w (ip_payload q) qname)
            else Some (public_response proxy w (ip_payload q)));
         respond q response
       }
   }"

section \<open>Socket operations\<close>

definition sends :: "net_op list \<Rightarrow> (bytes \<times> sockaddr) list" where
  "sends ops = concat (map (\<lambda>x. case x of SendTo q s \<Rightarrow> [(q, s)] | _ \<Rightarrow> []) ops)"

lemma sends_simps [simp]:
  "sends [] = []" "sends (a @ b) = sends a @ sends b" "sends (SendTo q s # r) = (q, s) # sends r"
  "sends (Protect # r) = sends r" "sends (BindAny v # r) = sends r"
  by (simp_all add: sends_def)

text \<open>Every datagram leaves a socket that was protected just before.\<close>
fun guarded :: "net_op list \<Rightarrow> bool" where
  "guarded (Protect # SendTo q s # r) = guarded r"
| "guarded (SendTo q s # r) = False"
| "guarded (x # r) = guarded r"
| "guarded [] = True"

lemma guarded_Protect: "guarded b \<Longrightarrow> guarded (Protect # b)"
  by (cases b rule: guarded.cases) auto

lemma guarded_append: "guarded a \<Longrightarrow> guarded b \<Longrightarrow> guarded (a @ b)"
  by (induction a rule: guarded.induct) (auto simp: guarded_Protect)

text \<open>What an exchange with the upstreams may do and return.\<close>
definition upstream_ok :: "dns_proxy \<Rightarrow> bytes \<Rightarrow> bytes option \<times> net_op list \<Rightarrow> bool" where
  "upstream_ok proxy query r \<longleftrightarrow>
     set (sends (snd r)) \<subseteq> {query} \<times> set (upstreams proxy) \<and>
     subseq (map snd (sends (snd r))) (upstreams proxy) \<and>
     (protect_hook proxy \<longrightarrow> guarded (snd r)) \<and>
     (\<forall>a. fst r = Some a \<longrightarrow> take 2 a = take 2 query \<and> 2 \<le> length a \<and> length a \<le> MAX_RESPONSE)"

lemma recv_matching_Some:
  "recv_matching n query rs = Some a \<Longrightarrow> take 2 a = take 2 query \<and> 2 \<le> length a \<and> length a \<le> MAX_RESPONSE"
  by (induction n query rs rule: recv_matching.induct) (auto simp: Let_def split: if_splits)

lemma forward_fst:
  "fst (forward proxy x query server protect) = Some a \<Longrightarrow>
   take 2 a = take 2 query \<and> 2 \<le> length a \<and> length a \<le> MAX_RESPONSE"
  by (auto simp: forward_def Let_def dest: recv_matching_Some split: if_splits)

lemma forward_sends:
  "sends (snd (forward proxy x query server protect)) = [] \<or>
   sends (snd (forward proxy x query server protect)) = [(query, server)]"
  by (simp add: forward_def Let_def)

lemma forward_guarded: "protect_hook proxy \<Longrightarrow> guarded (snd (forward proxy x query server True))"
  by (simp add: forward_def Let_def)

lemma forward_unprotected: "Protect \<notin> set (snd (forward proxy x query server False))"
  by (simp add: forward_def Let_def)

lemma forward_list_ok:
  "set (sends (snd (forward_list proxy io i query us))) \<subseteq> {query} \<times> set us \<and>
   subseq (map snd (sends (snd (forward_list proxy io i query us)))) us \<and>
   (protect_hook proxy \<longrightarrow> guarded (snd (forward_list proxy io i query us))) \<and>
   (\<forall>a. fst (forward_list proxy io i query us) = Some a \<longrightarrow>
        take 2 a = take 2 query \<and> 2 \<le> length a \<and> length a \<le> MAX_RESPONSE)"
proof (induction us arbitrary: i)
  case (Cons u us)
  obtain r ops where f: "forward proxy (io i) query u True = (r, ops)" by fastforce
  obtain r' ops' where l: "forward_list proxy io (Suc i) query us = (r', ops')" by fastforce
  have "sends ops = [] \<or> sends ops = [(query, u)]" using forward_sends [of proxy "io i" query u True] f by simp
  moreover have "protect_hook proxy \<longrightarrow> guarded ops" using forward_guarded [of proxy "io i" query u] f by simp
  moreover have "\<forall>a. r = Some a \<longrightarrow> take 2 a = take 2 query \<and> 2 \<le> length a \<and> length a \<le> MAX_RESPONSE"
    using forward_fst [of proxy "io i" query u True] f by simp
  ultimately show ?case
    using Cons [of "Suc i"] f l by (cases r) (auto simp: guarded_append)
qed simp

lemma forward_upstreams_ok: "upstream_ok proxy query (forward_upstreams proxy io query)"
  using forward_list_ok by (simp add: upstream_ok_def forward_upstreams_def)

lemma prefetch_result_ok:
  assumes "prefetch_result proxy w query started = (prefetched, bg)"
  shows "(prefetched = None \<longrightarrow> bg = []) \<and> upstream_ok proxy query (Option.bind prefetched id, bg)"
proof (cases "started \<and> prefetch_io w \<noteq> None")
  case True
  then obtain io where "prefetch_io w = Some io" by blast
  then show ?thesis
    using True assms forward_upstreams_ok [of proxy query io]
    by (cases "forward_upstreams proxy io query") (auto simp: prefetch_result_def)
next
  case False
  then show ?thesis
    using assms by (auto simp: prefetch_result_def upstream_ok_def split: if_splits)
qed

lemma legacy_answer_ok:
  assumes "prefetch_result proxy w query started = (prefetched, bg)"
  shows "upstream_ok proxy query
    (fst (legacy_answer proxy w query prefetched), bg @ snd (legacy_answer proxy w query prefetched))"
proof (cases prefetched)
  case None
  then show ?thesis
    using prefetch_result_ok [OF assms] forward_upstreams_ok [of proxy query "inline_io w"]
    by (simp add: legacy_answer_def)
next
  case (Some r)
  then show ?thesis using prefetch_result_ok [OF assms] by (simp add: legacy_answer_def)
qed

section \<open>The loop\<close>

text \<open>The polls that a run of the loop may see.\<close>
definition polled :: "world \<Rightarrow> decided set" where
  "polled w = {d. first_poll w = Some d \<or> (\<exists>p\<in>set (passes w). poll p = Some d)}"

text \<open>
  How the loop ends: with the legacy answer not asked for, or asked for once; undecided
  only with a legacy answer in hand, or out of time without one.
\<close>
lemma early_loop_result:
  "early_loop proxy w query started prefetched d legacy ps = Some (d', legacy', ops) \<Longrightarrow>
   (d' = d \<or> (\<exists>p\<in>set ps. d' = poll p)) \<and>
   (case legacy of
      Some l \<Rightarrow> legacy' = Some l \<and> ops = []
    | None \<Rightarrow> legacy' = None \<and> ops = [] \<or>
              legacy' = Some (fst (legacy_answer proxy w query prefetched)) \<and>
              ops = snd (legacy_answer proxy w query prefetched)) \<and>
   (d' = None \<longrightarrow> legacy' \<noteq> None)"
proof (induction proxy w query started prefetched d legacy ps arbitrary: d' legacy' ops rule: early_loop.induct)
  case (3 proxy w query started prefetched legacy p ps)
  show ?case
  proof (cases legacy)
    case None
    show ?thesis
    proof (cases "started \<and> \<not> arrived p")
      case True
      then show ?thesis using "3.IH"(1) [OF None True] "3.prems" None by fastforce
    next
      case False
      obtain r o1 where la: "legacy_answer proxy w query prefetched = (r, o1)" by fastforce
      obtain more where "early_loop proxy w query started prefetched (poll p) (Some r) ps = Some (d', legacy', more)"
        "ops = o1 @ more"
        using "3.prems" None False la by auto
      then show ?thesis using "3.IH"(2) [OF None False la [symmetric] refl, of d' legacy' more] None la by auto
    qed
  next
    case (Some r)
    then show ?thesis
      using "3.IH"(3) [of None d' legacy' ops] "3.prems" by (cases r) (auto split: if_splits)
  qed
qed (auto split: option.splits)

lemma early_loop_ends:
  assumes "i < j" and "j < length ps" and "arrived (ps ! i)" and "expired (ps ! j)"
  shows "early_loop proxy w query started prefetched d None ps \<noteq> None"
proof -
  have late: "early_loop proxy w query started prefetched d (Some l) ps \<noteq> None"
    if "\<exists>p\<in>set ps. expired p" for d l ps
    using that
  proof (induction ps arbitrary: d)
    case (Cons p ps)
    then show ?case
      using Cons.IH [of "poll p"]
      by (cases "early_loop proxy w query started prefetched (poll p) (Some l) ps"; cases d; cases l) auto
  qed simp
  show ?thesis
    using assms
  proof (induction ps arbitrary: d i j)
    case (Cons p ps)
    show ?case
    proof (cases d)
      case None
      show ?thesis
      proof (cases "started \<and> \<not> arrived p")
        case True
        then obtain i' j' where "i = Suc i'" "j = Suc j'" using Cons.prems by (cases i; cases j) auto
        then show ?thesis using Cons None True by auto
      next
        case False
        obtain j' where "j = Suc j'" using Cons.prems(1) by (cases j) auto
        then have "\<exists>p\<in>set ps. expired p" using Cons.prems by auto
        then show ?thesis using None False late by (auto split: prod.splits)
      qed
    qed simp
  qed simp
qed

section \<open>Serving\<close>

lemma early_answer_ok:
  assumes p: "prefetch_result proxy w query started = (prefetched, bg)"
    and l: "early_loop proxy w query started prefetched (first_poll w) None (passes w) = Some e"
    and r: "early_answer proxy w query prefetched e = (r, ops)"
  shows "set (sends (bg @ ops)) \<subseteq> {query} \<times> set (upstreams proxy)"
    and "subseq (map snd (sends (bg @ ops))) (upstreams proxy)"
    and "protect_hook proxy \<Longrightarrow> guarded (bg @ ops)"
proof -
  obtain d' legacy' o1 where e: "e = (d', legacy', o1)" by (cases e) auto
  have "ops = [] \<or> ops = snd (legacy_answer proxy w query prefetched)"
    using early_loop_result [OF l [unfolded e]] r
    by (auto simp: e early_answer_def legacy_or_def split: option.splits decided.splits prod.splits)
  then show "set (sends (bg @ ops)) \<subseteq> {query} \<times> set (upstreams proxy)"
    and "subseq (map snd (sends (bg @ ops))) (upstreams proxy)"
    and "protect_hook proxy \<Longrightarrow> guarded (bg @ ops)"
    using prefetch_result_ok [OF p] legacy_answer_ok [OF p] by (auto simp: upstream_ok_def)
qed

lemma public_response_cases [consumes 1, case_names early answer legacy]:
  assumes "public_response proxy w query = Some (r, ops)"
  obtains started prefetched bg e where
      "prefetch_result proxy w query started = (prefetched, bg)"
      "map_option snd (lookup w) = Some OEarly"
      "early_loop proxy w query started prefetched (first_poll w) None (passes w) = Some e"
      "early_answer proxy w query prefetched e = (r, drop (length bg) ops)" "ops = bg @ drop (length bg) ops"
  | started prefetched bg a where
      "prefetch_result proxy w query started = (prefetched, bg)"
      "map_option snd (lookup w) = Some (OAnswer a)" "r = Some a" "ops = bg"
  | started prefetched bg where
      "prefetch_result proxy w query started = (prefetched, bg)"
      "r = fst (legacy_answer proxy w query prefetched) \<or>
       (\<exists>cap. r = map_option (\<lambda>l. clamp_to proxy l cap) (fst (legacy_answer proxy w query prefetched)))"
      "ops = bg @ snd (legacy_answer proxy w query prefetched)"
proof -
  define started where "started = (case lookup w of None \<Rightarrow> False | Some (calls, _) \<Rightarrow> 0 < calls)"
  obtain prefetched bg where p: "prefetch_result proxy w query started = (prefetched, bg)" by fastforce
  show thesis
  proof (cases "map_option snd (lookup w)")
    case None
    then have "\<not> started" by (simp add: started_def)
    then show thesis
      using assms p None by (intro that(3) [OF p]) (auto simp: public_response_def Let_def)
  next
    case (Some out)
    show thesis
    proof (cases out)
      case (OAnswer a)
      then show thesis
        using assms p Some by (intro that(2) [OF p]) (auto simp: public_response_def started_def [symmetric])
    next
      case OEarly
      then obtain e where e: "early_loop proxy w query started prefetched (first_poll w) None (passes w) = Some e"
        using assms p Some
        by (cases "early_loop proxy w query started prefetched (first_poll w) None (passes w)")
          (auto simp: public_response_def started_def [symmetric])
      obtain r' o' where a: "early_answer proxy w query prefetched e = (r', o')" by fastforce
      then have "r = r'" "ops = bg @ o'"
        using assms p Some OEarly e by (auto simp: public_response_def started_def [symmetric])
      then show thesis using that(1) [OF p _ e] Some OEarly a by simp
    next
      case OLegacy
      then show thesis
        using assms p Some by (intro that(3) [OF p]) (auto simp: public_response_def started_def [symmetric] Let_def)
    next
      case (OCapped cap)
      then have "r = map_option (\<lambda>l. clamp_to proxy l cap) (fst (legacy_answer proxy w query prefetched))"
        "ops = bg @ snd (legacy_answer proxy w query prefetched)"
        using assms p Some by (auto simp: public_response_def started_def [symmetric] Let_def)
      then show thesis using that(3) [OF p] by blast
    qed
  qed
qed

lemma public_response_sends:
  assumes "public_response proxy w query = Some (r, ops)"
  shows "set (sends ops) \<subseteq> {query} \<times> set (upstreams proxy) \<and>
    subseq (map snd (sends ops)) (upstreams proxy) \<and> (protect_hook proxy \<longrightarrow> guarded ops)"
  using assms
proof (cases rule: public_response_cases)
  case (early started prefetched bg e)
  then show ?thesis using early_answer_ok [OF early(1,3,4)] by simp
next
  case (answer started prefetched bg a)
  then show ?thesis using prefetch_result_ok [OF answer(1)] by (simp add: upstream_ok_def)
next
  case (legacy started prefetched bg)
  then show ?thesis using legacy_answer_ok [OF legacy(1)] by (simp add: upstream_ok_def)
qed

lemma legacy_answer_io:
  assumes "prefetch_result proxy w query started = (prefetched, bg)"
  obtains io where "fst (legacy_answer proxy w query prefetched) = fst (forward_upstreams proxy io query)"
    and "io = inline_io w \<or> prefetch_io w = Some io"
proof (cases prefetched)
  case None
  then show thesis using that [of "inline_io w"] by (simp add: legacy_answer_def)
next
  case (Some r)
  then obtain io where "prefetch_io w = Some io" "r = fst (forward_upstreams proxy io query)"
    using assms by (auto simp: prefetch_result_def split: if_splits option.splits prod.splits)
  then show thesis using that [of io] Some by (simp add: legacy_answer_def)
qed

text \<open>What a name that is not \<open>.fips\<close> is answered with.\<close>
lemma public_response_content:
  assumes "public_response proxy w query = Some (r, ops)"
  shows "(\<exists>a. r = Some a \<and> (map_option snd (lookup w) = Some (OAnswer a) \<or>
                             map_option snd (lookup w) = Some OEarly \<and> DAnswer a \<in> polled w)) \<or>
    (\<exists>io. (io = inline_io w \<or> prefetch_io w = Some io) \<and>
       (r = fst (forward_upstreams proxy io query) \<or>
        (\<exists>cap. r = map_option (\<lambda>l. clamp_to proxy l cap) (fst (forward_upstreams proxy io query)))))"
  using assms
proof (cases rule: public_response_cases)
  case (early started prefetched bg e)
  obtain io where io: "fst (legacy_answer proxy w query prefetched) = fst (forward_upstreams proxy io query)"
    "io = inline_io w \<or> prefetch_io w = Some io" by (rule legacy_answer_io [OF early(1)])
  obtain d legacy o1 where e: "e = (d, legacy, o1)" by (cases e) auto
  note res = early_loop_result [OF early(3) [unfolded e]]
  have l: "legacy = None \<or> legacy = Some (fst (forward_upstreams proxy io query))"
    using res io by auto
  show ?thesis
  proof (cases d)
    case None
    then have "r = map_option (\<lambda>l. clamp_to proxy l (overrun_ttl proxy)) (fst (forward_upstreams proxy io query))"
      using res l early(4) by (auto simp: e early_answer_def)
    then show ?thesis using io(2) by blast
  next
    case (Some x)
    then have x: "x \<in> polled w" using res by (auto simp: polled_def)
    have f: "fst (legacy_or proxy w query prefetched legacy) = fst (forward_upstreams proxy io query)"
      using l io(1) by (auto simp: legacy_or_def)
    show ?thesis
    proof (cases x)
      case (DAnswer a)
      then show ?thesis using early(2,4) Some x by (auto simp: e early_answer_def)
    next
      case DLegacy
      then have "r = fst (forward_upstreams proxy io query)"
        using early(4) Some f by (auto simp: e early_answer_def split: prod.splits)
      then show ?thesis using io(2) by blast
    next
      case (DCapped cap)
      then have "r = map_option (\<lambda>l. clamp_to proxy l cap) (fst (forward_upstreams proxy io query))"
        using early(4) Some f by (auto simp: e early_answer_def split: prod.splits)
      then show ?thesis using io(2) by blast
    qed
  qed
next
  case (answer started prefetched bg a)
  then show ?thesis by simp
next
  case (legacy started prefetched bg)
  then show ?thesis by (metis legacy_answer_io [OF legacy(1)])
qed

text \<open>The name and the response that \<open>serve\<close> computes on its way.\<close>
definition qname_of :: "bytes \<Rightarrow> rust_string" where
  "qname_of query = (case parse_qname query of Some (Some n) \<Rightarrow> n | _ \<Rightarrow> [])"

definition response_of :: "dns_proxy \<Rightarrow> world \<Rightarrow> bytes \<Rightarrow> (bytes option \<times> net_op list) option" where
  "response_of proxy w query =
     (if is_fips (qname_of query) then fips_response proxy w query (qname_of query)
      else public_response proxy w query)"

lemma fips_response_total: "\<exists>r ops. fips_response proxy w query qname = Some (r, ops)"
proof (cases "hosts_npub proxy qname")
  case (Some npub)
  show ?thesis
  proof (cases "the (npub_query query npub)")
    case None
    then show ?thesis using Some by (simp add: fips_response_def npub_query_eq)
  next
    case (Some q)
    obtain r ops where "forward proxy (responder_io w) q (local_responder proxy) False = (r, ops)" by fastforce
    then show ?thesis
      using Some \<open>hosts_npub proxy qname = Some npub\<close>
      by (cases r) (auto simp: fips_response_def npub_query_eq answer_as_asked_eq)
  qed
qed (simp add: fips_response_def)

lemma fips_response_responder:
  assumes "responder_io w' = responder_io w"
  shows "fips_response proxy w' query qname = fips_response proxy w query qname"
  unfolding fips_response_def assms by (rule refl)

lemma fips_response_sends:
  assumes "fips_response proxy w query qname = Some (r, ops)"
  shows "\<exists>q. sends ops = [] \<or> sends ops = [(q, local_responder proxy)]"
proof (cases "hosts_npub proxy qname")
  case None
  then show ?thesis
    using assms forward_sends [of proxy "responder_io w" query "local_responder proxy" False]
    by (auto simp: fips_response_def)
next
  case npub: (Some npub)
  show ?thesis
  proof (cases "the (npub_query query npub)")
    case None
    then show ?thesis using npub assms by (simp add: fips_response_def npub_query_eq)
  next
    case (Some q)
    obtain r' o' where f: "forward proxy (responder_io w) q (local_responder proxy) False = (r', o')" by fastforce
    then have "ops = o'"
      using npub Some assms by (cases r') (auto simp: fips_response_def npub_query_eq answer_as_asked_eq)
    then show ?thesis using forward_sends [of proxy "responder_io w" q "local_responder proxy" False] f by auto
  qed
qed

lemma build_total: "\<exists>pkt. build_ipv6_udp s d sp dp p = Some pkt"
  by (simp add: build_ipv6_udp_eq Let_def)

lemma serve_eq:
  assumes "plain_udp packet"
  shows "serve proxy w packet =
    respond (udp_view packet) (response_of proxy w (ip_payload (udp_view packet)))"
proof -
  define q where "q = udp_view packet"
  obtain n where n: "parse_qname (ip_payload q) = Some n" by (simp add: parse_qname_eq)
  then have name: "(case n of Some n \<Rightarrow> n | None \<Rightarrow> []) = qname_of (ip_payload q)"
    by (simp add: qname_of_def split: option.split)
  have "(if is_fips (qname_of (ip_payload q))
         then map_option Some (fips_response proxy w (ip_payload q) (qname_of (ip_payload q)))
         else Some (public_response proxy w (ip_payload q))) = Some (response_of proxy w (ip_payload q))"
    using fips_response_total [of proxy w "ip_payload q" "qname_of (ip_payload q)"] by (auto simp: response_of_def)
  note r = this
  show ?thesis
    unfolding serve_def q_def [symmetric]
    by (simp only: parse_ipv6_udp_eq assms if_True bind.bind_lunit option.case n name Let_def r q_def [symmetric])
qed

lemma respond_Waiting [simp]: "respond q None = Some (Waiting, [])"
  by (simp add: respond_def)

lemma respond_answer:
  "\<exists>pkt. respond q (Some (Some p, ops)) = Some (Sent pkt, ops) \<and>
         build_ipv6_udp (ip_dst q) (ip_src q) 53 (ip_src_port q) p = Some pkt"
  using build_total [of "ip_dst q" "ip_src q" 53 "ip_src_port q" p] by (auto simp: respond_def)

lemma respond_failed:
  "respond q (Some (None, ops)) =
   (case the (servfail_for (ip_payload q)) of
      None \<Rightarrow> Some (NoReply, ops)
    | Some p \<Rightarrow> respond q (Some (Some p, ops)))"
proof -
  obtain f where "servfail_for (ip_payload q) = Some f" by (simp add: servfail_for_eq)
  then show ?thesis by (cases f) (simp_all add: respond_def)
qed

lemma respond_ops:
  assumes "respond q (Some (r, ops)) = Some (reply, ops')"
  shows "ops' = ops \<and> reply \<noteq> Waiting"
proof (cases "case r of Some p \<Rightarrow> Some p | None \<Rightarrow> the (servfail_for (ip_payload q))")
  case None
  then have "reply = NoReply \<and> ops' = ops" using assms by (cases r) (simp_all add: respond_failed)
  then show ?thesis by simp
next
  case (Some p)
  obtain pkt where "respond q (Some (Some p, ops)) = Some (Sent pkt, ops)" using respond_answer by blast
  then have "reply = Sent pkt \<and> ops' = ops" using assms Some by (cases r) (simp_all add: respond_failed)
  then show ?thesis by simp
qed

lemma respond_sent:
  assumes "respond q (Some (r, ops)) = Some (Sent response, ops')"
  obtains payload where "r = Some payload \<or> r = None \<and> servfail_for (ip_payload q) = Some (Some payload)"
    and "build_ipv6_udp (ip_dst q) (ip_src q) 53 (ip_src_port q) payload = Some response"
proof (cases "case r of Some p \<Rightarrow> Some p | None \<Rightarrow> the (servfail_for (ip_payload q))")
  case None
  then have False using assms by (cases r) (simp_all add: respond_failed)
  then show thesis ..
next
  case (Some p)
  obtain pkt where pkt: "respond q (Some (Some p, ops)) = Some (Sent pkt, ops)"
    "build_ipv6_udp (ip_dst q) (ip_src q) 53 (ip_src_port q) p = Some pkt" using respond_answer by blast
  have "response = pkt" using assms Some pkt(1) by (cases r) (simp_all add: respond_failed)
  moreover have "servfail_for (ip_payload q) = Some (Some p)" if "r = None"
    using Some that by (simp add: servfail_for_eq split: if_splits)
  ultimately show thesis using that [of p] Some pkt(2) by (cases r) simp_all
qed

lemma respond_total: "respond q r \<noteq> None"
proof (cases r)
  case (Some ro)
  obtain p ops where ro: "ro = (p, ops)" by (cases ro)
  show ?thesis
  proof (cases p)
    case None
    then show ?thesis
      using Some ro respond_answer [of q _ ops] by (cases "the (servfail_for (ip_payload q))") (fastforce simp: respond_failed)+
  next
    case (Some x)
    then show ?thesis using \<open>r = Some ro\<close> ro respond_answer [of q x ops] by auto
  qed
qed simp

lemma serve_total: "serve proxy w packet \<noteq> None"
proof (cases "plain_udp packet")
  case True
  then show ?thesis by (simp only: serve_eq) (rule respond_total)
qed (simp add: serve_def parse_ipv6_udp_eq)

text \<open>A released lookup lets go: its legacy answer arrives, and later its time is up.\<close>
definition lets_go :: "world \<Rightarrow> bool" where
  "lets_go w \<longleftrightarrow> (\<exists>i j. i < j \<and> j < length (passes w) \<and> arrived (passes w ! i) \<and> expired (passes w ! j))"

lemma public_response_ends:
  assumes "map_option snd (lookup w) = Some OEarly \<Longrightarrow> lets_go w"
  shows "public_response proxy w query \<noteq> None"
proof (cases "map_option snd (lookup w) = Some OEarly")
  case True
  define started where "started = (case lookup w of None \<Rightarrow> False | Some (calls, _) \<Rightarrow> 0 < calls)"
  obtain prefetched bg where "prefetch_result proxy w query started = (prefetched, bg)" by fastforce
  moreover obtain e where "early_loop proxy w query started prefetched (first_poll w) None (passes w) = Some e"
    using early_loop_ends assms [OF True] by (fastforce simp: lets_go_def)
  ultimately show ?thesis
    by (simp add: public_response_def started_def [symmetric] Let_def split: option.split outcome.split prod.split)
next
  case False
  then show ?thesis
    by (auto simp: public_response_def Let_def split: option.split outcome.split prod.split)
qed

section \<open>The contract of the lookup\<close>

text \<open>
  The trait \<open>Lookup\<close> of \<open>names.rs\<close>, as its comment words it: \<open>ask\<close> gives how often
  \<open>pending\<close> was called and the outcome; it is called at most once, and not at all for a
  quiet query: a name under a pinned domain, a lookup that settled at once, or where no
  early release can follow. The proxy then has nothing to send when the lookup answers.
\<close>
locale lookup_service =
  fixes ask :: "'q \<Rightarrow> nat \<times> outcome"
    and quiet :: "'q \<Rightarrow> bool"
  assumes asks_once: "fst (ask q) \<le> 1"
    and quiet_silent: "quiet q \<Longrightarrow> fst (ask q) = 0"
begin

lemma quiet_answer:
  assumes "plain_udp packet" and "\<not> is_fips (qname_of (ip_payload (udp_view packet)))"
    and "lookup w = Some (ask q)" and "quiet q" and "snd (ask q) = OAnswer a"
  shows "\<exists>response. serve proxy w packet = Some (Sent response, []) \<and>
    build_ipv6_udp (ip_dst (udp_view packet)) (ip_src (udp_view packet)) 53 (ip_src_port (udp_view packet)) a = Some response"
proof -
  have "public_response proxy w (ip_payload (udp_view packet)) = Some (Some a, [])"
    using assms(3,5) quiet_silent [OF assms(4)] by (cases "ask q") (simp add: public_response_def prefetch_result_def)
  then show ?thesis using respond_answer assms(1,2) by (auto simp: serve_eq response_of_def)
qed

end

section \<open>Properties\<close>

text \<open>
  Every intercepted query with a complete DNS header is answered, once: whatever the
  upstreams, the resolver and the threads do, the proxy does not panic, and one packet
  goes back from the queried address and port 53 to the querier's address and port. A
  released lookup is included, provided the fetching thread finishes and the clock
  reaches the budget.
\<close>
theorem serve_answers_every_query:
  assumes "plain_udp packet" and "12 \<le> length (ip_payload (udp_view packet))" and "map_option snd (lookup w) = Some OEarly \<Longrightarrow> lets_go w"
  shows "\<exists>payload response ops. serve proxy w packet = Some (Sent response, ops) \<and>
    build_ipv6_udp (ip_dst (udp_view packet)) (ip_src (udp_view packet)) 53
      (ip_src_port (udp_view packet)) payload = Some response"
proof -
  define q where "q = udp_view packet"
  obtain r ops where r: "response_of proxy w (ip_payload q) = Some (r, ops)"
    using public_response_ends [OF assms(3)] fips_response_total by (fastforce simp: response_of_def)
  obtain p where "respond q (Some (r, ops)) = respond q (Some (Some p, ops))"
  proof (cases r)
    case None
    obtain f where "servfail_for (ip_payload q) = Some (Some f)"
      using assms(2) by (simp add: servfail_for_eq q_def)
    then show thesis using that [of f] None by (simp add: respond_failed)
  qed (use that in blast)
  moreover obtain pkt where "respond q (Some (Some p, ops)) = Some (Sent pkt, ops)"
    "build_ipv6_udp (ip_dst q) (ip_src q) 53 (ip_src_port q) p = Some pkt" using respond_answer by blast
  ultimately have "serve proxy w packet = Some (Sent pkt, ops)"
    by (simp add: serve_eq [OF assms(1)] r q_def [symmetric])
  then show ?thesis
    using \<open>build_ipv6_udp (ip_dst q) (ip_src q) 53 (ip_src_port q) p = Some pkt\<close> unfolding q_def by blast
qed

text \<open>
  C12. A \<open>.fips\<close> name never leaves the device: such a query sends at most one datagram, to
  the local responder, and what the public resolver and the upstreams would say makes no
  difference.
\<close>
theorem fips_names_stay_local:
  assumes "plain_udp packet" and "is_fips (qname_of (ip_payload (udp_view packet)))"
    and "serve proxy w packet = Some (reply, ops)"
  shows "reply \<noteq> Waiting \<and> length (sends ops) \<le> 1 \<and> snd ` set (sends ops) \<subseteq> {local_responder proxy} \<and>
    serve proxy (w\<lparr>lookup := lk, inline_io := io, prefetch_io := pf\<rparr>) packet = Some (reply, ops)"
proof -
  define query where "query = ip_payload (udp_view packet)"
  obtain r o' where r: "fips_response proxy w query (qname_of query) = Some (r, o')"
    using fips_response_total by blast
  then have "reply \<noteq> Waiting" and "ops = o'"
    using assms(3) respond_ops [of "udp_view packet" r o' reply ops] assms(2)
    unfolding serve_eq [OF assms(1)] response_of_def query_def [symmetric] by simp_all
  moreover have "length (sends o') \<le> 1 \<and> snd ` set (sends o') \<subseteq> {local_responder proxy}"
    using fips_response_sends [OF r] by auto
  moreover have "serve proxy (w\<lparr>lookup := lk, inline_io := io, prefetch_io := pf\<rparr>) packet = serve proxy w packet"
    using assms(2)
      fips_response_responder [of "w\<lparr>lookup := lk, inline_io := io, prefetch_io := pf\<rparr>" w proxy "ip_payload (udp_view packet)"]
    by (simp add: serve_eq [OF assms(1)] response_of_def)
  ultimately show ?thesis using assms(3) by simp
qed

text \<open>
  C11. Any other name goes only to the configured upstreams, with the application's query
  unchanged, each upstream asked at most once and in order, and with a protect hook every
  datagram leaves a socket that was protected just before, so the query bypasses the
  tunnel.
\<close>
theorem upstream_queries_protected:
  assumes "plain_udp packet" and "\<not> is_fips (qname_of (ip_payload (udp_view packet)))"
    and "serve proxy w packet = Some (reply, ops)"
  shows "set (sends ops) \<subseteq> {ip_payload (udp_view packet)} \<times> set (upstreams proxy) \<and>
    subseq (map snd (sends ops)) (upstreams proxy) \<and> (protect_hook proxy \<longrightarrow> guarded ops)"
proof (cases "public_response proxy w (ip_payload (udp_view packet))")
  case None
  then show ?thesis using assms by (simp add: serve_eq response_of_def)
next
  case (Some ro)
  obtain r o' where ro: "ro = (r, o')" by (cases ro)
  then have "respond (udp_view packet) (Some (r, o')) = Some (reply, ops)"
    using assms Some by (simp add: serve_eq response_of_def)
  then have "ops = o'" using respond_ops by blast
  then show ?thesis using public_response_sends [OF Some [unfolded ro]] by simp
qed

text \<open>
  C13. The public-names resolver never costs a name its legacy answer: when the upstreams
  answer, what the application receives is an answer decided over fips, or the upstreams'
  answer, unchanged or with its TTLs capped, and never a SERVFAIL.
\<close>
theorem names_never_cost_the_answer:
  assumes "plain_udp packet" and "\<not> is_fips (qname_of (ip_payload (udp_view packet)))"
    and "serve proxy w packet = Some (Sent response, ops)"
    and "\<And>io. io = inline_io w \<or> prefetch_io w = Some io \<Longrightarrow>
           \<exists>l. fst (forward_upstreams proxy io (ip_payload (udp_view packet))) = Some l"
  shows "\<exists>payload. build_ipv6_udp (ip_dst (udp_view packet)) (ip_src (udp_view packet)) 53
                     (ip_src_port (udp_view packet)) payload = Some response \<and>
    (map_option snd (lookup w) = Some (OAnswer payload) \<or>
     map_option snd (lookup w) = Some OEarly \<and> DAnswer payload \<in> polled w \<or>
     (\<exists>io l cap. (io = inline_io w \<or> prefetch_io w = Some io) \<and>
        fst (forward_upstreams proxy io (ip_payload (udp_view packet))) = Some l \<and>
        (payload = l \<or> payload = clamp_to proxy l cap)))"
proof -
  define q where "q = udp_view packet"
  have s: "respond q (public_response proxy w (ip_payload q)) = Some (Sent response, ops)"
    using assms(1-3) by (simp add: serve_eq response_of_def q_def)
  then obtain r o' where r: "public_response proxy w (ip_payload q) = Some (r, o')"
    by (cases "public_response proxy w (ip_payload q)") auto
  obtain payload where p: "r = Some payload \<or> r = None \<and> servfail_for (ip_payload q) = Some (Some payload)"
    and b: "build_ipv6_udp (ip_dst q) (ip_src q) 53 (ip_src_port q) payload = Some response"
    using respond_sent [OF s [unfolded r]] by blast
  from public_response_content [OF r] show ?thesis
  proof
    assume "\<exists>a. r = Some a \<and> (map_option snd (lookup w) = Some (OAnswer a) \<or>
                             map_option snd (lookup w) = Some OEarly \<and> DAnswer a \<in> polled w)"
    then show ?thesis using b p unfolding q_def by auto
  next
    assume "\<exists>io. (io = inline_io w \<or> prefetch_io w = Some io) \<and>
       (r = fst (forward_upstreams proxy io (ip_payload q)) \<or>
        (\<exists>cap. r = map_option (\<lambda>l. clamp_to proxy l cap) (fst (forward_upstreams proxy io (ip_payload q)))))"
    then obtain io where io: "io = inline_io w \<or> prefetch_io w = Some io"
      and c: "r = fst (forward_upstreams proxy io (ip_payload q)) \<or>
        (\<exists>cap. r = map_option (\<lambda>l. clamp_to proxy l cap) (fst (forward_upstreams proxy io (ip_payload q))))" by blast
    obtain l where l: "fst (forward_upstreams proxy io (ip_payload q)) = Some l"
      using assms(4) [OF io] unfolding q_def by blast
    with c p have "payload = l \<or> (\<exists>cap. payload = clamp_to proxy l cap)" by auto
    then show ?thesis using b io l unfolding q_def by blast
  qed
qed

section \<open>Witnesses\<close>

definition fips_query :: bytes where
  "fips_query = [0xbe, 0xef, 1, 0, 0, 1, 0, 0, 0, 0, 0, 0] @ wire_name [ascii ''home'', ascii ''fips''] @ [0, 28, 0, 1]"

definition web_query :: bytes where
  "web_query = [0xbe, 0xef, 1, 0, 0, 1, 0, 0, 0, 0, 0, 0] @ wire_name [ascii ''example'', ascii ''org''] @ [0, 1, 0, 1]"

lemma query_names:
  "qname_of fips_query = ascii ''home.fips''" "qname_of web_query = ascii ''example.org''"
  "is_fips (qname_of fips_query)" "\<not> is_fips (qname_of web_query)"
  "length fips_query = 27" "length web_query = 29"
  by code_simp+

definition test_proxy :: dns_proxy where
  "test_proxy = \<lparr>local_responder = SockV6 (replicate 15 0 @ [1]) 5354, upstreams = [SockV4 [9, 9, 9, 9] 53],
     protect_hook = True, hosts = None, clamp_ttls = (\<lambda>m _. Some m), overrun_ttl = 5\<rparr>"

definition answering :: exchange where
  "answering = \<lparr>x_bound = True, x_timeout_set = True, x_sent = True, x_received = [Some [0xbe, 0xef, 0x81]]\<rparr>"

definition test_world :: world where
  "test_world = \<lparr>responder_io = answering, lookup = Some (1, OEarly), prefetch_io = Some (\<lambda>_. answering),
     inline_io = (\<lambda>_. answering), first_poll = None,
     passes = [\<lparr>arrived = False, expired = False, poll = None\<rparr>, \<lparr>arrived = True, expired = False, poll = None\<rparr>,
               \<lparr>arrived = True, expired = True, poll = None\<rparr>]\<rparr>"

lemma test_lets_go: "lets_go test_world"
  unfolding lets_go_def by (rule exI [of _ 1], rule exI [of _ 2]) (simp add: test_world_def)

lemma test_packet:
  assumes "length q = 27 \<or> length q = 29"
  obtains pkt where "plain_udp pkt" and "ip_payload (udp_view pkt) = q"
proof -
  obtain pkt where "plain_udp pkt" "udp_view pkt = \<lparr>ip_src = replicate 16 2, ip_dst = replicate 16 3,
     ip_src_port = 40000, ip_dst_port = 53, ip_payload = q\<rparr>"
    by (rule built_view [of "replicate 16 2" "replicate 16 3" q 40000 53]) (use assms in auto)
  then show thesis using that by simp
qed

theorem serve_answers_every_query_witness:
  "\<exists>pkt response ops. plain_udp pkt \<and> serve test_proxy test_world pkt = Some (Sent response, ops)"
proof -
  obtain pkt where p: "plain_udp pkt" "ip_payload (udp_view pkt) = web_query"
    by (rule test_packet [of web_query]) (simp_all add: query_names)
  show ?thesis
    using serve_answers_every_query [OF p(1), of test_world test_proxy] test_lets_go p query_names by auto
qed

theorem fips_names_stay_local_witness:
  "\<exists>pkt reply ops. plain_udp pkt \<and> serve test_proxy test_world pkt = Some (reply, ops) \<and>
     snd ` set (sends ops) \<subseteq> {local_responder test_proxy}"
proof -
  obtain pkt where p: "plain_udp pkt" "ip_payload (udp_view pkt) = fips_query"
    by (rule test_packet [of fips_query]) (simp_all add: query_names)
  obtain reply ops where s: "serve test_proxy test_world pkt = Some (reply, ops)"
    using serve_total [of test_proxy test_world pkt] by auto
  show ?thesis
    using p(1) s fips_names_stay_local [OF p(1) _ s] p(2) query_names(3) by auto
qed

theorem upstream_queries_protected_witness:
  "\<exists>pkt reply ops. plain_udp pkt \<and> serve test_proxy test_world pkt = Some (reply, ops) \<and> guarded ops"
proof -
  obtain pkt where p: "plain_udp pkt" "ip_payload (udp_view pkt) = web_query"
    by (rule test_packet [of web_query]) (simp_all add: query_names)
  obtain reply ops where s: "serve test_proxy test_world pkt = Some (reply, ops)"
    using serve_total [of test_proxy test_world pkt] by auto
  have "protect_hook test_proxy" by (simp add: test_proxy_def)
  then show ?thesis
    using p(1) s upstream_queries_protected [OF p(1) _ s] p(2) query_names(4) by auto
qed

lemma test_upstream_answers:
  assumes "io = inline_io test_world \<or> prefetch_io test_world = Some io"
  shows "fst (forward_upstreams test_proxy io web_query) = Some [0xbe, 0xef, 0x81]"
proof -
  have "io = (\<lambda>_. answering)" using assms by (auto simp: test_world_def)
  moreover have "take 2 web_query = [0xbe, 0xef]" by (simp add: web_query_def)
  ultimately show ?thesis
    using query_names(6)
    by (simp add: forward_upstreams_def test_proxy_def forward_def answering_def MAX_RESPONSE_def numeral_3_eq_3)
qed

theorem names_never_cost_the_answer_witness:
  "\<exists>pkt response ops payload. serve test_proxy test_world pkt = Some (Sent response, ops) \<and>
     build_ipv6_udp (ip_dst (udp_view pkt)) (ip_src (udp_view pkt)) 53 (ip_src_port (udp_view pkt)) payload = Some response \<and>
     payload = [0xbe, 0xef, 0x81]"
proof -
  obtain pkt where p: "plain_udp pkt" "ip_payload (udp_view pkt) = web_query"
    by (rule test_packet [of web_query]) (simp_all add: query_names)
  obtain reply ops where s: "serve test_proxy test_world pkt = Some (reply, ops)"
    using serve_total [of test_proxy test_world pkt] by auto
  obtain r where r: "public_response test_proxy test_world web_query = Some r"
    using public_response_ends [of test_world] test_lets_go by fastforce
  obtain payload o' where ro: "r = (Some payload, o')"
  proof (cases r)
    case (Pair r1 o1)
    from public_response_content [OF r [unfolded Pair]] test_upstream_answers that [of _ o1] Pair
    show thesis by fastforce
  qed
  obtain response where resp: "serve test_proxy test_world pkt = Some (Sent response, o')"
    using respond_answer [of "udp_view pkt" payload o'] p r ro query_names(4)
    by (auto simp: serve_eq response_of_def)
  have "\<not> is_fips (qname_of (ip_payload (udp_view pkt)))" using p(2) query_names(4) by simp
  from names_never_cost_the_answer [OF p(1) this resp] p(2) test_upstream_answers
  obtain pl where "build_ipv6_udp (ip_dst (udp_view pkt)) (ip_src (udp_view pkt)) 53 (ip_src_port (udp_view pkt)) pl = Some response"
    and "DAnswer pl \<in> polled test_world \<or> pl = [0xbe, 0xef, 0x81] \<or> (\<exists>cap. pl = clamp_to test_proxy [0xbe, 0xef, 0x81] cap)"
    by (fastforce simp: test_world_def)
  moreover have "polled test_world = {}" by (auto simp: polled_def test_world_def)
  moreover have "clamp_to test_proxy l cap = l" for l cap by (simp add: clamp_to_def test_proxy_def)
  ultimately show ?thesis using resp by auto
qed

end
