(* ===== verification/RustStr.thy ===== *)
theory RustStr
  imports Prelude
begin

text \<open>
  The parts of Rust's string library that the sources use: \<open>String::from_utf8_lossy\<close>,
  \<open>lines\<close>, \<open>trim\<close>, \<open>split_once\<close>, \<open>str::get\<close>, \<open>parse\<close> and \<open>from_str_radix\<close> for unsigned
  integers, and the \<open>Display\<close> of integers and of \<open>Ipv6Addr\<close>. A string is its UTF-8 bytes.
\<close>

section \<open>UTF-8\<close>

definition is_cont :: "u8 \<Rightarrow> bool" where
  "is_cont b \<longleftrightarrow> 0x80 \<le> b \<and> b \<le> 0xbf"

text \<open>The bytes a second byte may be, after a leading byte.\<close>
definition second_ok :: "u8 \<Rightarrow> u8 \<Rightarrow> bool" where
  "second_ok b c \<longleftrightarrow>
     (if b = 0xe0 then 0xa0 \<le> c \<and> c \<le> 0xbf
      else if b = 0xed then 0x80 \<le> c \<and> c \<le> 0x9f
      else if b = 0xf0 then 0x90 \<le> c \<and> c \<le> 0xbf
      else if b = 0xf4 then 0x80 \<le> c \<and> c \<le> 0x8f
      else is_cont c)"

definition width :: "u8 \<Rightarrow> nat" where
  "width b =
     (if b < 0x80 then 1
      else if 0xc2 \<le> b \<and> b \<le> 0xdf then 2
      else if 0xe0 \<le> b \<and> b \<le> 0xef then 3
      else if 0xf0 \<le> b \<and> b \<le> 0xf4 then 4 else 0)"

text \<open>One character, or the maximal invalid sequence: its length, and whether it is valid.\<close>
fun utf8_step :: "bytes \<Rightarrow> nat \<times> bool" where
  "utf8_step [] = (0, True)"
| "utf8_step (b # r) =
     (if width b = 0 then (1, False)
      else if width b = 1 then (1, True)
      else case r of
        [] \<Rightarrow> (1, False)
      | c # r2 \<Rightarrow>
          if \<not> second_ok b c then (1, False)
          else if width b = 2 then (2, True)
          else (case r2 of
              [] \<Rightarrow> (2, False)
            | d # r3 \<Rightarrow>
                if \<not> is_cont d then (2, False)
                else if width b = 3 then (3, True)
                else (case r3 of
                    [] \<Rightarrow> (3, False)
                  | e # r4 \<Rightarrow> if is_cont e then (4, True) else (3, False))))"

lemma utf8_step_pos: "0 < fst (utf8_step (b # r))"
  by (auto split: list.split)

function from_utf8_lossy :: "bytes \<Rightarrow> rust_string" where
  "from_utf8_lossy [] = []"
| "from_utf8_lossy (b # r) =
     (let (n, valid) = utf8_step (b # r)
      in (if valid then take n (b # r) else [0xef, 0xbf, 0xbd]) @ from_utf8_lossy (drop n (b # r)))"
  by pat_completeness auto
termination
proof (relation "measure length", simp, goal_cases)
  case (1 b r x n valid)
  then have "0 < n" using utf8_step_pos [of b r] by (metis fst_conv)
  then show ?case by (cases n) auto
qed

declare from_utf8_lossy.simps(2) [simp del]

lemma from_utf8_lossy_ascii: "\<forall>b\<in>set s. b < 0x80 \<Longrightarrow> from_utf8_lossy (s @ t) = s @ from_utf8_lossy t"
  by (induction s) (simp_all add: from_utf8_lossy.simps width_def Let_def)

lemma from_utf8_lossy_ascii_all: "\<forall>b\<in>set s. b < 0x80 \<Longrightarrow> from_utf8_lossy s = s"
  using from_utf8_lossy_ascii [of s "[]"] by simp

section \<open>Lines, trimming and splitting\<close>

definition LF :: u8 where "LF = 10"
definition CR :: u8 where "CR = 13"

definition strip_cr :: "rust_string \<Rightarrow> rust_string" where
  "strip_cr l = (if l \<noteq> [] \<and> last l = CR then butlast l else l)"

fun lines_from :: "rust_string \<Rightarrow> rust_string \<Rightarrow> rust_string list" where
  "lines_from acc [] = (if acc = [] then [] else [acc])"
| "lines_from acc (b # s) = (if b = LF then strip_cr acc # lines_from [] s else lines_from (acc @ [b]) s)"

definition str_lines :: "rust_string \<Rightarrow> rust_string list" where
  "str_lines s = lines_from [] s"

text \<open>The encodings of the characters with the \<open>White_Space\<close> property.\<close>
definition white_space :: "bytes list" where
  "white_space =
     map (\<lambda>b. [b]) [9, 10, 11, 12, 13, 32] @ [[0xc2, 0x85], [0xc2, 0xa0], [0xe1, 0x9a, 0x80]] @
     map (\<lambda>b. [0xe2, 0x80, b]) [0x80, 0x81, 0x82, 0x83, 0x84, 0x85, 0x86, 0x87, 0x88, 0x89, 0x8a, 0xa8, 0xa9, 0xaf] @
     [[0xe2, 0x81, 0x9f], [0xe3, 0x80, 0x80]]"

lemma white_space_nonempty: "w \<in> set white_space \<Longrightarrow> 0 < length w"
  by (auto simp: white_space_def)

function trim_start :: "rust_string \<Rightarrow> rust_string" where
  "trim_start s =
     (case find (starts_with s) white_space of None \<Rightarrow> s | Some w \<Rightarrow> trim_start (drop (length w) s))"
  by pat_completeness auto
termination
proof (relation "measure length", simp, goal_cases)
  case (1 s w)
  then have "w \<in> set white_space" and "starts_with s w" by (auto simp: find_Some_iff)
  then show ?case using white_space_nonempty [of w] by (auto simp: starts_with_def)
qed

function trim_end :: "rust_string \<Rightarrow> rust_string" where
  "trim_end s =
     (case find (ends_with s) white_space of None \<Rightarrow> s | Some w \<Rightarrow> trim_end (take (length s - length w) s))"
  by pat_completeness auto
termination
proof (relation "measure length", simp, goal_cases)
  case (1 s w)
  then have "w \<in> set white_space" and "ends_with s w" by (auto simp: find_Some_iff)
  then show ?case using white_space_nonempty [of w] by (auto simp: ends_with_def)
qed

declare trim_start.simps [simp del] trim_end.simps [simp del]

definition trim :: "rust_string \<Rightarrow> rust_string" where
  "trim s = trim_end (trim_start s)"

definition split_once :: "u8 \<Rightarrow> rust_string \<Rightarrow> (rust_string \<times> rust_string) option" where
  "split_once c s =
     (if c \<in> set s then Some (takeWhile (\<lambda>b. b \<noteq> c) s, tl (dropWhile (\<lambda>b. b \<noteq> c) s)) else None)"

text \<open>\<open>s.split(c)\<close>\<close>
fun split_from :: "u8 \<Rightarrow> rust_string \<Rightarrow> rust_string \<Rightarrow> rust_string list" where
  "split_from c acc [] = [acc]"
| "split_from c acc (b # s) = (if b = c then acc # split_from c [] s else split_from c (acc @ [b]) s)"

definition str_split :: "u8 \<Rightarrow> rust_string \<Rightarrow> rust_string list" where
  "str_split c s = split_from c [] s"

definition strip_prefix :: "bytes \<Rightarrow> rust_string \<Rightarrow> rust_string option" where
  "strip_prefix p s = (if starts_with s p then Some (drop (length p) s) else None)"

definition is_char_boundary :: "rust_string \<Rightarrow> nat \<Rightarrow> bool" where
  "is_char_boundary s i \<longleftrightarrow> i = 0 \<or> i = length s \<or> i < length s \<and> \<not> is_cont (s ! i)"

text \<open>\<open>s.get(a..b)\<close> on a string.\<close>
definition str_get :: "rust_string \<Rightarrow> nat \<Rightarrow> nat \<Rightarrow> rust_string option" where
  "str_get s a b = (if is_char_boundary s a \<and> is_char_boundary s b then get_range s a b else None)"

definition eq_ignore_ascii_case :: "rust_string \<Rightarrow> rust_string \<Rightarrow> bool" where
  "eq_ignore_ascii_case a b \<longleftrightarrow> map ascii_lower a = map ascii_lower b"

definition str_contains :: "rust_string \<Rightarrow> rust_string \<Rightarrow> bool" where
  "str_contains s pat \<longleftrightarrow> find_window pat s \<noteq> None"

section \<open>Numbers\<close>

definition to_digit :: "nat \<Rightarrow> u8 \<Rightarrow> nat option" where
  "to_digit radix b =
     (let n = unat b;
          d = (if 48 \<le> n \<and> n \<le> 57 then n - 48
               else if 65 \<le> n \<and> n \<le> 90 then n - 55
               else if 97 \<le> n \<and> n \<le> 122 then n - 87 else radix)
      in if d < radix then Some d else None)"

fun digits_value :: "nat \<Rightarrow> nat \<Rightarrow> bytes \<Rightarrow> nat option" where
  "digits_value radix acc [] = Some acc"
| "digits_value radix acc (b # s) =
     (case to_digit radix b of None \<Rightarrow> None | Some d \<Rightarrow> digits_value radix (acc * radix + d) s)"

text \<open>\<open>from_str_radix\<close> of an unsigned type of the given size: an optional \<open>+\<close>, then digits.\<close>
definition parse_uint :: "nat \<Rightarrow> nat \<Rightarrow> rust_string \<Rightarrow> nat option" where
  "parse_uint bits radix s =
     (if s = [] \<or> s = ascii ''+'' \<or> s = ascii ''-'' then None
      else
        (case digits_value radix 0 (if hd s = 43 then tl s else s) of
           None \<Rightarrow> None
         | Some n \<Rightarrow> if n < 2 ^ bits then Some n else None))"

definition digit :: "nat \<Rightarrow> u8" where
  "digit d = word_of_nat (if d < 10 then 48 + d else 87 + d)"

fun show_radix :: "nat \<Rightarrow> nat \<Rightarrow> rust_string" where
  "show_radix radix n =
     (if n < radix \<or> radix < 2 then [digit n] else show_radix radix (n div radix) @ [digit (n mod radix)])"

declare show_radix.simps [simp del]

abbreviation show_dec :: "nat \<Rightarrow> rust_string" where "show_dec \<equiv> show_radix 10"
abbreviation show_hex :: "nat \<Rightarrow> rust_string" where "show_hex \<equiv> show_radix 16"

lemma to_digit_digit:
  assumes "d < radix" and "radix \<le> 16"
  shows "to_digit radix (digit d) = Some d"
proof -
  have "unat (digit d) = (if d < 10 then 48 + d else 87 + d)"
    using assms by (simp add: digit_def unat_of_nat)
  then show ?thesis using assms by (auto simp: to_digit_def Let_def)
qed

lemma digits_value_append:
  "digits_value radix acc (a @ b) = Option.bind (digits_value radix acc a) (\<lambda>v. digits_value radix v b)"
  by (induction a arbitrary: acc) (auto split: option.split)

lemma digits_value_show:
  "2 \<le> radix \<Longrightarrow> radix \<le> 16 \<Longrightarrow> digits_value radix 0 (show_radix radix n) = Some n"
proof (induction n rule: less_induct)
  case (less n)
  show ?case
  proof (cases "n < radix")
    case True
    then show ?thesis using less.prems by (simp add: show_radix.simps [of radix n] to_digit_digit)
  next
    case False
    then have "n div radix < n" using less.prems by simp
    from less.IH [OF this less.prems] show ?thesis
      using False less.prems
      by (subst show_radix.simps) (simp add: digits_value_append to_digit_digit div_mult_mod_eq)
  qed
qed

lemma show_radix_digits:
  "2 \<le> radix \<Longrightarrow> radix \<le> 16 \<Longrightarrow> b \<in> set (show_radix radix n) \<Longrightarrow> \<exists>d<16. b = digit d"
proof (induction n rule: less_induct)
  case (less n)
  show ?case
  proof (cases "n < radix")
    case True
    then show ?thesis using less.prems by (auto simp: show_radix.simps [of radix n] intro: exI [of _ n])
  next
    case False
    have "n mod radix < radix" using less.prems(1) by (intro mod_less_divisor) simp
    then have "n mod radix < 16" using less.prems(2) by linarith
    moreover have "show_radix radix n = show_radix radix (n div radix) @ [digit (n mod radix)]"
      using False less.prems(1) by (subst show_radix.simps) simp
    ultimately show ?thesis
      using less.prems False less.IH [of "n div radix"] by (auto intro: exI [of _ "n mod radix"])
  qed
qed

lemma show_radix_nonempty [simp]: "show_radix radix n \<noteq> []"
  by (subst show_radix.simps) simp

lemma digit_facts:
  "d < 16 \<Longrightarrow> digit d < 0x80 \<and> digit d \<noteq> 43 \<and> digit d \<noteq> 45 \<and> digit d \<noteq> LF \<and> digit d \<noteq> CR \<and> digit d \<noteq> 59 \<and>
     digit d \<noteq> 58 \<and> digit d \<noteq> 32 \<and> [digit d] \<notin> set white_space"
proof -
  have "\<forall>d<16. digit d < 0x80 \<and> digit d \<noteq> 43 \<and> digit d \<noteq> 45 \<and> digit d \<noteq> LF \<and> digit d \<noteq> CR \<and> digit d \<noteq> 59 \<and>
     digit d \<noteq> 58 \<and> digit d \<noteq> 32 \<and> [digit d] \<notin> set white_space" by code_simp
  then show "d < 16 \<Longrightarrow> digit d < 0x80 \<and> digit d \<noteq> 43 \<and> digit d \<noteq> 45 \<and> digit d \<noteq> LF \<and> digit d \<noteq> CR \<and> digit d \<noteq> 59 \<and>
     digit d \<noteq> 58 \<and> digit d \<noteq> 32 \<and> [digit d] \<notin> set white_space" by blast
qed

lemma parse_show:
  assumes "2 \<le> radix" and "radix \<le> 16" and "n < 2 ^ bits"
  shows "parse_uint bits radix (show_radix radix n) = Some n"
proof -
  obtain b s where b: "show_radix radix n = b # s" by (cases "show_radix radix n") auto
  then obtain d where "d < 16" "b = digit d" using show_radix_digits [OF assms(1,2), of b n] by auto
  then show ?thesis
    using digit_facts [of d] digits_value_show [OF assms(1,2), of n] assms(3) b
    by (auto simp: parse_uint_def ascii_def)
qed

section \<open>Display of an IPv6 address\<close>

definition segments :: "bytes \<Rightarrow> nat list" where
  "segments a = map (\<lambda>i. 256 * unat (a ! (2 * i)) + unat (a ! (2 * i + 1))) [0..<8]"

text \<open>The length of the run of zeros that starts at the head.\<close>
definition zero_run :: "nat list \<Rightarrow> nat" where
  "zero_run s = length (takeWhile (\<lambda>x. x = 0) s)"

text \<open>The first longest run: its start and length.\<close>
fun longest_zero :: "nat \<Rightarrow> nat list \<Rightarrow> nat \<times> nat" where
  "longest_zero i [] = (i, 0)"
| "longest_zero i (x # s) =
     (let (j, n) = longest_zero (Suc i) s; m = zero_run (x # s)
      in if n \<le> m then (i, m) else (j, n))"

fun intersperse :: "bytes \<Rightarrow> bytes list \<Rightarrow> bytes" where
  "intersperse sep [] = []"
| "intersperse sep [x] = x"
| "intersperse sep (x # y # s) = x @ sep @ intersperse sep (y # s)"

definition show_ipv6 :: "bytes \<Rightarrow> rust_string" where
  "show_ipv6 a =
     (if take 10 a = replicate 10 0 \<and> take 2 (drop 10 a) = [0xff, 0xff] then
        ascii ''::ffff:'' @ intersperse (ascii ''.'') (map (\<lambda>b. show_dec (unat b)) (drop 12 a))
      else
        let s = segments a; (i, n) = longest_zero 0 s
        in if 1 < n then
             intersperse (ascii '':'') (map show_hex (take i s)) @ ascii ''::'' @
             intersperse (ascii '':'') (map show_hex (drop (i + n) s))
           else intersperse (ascii '':'') (map show_hex s))"

end
