(* ===== verification/HttpCodec.thy ===== *)
theory HttpCodec
  imports RustStr DnsCodec
begin

text \<open>
  \<open>shim/src/meshhttp.rs\<close>, the message code of the in-process HTTP client: \<open>aaaa_query\<close>,
  \<open>build_request\<close>, \<open>header_end\<close>, \<open>header_value\<close>, \<open>is_complete\<close>, \<open>parse_response\<close> and
  \<open>dechunk\<close>. Lengths are \<open>usize\<close> of 64 bits, and \<open>end + len\<close> in \<open>is_complete\<close> wraps as in
  the release profile.
\<close>

section \<open>Requests\<close>

definition CRLF :: bytes where "CRLF = [CR, LF]"

definition wire_label :: "bytes \<Rightarrow> bytes" where
  "wire_label l = word_of_nat (min (length l) 63) # take (min (length l) 63) l"

definition aaaa_query :: "u16 \<Rightarrow> rust_string \<Rightarrow> bytes" where
  "aaaa_query ident name =
     to_be16 ident @ [1, 0, 0, 1, 0, 0, 0, 0, 0, 0] @
     concat (map wire_label (filter (\<lambda>l. l \<noteq> []) (str_split 46 name))) @ [0, 0, 28, 0, 1]"

definition header_ok :: "rust_string \<times> rust_string \<Rightarrow> bool" where
  "header_ok = (\<lambda>(name, value).
     \<not> (CR \<in> set name \<or> LF \<in> set name \<or> 58 \<in> set name) \<and> \<not> (CR \<in> set value \<or> LF \<in> set value))"

definition header_line :: "rust_string \<times> rust_string \<Rightarrow> rust_string" where
  "header_line = (\<lambda>(name, value). name @ ascii '': '' @ value)"

definition build_request ::
  "bytes \<Rightarrow> u16 \<Rightarrow> rust_string \<Rightarrow> (rust_string \<times> rust_string) list \<Rightarrow> bytes" where
  "build_request addr port path headers =
     ascii ''GET '' @ path @ ascii '' HTTP/1.1'' @ CRLF @
     ascii ''Host: ['' @ show_ipv6 addr @ ascii '']:'' @ show_dec (unat port) @ CRLF @
     ascii ''Accept: application/json'' @ CRLF @ ascii ''Connection: close'' @ CRLF @
     concat (map (\<lambda>h. header_line h @ CRLF) (filter header_ok headers)) @ CRLF"

section \<open>Responses\<close>

record response =
  status :: u16
  body :: bytes

definition header_end :: "bytes \<Rightarrow> nat option" where
  "header_end data = map_option (\<lambda>i. i + 4) (find_window (CRLF @ CRLF) data)"

fun find_header :: "rust_string \<Rightarrow> rust_string list \<Rightarrow> rust_string option" where
  "find_header name [] = None"
| "find_header name (line # ls) =
     (case split_once 58 line of
        None \<Rightarrow> find_header name ls
      | Some (k, v) \<Rightarrow>
          if eq_ignore_ascii_case (trim k) name then Some (trim v) else find_header name ls)"

definition header_value :: "rust_string \<Rightarrow> rust_string \<Rightarrow> rust_string option" where
  "header_value head name = find_header name (drop 1 (str_lines head))"

definition is_complete :: "bytes \<Rightarrow> bool" where
  "is_complete data =
     (case header_end data of
        None \<Rightarrow> False
      | Some e \<Rightarrow>
          (let head = from_utf8_lossy (take e data)
           in case Option.bind (header_value head (ascii ''content-length'')) (parse_uint 64 10) of
                None \<Rightarrow> False
              | Some len \<Rightarrow> (e + len) mod 2 ^ 64 \<le> length data))"

text \<open>The chunks from \<open>raw\<close> on, appended to \<open>out\<close>.\<close>
function dechunk_from :: "bytes \<Rightarrow> bytes \<Rightarrow> string + bytes" where
  "dechunk_from raw out =
     (case find_window CRLF raw of
        None \<Rightarrow> Inl ''chunked body cut short''
      | Some line_end \<Rightarrow>
          (case parse_uint 64 16 (trim (hd (str_split 59 (from_utf8_lossy (take line_end raw))))) of
             None \<Rightarrow> Inl ''bad chunk size''
           | Some n \<Rightarrow>
               if n = 0 then Inr out
               else
                 (case get_range (drop (line_end + 2) raw) 0 n of
                    None \<Rightarrow> Inl ''chunked body cut short''
                  | Some chunk \<Rightarrow>
                      (case get_from (drop (line_end + 2) raw) (n + 2) of
                         None \<Rightarrow> Inl ''chunked body cut short''
                       | Some rest \<Rightarrow> dechunk_from rest (out @ chunk)))))"
  by pat_completeness auto
termination
  by (relation "measure (\<lambda>(raw, _). length raw)")
    (auto simp: get_from_eq_Some_iff CRLF_def dest!: find_window_Some)

declare dechunk_from.simps [simp del]

definition dechunk :: "bytes \<Rightarrow> string + bytes" where
  "dechunk raw = dechunk_from raw []"

definition parse_status :: "rust_string \<Rightarrow> nat option" where
  "parse_status head = do {
     l \<leftarrow> (case str_lines head of [] \<Rightarrow> None | l # _ \<Rightarrow> Some l);
     l \<leftarrow> strip_prefix (ascii ''HTTP/1.'') l;
     s \<leftarrow> str_get l 2 5;
     parse_uint 16 10 s
   }"

definition parse_response :: "bytes \<Rightarrow> string + response" where
  "parse_response data =
     (case header_end data of
        None \<Rightarrow> Inl ''no HTTP response (connection closed before the headers)''
      | Some e \<Rightarrow>
          (let head = from_utf8_lossy (take e data)
           in case parse_status head of
                None \<Rightarrow> Inl ''not an HTTP response''
              | Some st \<Rightarrow>
                  (let raw = drop e data;
                       chunked =
                         (case header_value head (ascii ''transfer-encoding'') of
                            None \<Rightarrow> False
                          | Some v \<Rightarrow> str_contains (map ascii_lower v) (ascii ''chunked''));
                       b =
                         (if chunked then dechunk raw
                          else
                            (case Option.bind (header_value head (ascii ''content-length'')) (parse_uint 64 10) of
                               Some len \<Rightarrow>
                                 (case get_range raw 0 len of
                                    None \<Rightarrow> Inl ''response body cut short''
                                  | Some b \<Rightarrow> Inr b)
                             | None \<Rightarrow> Inr raw))
                   in case b of
                        Inl e \<Rightarrow> Inl e
                      | Inr b \<Rightarrow> Inr \<lparr>status = word_of_nat st, body = b\<rparr>)))"

section \<open>Lines\<close>

text \<open>A line that a message may carry: not empty, and without a line break.\<close>
definition line_ok :: "bytes \<Rightarrow> bool" where
  "line_ok l \<longleftrightarrow> l \<noteq> [] \<and> CR \<notin> set l \<and> LF \<notin> set l"

definition as_lines :: "bytes list \<Rightarrow> bytes" where
  "as_lines ls = concat (map (\<lambda>l. l @ CRLF) ls)"

lemma as_lines_simps [simp]: "as_lines [] = []" "as_lines (l # ls) = l @ CRLF @ as_lines ls"
  "as_lines (a @ b) = as_lines a @ as_lines b"
  by (simp_all add: as_lines_def)

lemma length_CRLF [simp]: "length CRLF = 2"
  by (simp add: CRLF_def)

lemma LF_neq_CR [simp]: "LF \<noteq> CR" "CR \<noteq> LF"
  by (simp_all add: LF_def CR_def)

lemma find_window_neq: "x \<noteq> p \<Longrightarrow> find_window (p # ps) (x # xs) = map_option Suc (find_window (p # ps) xs)"
  by simp

lemma find_window_prefix:
  "p \<notin> set a \<Longrightarrow> find_window (p # ps) (a @ b) = map_option (\<lambda>i. length a + i) (find_window (p # ps) b)"
proof (induction a)
  case Nil
  then show ?case by (simp add: option.map_ident)
next
  case (Cons x a)
  then have "find_window (p # ps) (x # a @ b) = map_option Suc (find_window (p # ps) (a @ b))"
    by (intro find_window_neq) auto
  then show ?case using Cons by (simp add: option.map_comp o_def)
qed

lemma find_blank_line:
  assumes "\<forall>l\<in>set ls. line_ok l" and "ls \<noteq> []"
  shows "find_window (CRLF @ CRLF) (as_lines ls @ CRLF @ b) = Some (length (as_lines ls) - 2)"
  using assms
proof (induction ls)
  case (Cons l ls)
  have p: "CRLF @ CRLF = CR # [LF, CR, LF]" by (simp add: CRLF_def)
  have l: "CR \<notin> set l" using Cons.prems by (simp add: line_ok_def)
  show ?case
  proof (cases ls)
    case Nil
    then show ?thesis using l by (simp add: p find_window_prefix) (simp add: CRLF_def)
  next
    case (Cons l' ls')
    obtain x r where x: "as_lines ls @ CRLF @ b = x # r" "x \<noteq> CR"
      using Cons.prems Cons by (cases l') (auto simp: line_ok_def)
    have len: "2 \<le> length (as_lines ls)" using Cons by (simp add: CRLF_def)
    have "find_window (CR # [LF, CR, LF]) (CR # LF # x # r) = map_option (\<lambda>i. i + 2) (find_window (CR # [LF, CR, LF]) (x # r))"
      using x(2) by (simp add: option.map_comp o_def)
    then show ?thesis
      using Cons.IH Cons.prems l len Cons x(1)
      by (simp add: p find_window_prefix option.map_comp o_def del: find_window.simps)
        (simp add: CRLF_def x(1) [symmetric] del: find_window.simps)
  qed
qed simp

lemma lines_from_line: "LF \<notin> set l \<Longrightarrow> lines_from acc (l @ CRLF @ s) = (acc @ l) # lines_from [] s"
  by (induction l arbitrary: acc) (auto simp: CRLF_def strip_cr_def)

lemma str_lines_as_lines: "\<forall>l\<in>set ls. LF \<notin> set l \<Longrightarrow> str_lines (as_lines ls) = ls"
  unfolding str_lines_def by (induction ls) (simp_all add: lines_from_line)

section \<open>Trimming\<close>

text \<open>A byte that is printable ASCII.\<close>
definition visible :: "u8 \<Rightarrow> bool" where
  "visible b \<longleftrightarrow> 32 < b \<and> b < 0x7f"

lemma white_not_visible: "\<forall>w\<in>set white_space. \<not> visible (hd w) \<and> \<not> visible (last w) \<and> w \<noteq> []"
  by code_simp

lemma trim_start_visible:
  assumes "s = [] \<or> visible (hd s)"
  shows "trim_start s = s"
proof -
  have "\<not> starts_with s w" if "w \<in> set white_space" for w
    using white_not_visible that assms by (cases w) (auto simp: starts_with_iff)
  then have "find (starts_with s) white_space = None" by (auto simp: find_None_iff)
  then show ?thesis by (simp add: trim_start.simps)
qed

lemma trim_end_visible:
  assumes "s = [] \<or> visible (last s)"
  shows "trim_end s = s"
proof -
  have "\<not> ends_with s w" if "w \<in> set white_space" for w
    using white_not_visible that assms by (cases w rule: rev_cases) (auto simp: ends_with_iff)
  then have "find (ends_with s) white_space = None" by (auto simp: find_None_iff)
  then show ?thesis by (simp add: trim_end.simps)
qed

lemma trim_visible: "s = [] \<or> visible (hd s) \<and> visible (last s) \<Longrightarrow> trim s = s"
  by (auto simp: trim_def trim_start_visible trim_end_visible)

lemma trim_space: "s = [] \<or> visible (hd s) \<and> visible (last s) \<Longrightarrow> trim (32 # s) = s"
proof -
  assume s: "s = [] \<or> visible (hd s) \<and> visible (last s)"
  have "find (starts_with (32 # s)) white_space = Some [32]"
    by (simp add: white_space_def starts_with_def)
  then have "trim_start (32 # s) = trim_start s" by (simp add: trim_start.simps [of "32 # s"])
  then show ?thesis using trim_visible [OF s] by (simp add: trim_def)
qed

section \<open>Chunks\<close>

text \<open>A chunk extension: nothing, or from a semicolon to the end of the line.\<close>
definition ext_ok :: "bytes \<Rightarrow> bool" where
  "ext_ok e \<longleftrightarrow> (e = [] \<or> hd e = 59) \<and> CR \<notin> set e \<and> (\<forall>b\<in>set e. b < 0x80)"

definition size_line :: "nat \<Rightarrow> bytes \<Rightarrow> bytes" where
  "size_line n e = show_hex n @ e"

definition chunk_frame :: "bytes \<times> bytes \<Rightarrow> bytes" where
  "chunk_frame = (\<lambda>(c, e). size_line (length c) e @ CRLF @ c @ CRLF)"

lemma hd_split_from: "c \<notin> set a \<Longrightarrow> b = [] \<or> hd b = c \<Longrightarrow> hd (split_from c acc (a @ b)) = acc @ a"
proof (induction a arbitrary: acc)
  case Nil
  then show ?case by (cases b) auto
qed auto

lemma size_line_parses:
  assumes "ext_ok e" and "n < 2 ^ 64"
  shows "CR \<notin> set (size_line n e)"
    and "parse_uint 64 16 (trim (hd (str_split 59 (from_utf8_lossy (size_line n e))))) = Some n"
proof -
  have d: "\<forall>b\<in>set (show_hex n). b < 0x80 \<and> b \<noteq> CR \<and> b \<noteq> 59"
    using show_radix_digits [of 16 _ n] digit_facts by fastforce
  then show "CR \<notin> set (size_line n e)" using assms by (auto simp: size_line_def ext_ok_def)
  have "from_utf8_lossy (size_line n e) = size_line n e"
    using d assms by (intro from_utf8_lossy_ascii_all) (auto simp: size_line_def ext_ok_def)
  moreover have "hd (str_split 59 (size_line n e)) = show_hex n"
    using d assms hd_split_from [of 59 "show_hex n" e "[]"] by (auto simp: str_split_def size_line_def ext_ok_def)
  moreover have "visible (hd (show_hex n)) \<and> visible (last (show_hex n))"
  proof -
    have "\<forall>d<16. visible (digit d)" by code_simp
    then have "\<forall>b\<in>set (show_hex n). visible b" using show_radix_digits [of 16 _ n] by fastforce
    then show ?thesis by simp
  qed
  ultimately show "parse_uint 64 16 (trim (hd (str_split 59 (from_utf8_lossy (size_line n e))))) = Some n"
    using assms(2) by (simp add: trim_visible parse_show)
qed

lemma dechunk_line:
  assumes "ext_ok e" and "n < 2 ^ 64"
  shows "dechunk_from (size_line n e @ CRLF @ r) out =
    (if n = 0 then Inr out
     else if n + 2 \<le> length r then dechunk_from (drop (n + 2) r) (out @ take n r)
     else Inl ''chunked body cut short'')"
proof -
  note l = size_line_parses [OF assms]
  have w: "find_window CRLF (size_line n e @ CRLF @ r) = Some (length (size_line n e))"
    by (rule find_window_skip [of CRLF CR "[LF]"]) (use l in \<open>simp_all add: CRLF_def\<close>)
  define M where "M = size_line n e @ CRLF @ r"
  have d: "drop (length (size_line n e) + 2) M = r" and t: "take (length (size_line n e)) M = size_line n e"
    by (simp_all add: M_def)
  show ?thesis
    unfolding M_def [symmetric]
    by (subst dechunk_from.simps)
      (simp add: w [folded M_def] l d [simplified] t get_range_def get_from_def)
qed

lemma window_cut:
  assumes "CR \<notin> set l" and "k < length l + 2"
  shows "find_window CRLF (take k (l @ CRLF @ r)) = None"
proof -
  have "take k (l @ CRLF @ r) = take k l @ take (k - length l) [CR]"
    using assms(2) by (cases "k \<le> length l") (auto simp: CRLF_def take_Cons' less_Suc_eq)
  moreover have "CR \<notin> set (take k l)" using assms(1) by (auto dest: in_set_takeD)
  moreover have "find_window CRLF (take m [CR]) = None" for m by (cases m) (simp_all add: CRLF_def)
  ultimately show ?thesis by (simp add: CRLF_def find_window_prefix)
qed

section \<open>Header lookup\<close>

text \<open>A header name as a client or server writes it.\<close>
definition name_ok :: "bytes \<Rightarrow> bool" where
  "name_ok n \<longleftrightarrow> n \<noteq> [] \<and> (\<forall>b\<in>set n. visible b \<and> b \<noteq> 58)"

definition value_ok :: "bytes \<Rightarrow> bool" where
  "value_ok v \<longleftrightarrow> (v = [] \<or> visible (hd v) \<and> visible (last v)) \<and> (\<forall>b\<in>set v. b < 0x80 \<and> b \<noteq> CR \<and> b \<noteq> LF)"

definition lookup_header :: "(bytes \<times> bytes) list \<Rightarrow> rust_string \<Rightarrow> rust_string option" where
  "lookup_header hs name = map_option snd (find (\<lambda>h. eq_ignore_ascii_case (fst h) name) hs)"

lemma split_once_header: "58 \<notin> set n \<Longrightarrow> split_once 58 (n @ 58 # v) = Some (n, v)"
  by (simp add: split_once_def takeWhile_append dropWhile_append)

lemma header_line_eq: "header_line (n, v) = n @ 58 # 32 # v"
  by (simp add: header_line_def ascii_def)

lemma find_header_lines:
  "\<forall>(n, v)\<in>set hs. name_ok n \<and> value_ok v \<Longrightarrow>
   find_header name (map header_line hs @ [[]]) = lookup_header hs name"
proof (induction hs)
  case Nil
  then show ?case by (simp add: lookup_header_def split_once_def)
next
  case (Cons h hs)
  obtain n v where h: "h = (n, v)" by (cases h)
  have n: "name_ok n" and v: "value_ok v" using Cons.prems h by auto
  have "split_once 58 (header_line h) = Some (n, 32 # v)"
    using n by (auto simp: h header_line_eq name_ok_def intro!: split_once_header)
  moreover have "trim n = n" using n by (auto simp: name_ok_def intro!: trim_visible)
  moreover have "trim (32 # v) = v" using v by (intro trim_space) (simp add: value_ok_def)
  ultimately show ?case using Cons h by (simp add: lookup_header_def)
qed

lemma line_ok_header: "name_ok n \<Longrightarrow> value_ok v \<Longrightarrow> line_ok (header_line (n, v))"
  by (auto simp: line_ok_def header_line_eq name_ok_def value_ok_def visible_def CR_def LF_def)

lemma header_line_ascii: "name_ok n \<Longrightarrow> value_ok v \<Longrightarrow> b \<in> set (header_line (n, v)) \<Longrightarrow> b < 0x80"
  by (auto simp: header_line_eq name_ok_def value_ok_def visible_def word_less_nat_alt)

text \<open>The head of a response: its status line, its headers, the blank line.\<close>
definition head_of :: "bytes \<Rightarrow> (bytes \<times> bytes) list \<Rightarrow> bytes" where
  "head_of st hs = as_lines (st # map header_line hs) @ CRLF"

definition head_ok :: "bytes \<Rightarrow> (bytes \<times> bytes) list \<Rightarrow> bool" where
  "head_ok st hs \<longleftrightarrow> line_ok st \<and> (\<forall>b\<in>set st. b < 0x80) \<and> (\<forall>(n, v)\<in>set hs. name_ok n \<and> value_ok v)"

lemma head_lines:
  assumes "head_ok st hs"
  shows "header_end (head_of st hs @ b) = Some (length (head_of st hs))"
    and "from_utf8_lossy (head_of st hs) = head_of st hs"
    and "str_lines (head_of st hs) = st # map header_line hs @ [[]]"
    and "header_value (head_of st hs) name = lookup_header hs name"
proof -
  have ok: "\<forall>l\<in>set (st # map header_line hs). line_ok l"
    using assms line_ok_header by (auto simp: head_ok_def)
  from find_blank_line [OF this, of b]
  show "header_end (head_of st hs @ b) = Some (length (head_of st hs))"
    by (simp add: header_end_def head_of_def)
  have "\<forall>b\<in>set (as_lines ls). b < 0x80" if "\<forall>l\<in>set ls. \<forall>b\<in>set l. b < 0x80" for ls
    using that by (induction ls) (auto simp: CRLF_def CR_def LF_def)
  from this [of "st # map header_line hs"] header_line_ascii assms
  have "\<forall>b\<in>set (head_of st hs). b < 0x80"
    unfolding head_of_def head_ok_def set_append by (fastforce simp: CRLF_def CR_def LF_def)
  then show "from_utf8_lossy (head_of st hs) = head_of st hs" by (rule from_utf8_lossy_ascii_all)
  have "head_of st hs = as_lines (st # map header_line hs @ [[]])" by (simp add: head_of_def)
  moreover have "\<forall>l\<in>set (st # map header_line hs @ [[]]). LF \<notin> set l" using ok by (auto simp: line_ok_def)
  ultimately show lines: "str_lines (head_of st hs) = st # map header_line hs @ [[]]"
    by (metis str_lines_as_lines)
  show "header_value (head_of st hs) name = lookup_header hs name"
    using find_header_lines [of hs name] assms by (simp add: header_value_def lines head_ok_def)
qed

lemma status_of_head:
  assumes "head_ok (ascii ''HTTP/1.1 '' @ code @ reason) hs" and "length code = 3"
    and "parse_uint 16 10 code = Some st"
  shows "parse_status (head_of (ascii ''HTTP/1.1 '' @ code @ reason) hs) = Some st"
proof -
  have st: "strip_prefix (ascii ''HTTP/1.'') (ascii ''HTTP/1.1 '' @ code @ reason) = Some (ascii ''1 '' @ code @ reason)"
    by (simp add: strip_prefix_def starts_with_def ascii_def)
  have "\<forall>b\<in>set (code @ reason). b < 0x80"
    using assms(1) by (auto simp: head_ok_def)
  then have ascii_code: "\<forall>b\<in>set (code @ reason). \<not> is_cont b"
    by (auto simp: is_cont_def not_le)
  have "str_get (ascii ''1 '' @ code @ reason) 2 5 = Some code"
  proof -
    have "code ! 0 \<in> set (code @ reason)" using assms(2) by (auto simp: nth_mem)
    moreover have "reason = [] \<or> reason ! 0 \<in> set (code @ reason)" by (cases reason) auto
    ultimately have "is_char_boundary (ascii ''1 '' @ code @ reason) 2" "is_char_boundary (ascii ''1 '' @ code @ reason) 5"
      using ascii_code assms(2) by (auto simp: is_char_boundary_def ascii_def nth_append)
    then show ?thesis using assms(2) by (simp add: str_get_def get_range_def ascii_def)
  qed
  then show ?thesis
    using assms(3) st by (simp add: parse_status_def head_lines [OF assms(1)])
qed

section \<open>The identity query\<close>

lemma str_split_join:
  "\<forall>l\<in>set ls. c \<notin> set l \<Longrightarrow> c \<notin> set l \<Longrightarrow>
   split_from c acc (l @ concat (map (\<lambda>x. c # x) ls)) = (acc @ l) # ls"
proof (induction l arbitrary: acc)
  case Nil
  then show ?case
  proof (induction ls arbitrary: acc)
    case (Cons m ls)
    have "split_from c acc' (m @ concat (map (\<lambda>x. c # x) ls)) = (acc' @ m) # ls" for acc'
      using Cons.prems(1)
    proof (induction m arbitrary: acc')
      case Nil
      then show ?case using Cons.IH [of acc'] by simp
    qed auto
    then show ?case by simp
  qed simp
qed auto

lemma split_join_dots:
  assumes "ls \<noteq> []" and "\<forall>l\<in>set ls. 46 \<notin> set l"
  shows "str_split 46 (join_dots ls) = ls"
proof -
  have dot: "(\<lambda>x. ascii ''.'' @ x) = (#) 46" by (rule ext) (simp add: ascii_def)
  show ?thesis
    using assms str_split_join [of "tl ls" 46 "hd ls" "[]"]
    by (cases ls) (simp_all add: str_split_def dot)
qed

lemma wire_labels: "\<forall>l\<in>set ls. length l \<le> 63 \<Longrightarrow> concat (map wire_label ls) @ [0] = wire_name ls"
  by (induction ls) (simp_all add: wire_label_def wire_name_def)

section \<open>Properties\<close>

text \<open>
  C29. Chunked decoding inverts chunked encoding: for any non-empty chunks, each with any
  chunk extension, and any trailer, the decoder returns exactly the concatenated data; a
  body cut anywhere before the end of its last-chunk line is refused, never accepted short.
\<close>
theorem dechunk_inverts_chunking:
  assumes "\<forall>(c, e)\<in>set chunks. c \<noteq> [] \<and> length c < 2 ^ 64 \<and> ext_ok e" and "ext_ok e0"
  defines "msg \<equiv> concat (map chunk_frame chunks) @ size_line 0 e0 @ CRLF"
  shows "dechunk (msg @ trailer) = Inr (concat (map fst chunks)) \<and>
         (\<forall>k<length msg. dechunk (take k msg) = Inl ''chunked body cut short'')"
proof -
  have whole: "dechunk_from (concat (map chunk_frame chunks) @ size_line 0 e0 @ CRLF @ trailer) out =
        Inr (out @ concat (map fst chunks))" for out
    using assms(1)
  proof (induction chunks arbitrary: out)
    case Nil
    then show ?case using dechunk_line [OF assms(2), of 0] by simp
  next
    case (Cons ce chunks)
    obtain c e where ce: "ce = (c, e)" by (cases ce)
    have c: "ext_ok e" "length c < 2 ^ 64" "c \<noteq> []" using Cons.prems ce by auto
    show ?case
      using dechunk_line [OF c(1,2)] c(3) Cons by (simp add: ce chunk_frame_def)
  qed
  have cut: "dechunk_from (take k (concat (map chunk_frame chunks) @ size_line 0 e0 @ CRLF)) out = Inl ''chunked body cut short''"
    if "k < length (concat (map chunk_frame chunks) @ size_line 0 e0 @ CRLF)" for k out
    using assms(1) that
  proof (induction chunks arbitrary: out k)
    case Nil
    then have "find_window CRLF (take k (size_line 0 e0 @ CRLF @ [])) = None"
      using size_line_parses(1) [OF assms(2), of 0] by (intro window_cut) simp_all
    then show ?case by (subst dechunk_from.simps) simp
  next
    case (Cons ce chunks)
    obtain c e where ce: "ce = (c, e)" by (cases ce)
    have c: "ext_ok e" "length c < 2 ^ 64" "c \<noteq> []" using Cons.prems ce by auto
    define r where "r = concat (map chunk_frame chunks) @ size_line 0 e0 @ CRLF"
    define l where "l = size_line (length c) e"
    have m: "concat (map chunk_frame (ce # chunks)) @ size_line 0 e0 @ CRLF = l @ CRLF @ (c @ CRLF @ r)"
      by (simp add: ce chunk_frame_def l_def r_def)
    show ?case
    proof (cases "k < length l + 2")
      case True
      then have "find_window CRLF (take k (l @ CRLF @ (c @ CRLF @ r))) = None"
        using size_line_parses(1) [OF c(1,2)] by (intro window_cut) (simp_all add: l_def)
      then show ?thesis unfolding m by (subst dechunk_from.simps) simp
    next
      case False
      define j where "j = k - (length l + 2)"
      have t: "take k (l @ CRLF @ (c @ CRLF @ r)) = l @ CRLF @ take j (c @ CRLF @ r)"
        using False by (simp add: j_def)
      have j: "j < length c + 2 + length r" using Cons.prems(2) False unfolding m by (simp add: j_def)
      show ?thesis
      proof (cases "length c + 2 \<le> j")
        case True
        have "dechunk_from (take (j - (length c + 2)) r) (out @ c) = Inl ''chunked body cut short''"
          using Cons.prems(1) True j unfolding r_def by (intro Cons.IH) auto
        then show ?thesis
          unfolding m t using dechunk_line [OF c(1,2)] c(3) True j by (simp add: l_def)
      next
        case False
        then have "\<not> length c + 2 \<le> length (take j (c @ CRLF @ r))" by simp
          then have "dechunk_from (l @ CRLF @ take j (c @ CRLF @ r)) out = Inl ''chunked body cut short''"
            using c(3) by (simp only: l_def dechunk_line [OF c(1,2)]) simp
          then show ?thesis unfolding m t .
      qed
    qed
  qed
  show ?thesis using whole [of "[]"] cut [of _ "[]"] by (simp add: dechunk_def msg_def)
qed

text \<open>
  A well-formed response is read as HTTP says: the status is the three digits of the
  status line; headers are found by name regardless of case, the first of a name wins; a
  chunked body is decoded, otherwise a Content-Length cuts the body to size and refuses a
  short one, otherwise the body is everything up to the close. \<open>is_complete\<close> holds from
  the moment the announced body is there.
\<close>
theorem parse_response_correct:
  assumes "head_ok (ascii ''HTTP/1.1 '' @ code @ reason) hs" and "length code = 3"
    and "parse_uint 16 10 code = Some st"
  defines "head \<equiv> head_of (ascii ''HTTP/1.1 '' @ code @ reason) hs"
  defines "len \<equiv> Option.bind (lookup_header hs (ascii ''content-length'')) (parse_uint 64 10)"
  defines "chunked \<equiv> \<exists>v. lookup_header hs (ascii ''transfer-encoding'') = Some v \<and>
                         str_contains (map ascii_lower v) (ascii ''chunked'')"
  shows "parse_response (head @ b) =
      (if chunked then map_sum id (\<lambda>b. \<lparr>status = word_of_nat st, body = b\<rparr>) (dechunk b)
       else case len of
              None \<Rightarrow> Inr \<lparr>status = word_of_nat st, body = b\<rparr>
            | Some n \<Rightarrow> if n \<le> length b then Inr \<lparr>status = word_of_nat st, body = take n b\<rparr>
                        else Inl ''response body cut short'') \<and>
    (\<forall>n. len = Some n \<and> length head + n < 2 ^ 64 \<longrightarrow> (is_complete (head @ b) \<longleftrightarrow> n \<le> length b))"
proof -
  note h = head_lines [OF assms(1), folded head_def]
  have ps: "parse_status head = Some st"
    unfolding head_def by (rule status_of_head [OF assms(1-3)])
  have "parse_response (head @ b) =
      (if chunked then map_sum id (\<lambda>b. \<lparr>status = word_of_nat st, body = b\<rparr>) (dechunk b)
       else case len of
              None \<Rightarrow> Inr \<lparr>status = word_of_nat st, body = b\<rparr>
            | Some n \<Rightarrow> if n \<le> length b then Inr \<lparr>status = word_of_nat st, body = take n b\<rparr>
                        else Inl ''response body cut short'')"
    by (cases "dechunk b")
      (auto simp: parse_response_def h ps chunked_def len_def get_range_def Let_def split: option.split)
  moreover have "is_complete (head @ b) \<longleftrightarrow> n \<le> length b" if "len = Some n" "length head + n < 2 ^ 64" for n
    using that by (simp add: is_complete_def h len_def)
  ultimately show ?thesis by blast
qed

text \<open>
  C30. No header can corrupt the request: for a path without line breaks, whatever names
  and values the caller passes, the request is exactly the request line, the three fixed
  headers and those extra headers that carry no line break and no colon in their name,
  one line each, and its head ends at its last byte.
\<close>
theorem build_request_lines:
  assumes "CR \<notin> set path" and "LF \<notin> set path"
  shows "\<exists>host. str_lines (build_request addr port path headers) =
      [ascii ''GET '' @ path @ ascii '' HTTP/1.1'', host, ascii ''Accept: application/json'',
       ascii ''Connection: close''] @ map header_line (filter header_ok headers) @ [[]] \<and>
    starts_with host (ascii ''Host: ['') \<and>
    header_end (build_request addr port path headers) = Some (length (build_request addr port path headers))"
proof -
  define host where "host = ascii ''Host: ['' @ show_ipv6 addr @ ascii '']:'' @ show_dec (unat port)"
  define ls where "ls = [ascii ''GET '' @ path @ ascii '' HTTP/1.1'', host, ascii ''Accept: application/json'',
       ascii ''Connection: close''] @ map header_line (filter header_ok headers)"
  have r: "build_request addr port path headers = as_lines ls @ CRLF"
    by (simp add: build_request_def ls_def host_def as_lines_def o_def)
  have digits: "CR \<notin> set (show_radix r n)" "LF \<notin> set (show_radix r n)" if "2 \<le> r" "r \<le> 16" for r n
    using show_radix_digits [OF that, of _ n] digit_facts by fastforce+
  have inter: "x \<notin> set (intersperse sep xs)" if "x \<notin> set sep" "\<forall>y\<in>set xs. x \<notin> set y" for x sep xs
    using that by (induction sep xs rule: intersperse.induct) auto
  have v6: "CR \<notin> set (show_ipv6 addr)" "LF \<notin> set (show_ipv6 addr)"
    by (auto simp: show_ipv6_def Let_def ascii_def CR_def LF_def split: prod.splits if_splits
        dest!: inter [THEN notE, rotated -1]) (use digits in \<open>auto simp: CR_def LF_def\<close>)
  have "line_ok l" if "l \<in> set ls" for l
    using that assms v6 digits [of 10]
    by (auto simp: ls_def host_def line_ok_def header_line_def header_ok_def ascii_def CR_def LF_def)
  then have ok: "\<forall>l\<in>set ls. line_ok l" by blast
  have "str_lines (as_lines (ls @ [[]])) = ls @ [[]]"
    using ok by (intro str_lines_as_lines) (auto simp: line_ok_def)
  then have "str_lines (build_request addr port path headers) = ls @ [[]]" by (simp add: r)
  moreover have "header_end (build_request addr port path headers) = Some (length (as_lines ls) + 2)"
    using find_blank_line [OF ok, of "[]"] by (simp add: r header_end_def ls_def)
  ultimately show ?thesis
    by (intro exI [of _ host]) (simp add: ls_def host_def starts_with_def ascii_def r [unfolded ls_def])
qed

text \<open>
  The query that registers a destination asks for exactly the name given, for type
  AAAA, under the given id: what the responder parses is the lowercased name.
\<close>
theorem aaaa_query_asks_name:
  assumes "\<forall>l\<in>set labels. label_ok l \<and> 46 \<notin> set l" and "labels \<noteq> []"
    and "length (join_dots (map (map ascii_lower) labels)) \<le> 254"
  shows "parse_qname (aaaa_query ident (join_dots labels)) = Some (Some (join_dots (map (map ascii_lower) labels))) \<and>
    qtype_of (aaaa_query ident (join_dots labels)) = Some 28 \<and>
    take 2 (aaaa_query ident (join_dots labels)) = to_be16 ident"
proof -
  define hdr where "hdr = to_be16 ident @ [1, 0, 0, 1, 0, 0, 0, 0, 0, 0]"
  have hdr: "length hdr = 12" "be16 (hdr ! 4) (hdr ! 5) \<noteq> 0" by (simp_all add: hdr_def nth_append be16_def)
  have ne: "\<forall>l\<in>set labels. l \<noteq> []" using assms(1) by (auto simp: label_ok_def)
  have "filter (\<lambda>l. l \<noteq> []) (str_split 46 (join_dots labels)) = labels"
    using assms(1,2) ne by (simp add: split_join_dots)
  then have q: "aaaa_query ident (join_dots labels) = hdr @ wire_name labels @ [0, 28, 0, 1]"
    using wire_labels [of labels] assms(1) by (simp add: aaaa_query_def hdr_def label_ok_def)
  have j: "join_onto [] (map (map ascii_lower) labels) = join_dots (map (map ascii_lower) labels)"
    using ne by (intro join_onto_Nil) auto
  have "qname_from (hdr @ wire_name labels @ [0, 28, 0, 1]) (length hdr) [] = Some (join_dots (map (map ascii_lower) labels))"
    using qname_from_wire [of labels "[]" hdr] assms(1,3) by (simp add: j)
  then have "parse_qname (hdr @ wire_name labels @ [0, 28, 0, 1]) = Some (Some (join_dots (map (map ascii_lower) labels)))"
    using hdr by (simp add: parse_qname_eq nth_append)
  moreover have e: "question_end (hdr @ wire_name labels @ [0, 28, 0, 1]) = Some (length hdr + length (wire_name labels) + 4)"
    using question_end_wire [of labels "[0, 28, 0, 1]" hdr "[]"] assms(1) hdr
    by (simp add: question_end_def label_ok_def)
  ultimately show ?thesis
    by (simp add: q qtype_of_eq nth_append be16_def hdr_def)
qed

text \<open>
  A Content-Length just below \<open>2 ^ 64\<close> wraps the completeness test: the response counts
  as complete while none of its body has arrived, and is then refused as cut short.
\<close>
theorem content_length_wraps:
  assumes "head_ok (ascii ''HTTP/1.1 200 OK'') hs"
    and "lookup_header hs (ascii ''content-length'') = Some (show_dec n)" and "n < 2 ^ 64"
    and "lookup_header hs (ascii ''transfer-encoding'') = None"
  defines "head \<equiv> head_of (ascii ''HTTP/1.1 200 OK'') hs"
  assumes "2 ^ 64 \<le> length head + n" and "length head < 2 ^ 64"
  shows "is_complete head \<and> parse_response head = Inl ''response body cut short''"
proof -
  have code: "ascii ''HTTP/1.1 200 OK'' = ascii ''HTTP/1.1 '' @ ascii ''200'' @ ascii '' OK''" by (simp add: ascii_def)
  have st: "parse_status head = Some 200"
    unfolding head_def code by (rule status_of_head) (use assms(1) code in \<open>simp_all add: ascii_def parse_uint_def to_digit_def\<close>)
  note h = head_lines [OF assms(1), folded head_def]
  have n: "parse_uint 64 10 (show_dec n) = Some n" by (rule parse_show) (use assms(3) in simp_all)
  have "0 < n" using assms(6,7) by simp
  moreover have "(length head + n) mod 2 ^ 64 \<le> length head"
  proof -
    have "length head + n - 2 ^ 64 < 2 ^ 64" using assms(3,7) by simp
    then have "(length head + n) mod 2 ^ 64 = length head + n - 2 ^ 64"
      using assms(6) by (metis le_mod_geq mod_less)
    then show ?thesis using assms(3) by simp
  qed
  ultimately show ?thesis
    using h(1) [of "[]"] h(2,4) st n assms(2,4)
    by (simp add: is_complete_def parse_response_def get_range_def Let_def)
qed

section \<open>Witnesses\<close>

theorem dechunk_inverts_chunking_witness:
  "dechunk (concat (map chunk_frame [(ascii ''abc'', []), (ascii ''de'', ascii '';x=y'')]) @ size_line 0 [] @ CRLF @ CRLF) =
   Inr (ascii ''abcde'')"
proof -
  have e: "\<forall>(c, e)\<in>set [(ascii ''abc'', []), (ascii ''de'', ascii '';x=y'')]. c \<noteq> [] \<and> length c < 2 ^ 64 \<and> ext_ok e"
    and z: "ext_ok []" and c: "concat (map fst [(ascii ''abc'', []), (ascii ''de'', ascii '';x=y'')]) = ascii ''abcde''"
    by (simp_all add: ext_ok_def ascii_def CR_def)
  show ?thesis using conjunct1 [OF dechunk_inverts_chunking [OF e z, of CRLF]] unfolding c by simp
qed

lemma length_show_dec: "length (show_dec n) \<le> n div 10 + 2"
proof (induction n rule: less_induct)
  case (less n)
  show ?case
  proof (cases "n < 10")
    case False
    then have "length (show_dec n) = length (show_dec (n div 10)) + 1" by (subst show_radix.simps) simp
    then show ?thesis using less.IH [of "n div 10"] False by simp
  qed (simp add: show_radix.simps)
qed

lemma ok_head: "head_ok (ascii ''HTTP/1.1 200 OK'') [(ascii ''content-length'', show_dec n)]"
proof -
  have d: "visible b \<and> b < 0x80 \<and> b \<noteq> CR \<and> b \<noteq> LF" if "b \<in> set (show_dec n)" for b
  proof -
    have "\<forall>d<16. visible (digit d)" by code_simp
    then show ?thesis using show_radix_digits [of 10 b n] that digit_facts by fastforce
  qed
  then have "value_ok (show_dec n)" by (auto simp: value_ok_def)
  moreover have "name_ok (ascii ''content-length'')" by code_simp
  moreover have "line_ok (ascii ''HTTP/1.1 200 OK'') \<and> (\<forall>b\<in>set (ascii ''HTTP/1.1 200 OK''). b < 0x80)" by code_simp
  ultimately show ?thesis by (simp add: head_ok_def)
qed

theorem parse_response_correct_witness:
  "parse_response (head_of (ascii ''HTTP/1.1 200 OK'') [(ascii ''content-length'', show_dec 5)] @ ascii ''helloEXTRA'') =
   Inr \<lparr>status = 200, body = ascii ''hello''\<rparr>"
proof -
  have code: "ascii ''HTTP/1.1 200 OK'' = ascii ''HTTP/1.1 '' @ ascii ''200'' @ ascii '' OK''" by (simp add: ascii_def)
  have c: "length (ascii ''200'') = 3" "parse_uint 16 10 (ascii ''200'') = Some 200"
    by (simp_all add: ascii_def parse_uint_def to_digit_def)
  have l: "lookup_header [(ascii ''content-length'', v)] (ascii ''content-length'') = Some v"
    and t: "lookup_header [(ascii ''content-length'', v)] (ascii ''transfer-encoding'') = None" for v
    by (simp_all add: lookup_header_def eq_ignore_ascii_case_def ascii_def ascii_lower_def)
  have n: "parse_uint 64 10 (show_dec 5) = Some 5" by (rule parse_show) simp_all
  show ?thesis
    using conjunct1 [OF parse_response_correct [OF ok_head [unfolded code] c, of 5 "ascii ''helloEXTRA''"]]
    unfolding code [symmetric] l t n bind.bind_lunit by (simp add: ascii_def)
qed

theorem build_request_lines_witness:
  "header_end (build_request (replicate 16 0xfd) 80 (ascii ''/api'')
     [(ascii ''X'', ascii ''a'' @ CRLF @ ascii ''Evil: 1'')]) \<noteq> None"
proof -
  have "CR \<notin> set (ascii ''/api'')" "LF \<notin> set (ascii ''/api'')" by code_simp+
  from build_request_lines [OF this] show ?thesis by fastforce
qed

theorem aaaa_query_asks_name_witness:
  "parse_qname (aaaa_query 7 (ascii ''npub1xyz.fips'')) = Some (Some (ascii ''npub1xyz.fips''))"
proof -
  have l: "\<forall>l\<in>set [ascii ''npub1xyz'', ascii ''fips'']. label_ok l \<and> 46 \<notin> set l" "[ascii ''npub1xyz'', ascii ''fips''] \<noteq> []"
    "length (join_dots (map (map ascii_lower) [ascii ''npub1xyz'', ascii ''fips''])) \<le> 254"
    and j: "join_dots [ascii ''npub1xyz'', ascii ''fips''] = ascii ''npub1xyz.fips''"
      "join_dots (map (map ascii_lower) [ascii ''npub1xyz'', ascii ''fips'']) = ascii ''npub1xyz.fips''"
    by code_simp+
  show ?thesis using conjunct1 [OF aaaa_query_asks_name [OF l, of 7]] unfolding j .
qed

theorem content_length_wraps_witness:
  "\<exists>head. is_complete head \<and> parse_response head = Inl ''response body cut short''"
proof -
  have l: "lookup_header [(ascii ''content-length'', v)] (ascii ''content-length'') = Some v"
    and t: "lookup_header [(ascii ''content-length'', v)] (ascii ''transfer-encoding'') = None" for v
    by (simp_all add: lookup_header_def eq_ignore_ascii_case_def ascii_def ascii_lower_def)
  have "0 < length (head_of (ascii ''HTTP/1.1 200 OK'') [(ascii ''content-length'', show_dec (2 ^ 64 - 1))])"
    by (simp add: head_of_def)
  moreover have "length (head_of (ascii ''HTTP/1.1 200 OK'') [(ascii ''content-length'', show_dec (2 ^ 64 - 1))]) < 2 ^ 64"
    using length_show_dec [of "2 ^ 64 - 1"] by (simp add: head_of_def header_line_eq ascii_def)
  ultimately show ?thesis
    using content_length_wraps [OF ok_head l _ t, of "2 ^ 64 - 1"] by (intro exI) (auto simp: Suc_le_eq)
qed

end
