(* ===== verification/HttpExchange.thy ===== *)
theory HttpExchange
  imports HttpCodec Divert
begin

text \<open>
  \<open>shim/src/meshhttp.rs\<close>, one request over the mesh: \<open>FetchError\<close>, the egress closure of
  \<open>get\<close>, \<open>TxToken::consume\<close>, the loop of \<open>exchange\<close>, and \<open>get\<close> itself. The TCP stack
  (smoltcp) and the node's outbound pipeline are dependencies: what they do in one turn of
  the loop is an observation, and the loop is a function of the observations.
\<close>

section \<open>Errors\<close>

record fetch_error =
  message :: rust_string
  unreachable :: bool
  restarted :: bool

definition fe_other :: "rust_string \<Rightarrow> fetch_error" where
  "fe_other m = \<lparr>message = m, unreachable = False, restarted = False\<rparr>"

definition fe_unreachable :: "rust_string \<Rightarrow> fetch_error" where
  "fe_unreachable m = \<lparr>message = m, unreachable = True, restarted = False\<rparr>"

definition fe_restarted :: fetch_error where
  "fe_restarted = \<lparr>message = ascii ''the node restarted during the request'', unreachable = False,
     restarted = True\<rparr>"

lemma fe_simps [simp]:
  "unreachable (fe_other m) = False" "restarted (fe_other m) = False"
  "unreachable (fe_unreachable m) = True" "restarted (fe_unreachable m) = False"
  "unreachable fe_restarted = False" "restarted fe_restarted = True"
  by (simp_all add: fe_other_def fe_unreachable_def fe_restarted_def)

section \<open>Sending\<close>

text \<open>\<open>fips::TunPacketAction\<close>, what the node's pipeline says about an outbound packet.\<close>
datatype tun_action = Forward | Hairpin | Respond bytes | Drop

text \<open>The egress closure; \<open>queued\<close>: whether the node's channel took the packet.\<close>
definition egress :: "bytes \<Rightarrow> tun_action \<Rightarrow> bool \<Rightarrow> fetch_error + unit" where
  "egress addr action queued =
     (case action of
        Forward \<Rightarrow> if queued then Inr () else Inl fe_restarted
      | Hairpin \<Rightarrow> Inl (fe_other (ascii ''that is this node's own address''))
      | Respond _ \<Rightarrow> Inl (fe_unreachable (ascii ''the node refused to send to '' @ show_ipv6 addr))
      | Drop \<Rightarrow> Inr ())"

text \<open>\<open>TxToken::consume\<close> for each packet of one poll: the first failure is kept.\<close>
fun transmit :: "bytes \<Rightarrow> fetch_error option \<Rightarrow> (tun_action \<times> bool) list \<Rightarrow> fetch_error option" where
  "transmit addr failed [] = failed"
| "transmit addr failed ((action, queued) # tx) =
     transmit addr
       (case failed of
          Some e \<Rightarrow> Some e
        | None \<Rightarrow> (case egress addr action queued of Inl e \<Rightarrow> Some e | Inr _ \<Rightarrow> None)) tx"

section \<open>The exchange\<close>

definition MAX_BODY :: nat where "MAX_BODY = 4 * 2 ^ 20"
definition UNREACHABLE_LIMIT :: nat where "UNREACHABLE_LIMIT = 3"

datatype recv_wait = Packets "bytes list" | Timeout | Disconnected

text \<open>
  One turn: the engine's flag, what the poll transmitted, the socket's state after it, what
  \<open>send_slice\<close> took, what each \<open>recv_slice\<close> returned while \<open>can_recv\<close> held (\<open>None\<close> an
  error), whether the deadline is reached, and what the wait received.
\<close>
record tcp_pass =
  t_alive :: bool
  t_tx :: "(tun_action \<times> bool) list"
  t_active :: bool
  t_syn_sent :: bool
  t_can_send :: bool
  t_sent :: "nat option"
  t_recv :: "bytes option list"
  t_may_recv :: bool
  t_open :: bool
  t_left_zero :: bool
  t_wait :: recv_wait

record ex_state =
  sent :: nat
  established :: bool
  n_unreachable :: nat
  data :: bytes
  handed :: "bytes list"

definition ex_init :: ex_state where
  "ex_init = \<lparr>sent = 0, established = False, n_unreachable = 0, data = [], handed = []\<rparr>"

datatype ex_result = Running ex_state | Finished "fetch_error + response"

text \<open>The inner receive loop; \<open>None\<close> when the response grows too large.\<close>
fun recv_all :: "bytes \<Rightarrow> bytes option list \<Rightarrow> bytes option" where
  "recv_all d [] = Some d"
| "recv_all d (None # cs) = Some d"
| "recv_all d (Some c # cs) =
     (if c = [] then Some d
      else if MAX_BODY < length (d @ c) then None else recv_all (d @ c) cs)"

text \<open>Packets of the flow: errors are counted, the rest goes to the stack.\<close>
fun handle_packets :: "ex_state \<Rightarrow> bytes list \<Rightarrow> ex_state" where
  "handle_packets s [] = s"
| "handle_packets s (p # ps) =
     handle_packets
       (if is_icmp_unreachable p = Some True then s\<lparr>n_unreachable := Suc (n_unreachable s)\<rparr>
        else s\<lparr>handed := handed s @ [p]\<rparr>) ps"

definition where_text :: "bytes \<times> u16 \<Rightarrow> rust_string" where
  "where_text remote =
     ascii ''['' @ show_ipv6 (fst remote) @ ascii '']:'' @ show_dec (unat (snd remote))"

definition finish :: "bytes \<Rightarrow> fetch_error + response" where
  "finish d = (case parse_response d of Inl m \<Rightarrow> Inl (fe_other (ascii m)) | Inr r \<Rightarrow> Inr r)"

definition closed_error :: "bytes \<times> u16 \<Rightarrow> bool \<Rightarrow> fetch_error" where
  "closed_error remote est =
     (if est then fe_other (where_text remote @ ascii '' closed the connection early'')
      else fe_unreachable (where_text remote @ ascii '' refused the connection (nothing listening on that port?)''))"

definition late_error :: "bytes \<times> u16 \<Rightarrow> bool \<Rightarrow> nat \<Rightarrow> fetch_error" where
  "late_error remote est unr =
     fe_unreachable
       (if est then where_text remote @ ascii '' did not finish answering in time''
        else if 0 < unr then ascii ''no route to '' @ where_text remote @ ascii '' over the mesh''
        else where_text remote @ ascii '' did not answer (is the node online?)'')"

text \<open>The turn after the wait.\<close>
definition after_wait :: "bytes \<times> u16 \<Rightarrow> recv_wait \<Rightarrow> ex_state \<Rightarrow> ex_result" where
  "after_wait remote wait s =
     (case wait of
        Disconnected \<Rightarrow> Finished (Inl fe_restarted)
      | _ \<Rightarrow>
          (let s = (case wait of Packets ps \<Rightarrow> handle_packets s ps | _ \<Rightarrow> s)
           in if UNREACHABLE_LIMIT \<le> n_unreachable s \<and> \<not> established s then
                Finished (Inl (fe_unreachable (ascii ''no route to '' @ where_text remote @
                  ascii '' over the mesh (the node does not know a path to it)'')))
              else Running s))"

text \<open>What the poll did to the socket: the connection is up, more of the request is sent.\<close>
definition note_socket :: "bytes \<Rightarrow> tcp_pass \<Rightarrow> ex_state \<Rightarrow> ex_state" where
  "note_socket request p s =
     (let s = (if t_active p \<and> \<not> t_syn_sent p then s\<lparr>established := True\<rparr> else s)
      in if sent s < length request \<and> t_can_send p
         then s\<lparr>sent := sent s + (case t_sent p of Some n \<Rightarrow> n | None \<Rightarrow> 0)\<rparr> else s)"

definition exchange_pass :: "bytes \<times> u16 \<Rightarrow> bytes \<Rightarrow> tcp_pass \<Rightarrow> ex_state \<Rightarrow> ex_result" where
  "exchange_pass remote request p s =
     (if \<not> t_alive p then Finished (Inl fe_restarted)
      else
        (case transmit (fst remote) None (t_tx p) of
           Some e \<Rightarrow> Finished (Inl e)
         | None \<Rightarrow>
             (let s = note_socket request p s
              in (case recv_all (data s) (t_recv p) of
                    None \<Rightarrow> Finished (Inl (fe_other (ascii ''response too large'')))
                  | Some d \<Rightarrow>
                      (let s = s\<lparr>data := d\<rparr>
                       in if established s \<and> (\<not> t_may_recv p \<or> is_complete (data s))
                          then Finished (finish (data s))
                          else if \<not> t_open p then Finished (Inl (closed_error remote (established s)))
                          else if t_left_zero p
                          then Finished (Inl (late_error remote (established s) (n_unreachable s)))
                          else after_wait remote (t_wait p) s)))))"

fun exchange_loop :: "bytes \<times> u16 \<Rightarrow> bytes \<Rightarrow> tcp_pass list \<Rightarrow> ex_state \<Rightarrow> ex_result" where
  "exchange_loop remote request [] s = Running s"
| "exchange_loop remote request (p # ps) s =
     (case exchange_pass remote request p s of
        Running s' \<Rightarrow> exchange_loop remote request ps s'
      | Finished r \<Rightarrow> Finished r)"

text \<open>\<open>connect\<close>: the error of opening the socket, if any.\<close>
definition exchange :: "rust_string option \<Rightarrow> bytes \<times> u16 \<Rightarrow> bytes \<Rightarrow> tcp_pass list \<Rightarrow> ex_result" where
  "exchange connect remote request ps =
     (case connect of
        Some e \<Rightarrow> Finished (Inl (fe_other (ascii ''connect: '' @ e)))
      | None \<Rightarrow> exchange_loop remote request ps ex_init)"

text \<open>
  \<open>get\<close>: the flow is opened on the tap, the exchange runs, and when it has finished the
  guard is dropped, which closes the flow.
\<close>
definition get ::
  "divert \<Rightarrow> bytes \<Rightarrow> bytes \<Rightarrow> u16 \<Rightarrow> rust_string \<Rightarrow> (rust_string \<times> rust_string) list \<Rightarrow>
   u64 \<Rightarrow> rust_string option \<Rightarrow> tcp_pass list \<Rightarrow> divert \<times> ex_result" where
  "get d our_addr addr port path headers random connect ps =
     (if addr = our_addr then (d, Finished (Inl (fe_other (ascii ''that is this node's own address''))))
      else
        (case open_flow d addr port random of
           (d, None) \<Rightarrow> (d, Finished (Inl (fe_other (ascii ''no free local port''))))
         | (d, Some flow) \<Rightarrow>
             (let r = exchange connect (addr, port) (build_request addr port path headers) ps
              in ((case r of Running _ \<Rightarrow> d | Finished _ \<Rightarrow> drop_count (drop_remove d (g_key flow))), r))))"

section \<open>The responder\<close>

text \<open>The datagram sent to the responder, when the socket binds and sends.\<close>
definition register_identity :: "bool \<Rightarrow> u64 \<Rightarrow> bool \<Rightarrow> rust_string \<Rightarrow> bytes option" where
  "register_identity bound random was_sent npub =
     (if bound \<and> was_sent then Some (aaaa_query (ucast (random AND 0xffff)) (npub @ ascii ''.fips'')) else None)"

section \<open>Passes\<close>

text \<open>What one turn received from the connection.\<close>
fun chunks_of :: "bytes option list \<Rightarrow> bytes" where
  "chunks_of [] = []"
| "chunks_of (None # cs) = []"
| "chunks_of (Some c # cs) = (if c = [] then [] else c @ chunks_of cs)"

lemma recv_all_Some:
  "recv_all d cs = Some d' \<Longrightarrow>
   d' = d @ chunks_of cs \<and> (length d \<le> MAX_BODY \<longrightarrow> length d + length (chunks_of cs) \<le> MAX_BODY)"
  by (induction d cs rule: recv_all.induct) (auto split: if_splits)

lemma transmit_Some: "transmit addr (Some e) tx = Some e"
  by (induction tx) auto

lemma transmit_error:
  "transmit addr None tx = Some e \<Longrightarrow>
   \<exists>action queued. (action, queued) \<in> set tx \<and> egress addr action queued = Inl e"
  by (induction addr "None :: fetch_error option" tx rule: transmit.induct)
    (auto simp: transmit_Some split: sum.splits)

lemma egress_error:
  "egress addr action queued = Inl e \<Longrightarrow>
   (restarted e \<longleftrightarrow> action = Forward \<and> \<not> queued) \<and> (unreachable e \<longleftrightarrow> (\<exists>r. action = Respond r))"
  by (auto simp: egress_def split: tun_action.splits if_splits)

lemma finish_error: "finish d = Inl e \<Longrightarrow> \<not> unreachable e \<and> \<not> restarted e"
  by (auto simp: finish_def split: sum.splits)

text \<open>The connection was up in this turn.\<close>
definition up :: "tcp_pass \<Rightarrow> bool" where
  "up p \<longleftrightarrow> t_active p \<and> \<not> t_syn_sent p"

lemma handle_packets_state:
  "established (handle_packets s ps) = established s" "data (handle_packets s ps) = data s"
  "sent (handle_packets s ps) = sent s"
  "n_unreachable (handle_packets s ps) = n_unreachable s + length (filter (\<lambda>p. is_icmp_unreachable p = Some True) ps)"
  "handed (handle_packets s ps) = handed s @ filter (\<lambda>p. is_icmp_unreachable p \<noteq> Some True) ps"
  by (induction ps arbitrary: s) auto

lemma after_wait_Running:
  "after_wait remote wait s = Running s' \<Longrightarrow> established s' = established s \<and> data s' = data s \<and> wait \<noteq> Disconnected"
  by (auto simp: after_wait_def Let_def handle_packets_state split: recv_wait.splits if_splits)

lemma after_wait_Finished:
  "after_wait remote wait s = Finished r \<Longrightarrow>
   \<exists>e. r = Inl e \<and> (wait = Disconnected \<and> e = fe_restarted \<or> \<not> established s \<and> unreachable e \<and> \<not> restarted e)"
  by (auto simp: after_wait_def Let_def handle_packets_state split: recv_wait.splits if_splits)

lemma closed_error_flags:
  "\<not> restarted (closed_error remote est)" "unreachable (closed_error remote est) = (\<not> est)"
  by (simp_all add: closed_error_def)

lemma late_error_flags: "\<not> restarted (late_error remote est n)" "unreachable (late_error remote est n)"
  by (simp_all add: late_error_def)

lemma note_socket_simps [simp]:
  "established (note_socket request p s) = (established s \<or> up p)" "data (note_socket request p s) = data s"
  "n_unreachable (note_socket request p s) = n_unreachable s"
  by (auto simp: note_socket_def up_def Let_def)

lemma pass_Running:
  assumes "exchange_pass remote request p s = Running s'"
  shows "t_alive p" and "established s' = (established s \<or> up p)" and "data s' = data s @ chunks_of (t_recv p)"
    and "length (data s) \<le> MAX_BODY \<Longrightarrow> length (data s') \<le> MAX_BODY" and "\<not> t_left_zero p"
    and "t_wait p \<noteq> Disconnected"
  using assms
  by (auto simp: exchange_pass_def Let_def split: if_splits option.splits
      dest!: recv_all_Some after_wait_Running)

lemma pass_ok:
  assumes "exchange_pass remote request p s = Finished (Inr r)"
  shows "t_alive p" and "established s \<or> up p" and "parse_response (data s @ chunks_of (t_recv p)) = Inr r"
    and "length (data s) \<le> MAX_BODY \<Longrightarrow> length (data s @ chunks_of (t_recv p)) \<le> MAX_BODY"
  using assms
  by (auto simp: exchange_pass_def Let_def finish_def split: if_splits option.splits sum.splits
      dest!: recv_all_Some after_wait_Finished)

lemma pass_error:
  assumes "exchange_pass remote request p s = Finished (Inl e)"
  shows "(\<not> t_alive p \<or> t_wait p = Disconnected) \<and> e = fe_restarted \<or>
    (\<exists>action queued. (action, queued) \<in> set (t_tx p) \<and> egress (fst remote) action queued = Inl e) \<or>
    \<not> unreachable e \<and> \<not> restarted e \<or>
    unreachable e \<and> \<not> restarted e \<and> (t_left_zero p \<or> \<not> (established s \<or> up p))"
proof (cases "t_alive p")
  case alive: True
  show ?thesis
  proof (cases "transmit (fst remote) None (t_tx p)")
    case tx: None
    show ?thesis
    proof (cases "recv_all (data s) (t_recv p)")
      case None
      then have "e = fe_other (ascii ''response too large'')"
        using assms alive tx by (simp add: exchange_pass_def)
      then show ?thesis by simp
    next
      case (Some d)
      define s' where "s' = (note_socket request p s)\<lparr>data := d\<rparr>"
      define est where "est \<longleftrightarrow> established s \<or> up p"
      define fin where "fin \<longleftrightarrow> est \<and> (\<not> t_may_recv p \<or> is_complete d)"
      have est: "established s' = est" by (simp add: s'_def est_def)
      have "exchange_pass remote request p s =
          (if fin then Finished (finish d)
           else if \<not> t_open p then Finished (Inl (closed_error remote est))
           else if t_left_zero p then Finished (Inl (late_error remote est (n_unreachable s)))
           else after_wait remote (t_wait p) s')"
        by (simp add: exchange_pass_def alive tx Some Let_def s'_def est_def fin_def)
      then have r: "(if fin then Finished (finish d)
           else if \<not> t_open p then Finished (Inl (closed_error remote est))
           else if t_left_zero p then Finished (Inl (late_error remote est (n_unreachable s)))
           else after_wait remote (t_wait p) s') = Finished (Inl e)" using assms by simp
      show ?thesis
      proof (cases fin)
        case True
        then show ?thesis using r finish_error [of d e] by simp
      next
        case nd: False
        show ?thesis
        proof (cases "t_open p \<and> \<not> t_left_zero p")
          case True
          then have "after_wait remote (t_wait p) s' = Finished (Inl e)" using r nd by simp
          then show ?thesis using after_wait_Finished est unfolding est_def by blast
        next
          case False
          then show ?thesis
            using r nd closed_error_flags late_error_flags unfolding est_def
            by (cases "t_open p") (simp_all, metis+)
        qed
      qed
    qed
  next
    case (Some e')
    then have "e' = e" using assms alive by (simp add: exchange_pass_def)
    then show ?thesis using transmit_error [OF Some] by blast
  qed
qed (use assms in \<open>simp add: exchange_pass_def\<close>)

lemma pass_deadline: "t_left_zero p \<Longrightarrow> \<exists>r. exchange_pass remote request p s = Finished r"
  by (cases "exchange_pass remote request p s") (auto dest: pass_Running(5))

section \<open>Runs\<close>

definition received :: "tcp_pass list \<Rightarrow> bytes" where
  "received ps = concat (map (\<lambda>p. chunks_of (t_recv p)) ps)"

lemma received_simps [simp]: "received [] = []" "received (p # ps) = chunks_of (t_recv p) @ received ps"
  by (simp_all add: received_def)

lemma loop_ok:
  "exchange_loop remote request ps s = Finished (Inr r) \<Longrightarrow> length (data s) \<le> MAX_BODY \<Longrightarrow>
   \<exists>n<length ps. parse_response (data s @ received (take (Suc n) ps)) = Inr r \<and>
     length (data s @ received (take (Suc n) ps)) \<le> MAX_BODY \<and>
     (established s \<or> (\<exists>p\<in>set (take (Suc n) ps). up p)) \<and> (\<forall>p\<in>set (take (Suc n) ps). t_alive p)"
proof (induction ps arbitrary: s)
  case (Cons p ps)
  show ?case
  proof (cases "exchange_pass remote request p s")
    case (Running s')
    note p = pass_Running [OF Running]
    have "\<exists>n<length ps. parse_response (data s' @ received (take (Suc n) ps)) = Inr r \<and>
     length (data s' @ received (take (Suc n) ps)) \<le> MAX_BODY \<and>
     (established s' \<or> (\<exists>p\<in>set (take (Suc n) ps). up p)) \<and> (\<forall>p\<in>set (take (Suc n) ps). t_alive p)"
      using Cons.prems Running p(4) by (intro Cons.IH) simp_all
    then obtain n where n: "n < length ps" "parse_response (data s' @ received (take (Suc n) ps)) = Inr r"
      "length (data s' @ received (take (Suc n) ps)) \<le> MAX_BODY"
      "established s' \<or> (\<exists>p\<in>set (take (Suc n) ps). up p)" "\<forall>p\<in>set (take (Suc n) ps). t_alive p" by blast
    show ?thesis by (rule exI [of _ "Suc n"]) (use n p in auto)
  next
    case (Finished x)
    then have "exchange_pass remote request p s = Finished (Inr r)" using Cons.prems by simp
    note p = pass_ok [OF this]
    show ?thesis by (rule exI [of _ 0]) (use p Cons.prems in auto)
  qed
qed simp

lemma loop_error:
  "exchange_loop remote request ps s = Finished (Inl e) \<Longrightarrow>
   \<exists>n<length ps. \<exists>s'. exchange_pass remote request (ps ! n) s' = Finished (Inl e) \<and>
     (established s' \<longleftrightarrow> established s \<or> (\<exists>p\<in>set (take n ps). up p))"
proof (induction ps arbitrary: s)
  case (Cons p ps)
  show ?case
  proof (cases "exchange_pass remote request p s")
    case (Running s')
    then obtain n s'' where "n < length ps" "exchange_pass remote request (ps ! n) s'' = Finished (Inl e)"
      "established s'' \<longleftrightarrow> established s' \<or> (\<exists>p\<in>set (take n ps). up p)"
      using Cons.IH [of s'] Cons.prems by auto
    then show ?thesis
      using pass_Running(2) [OF Running] by (intro exI [of _ "Suc n"]) auto
  next
    case (Finished x)
    then have "exchange_pass remote request p s = Finished (Inl e)" using Cons.prems by simp
    then show ?thesis by (intro exI [of _ 0]) auto
  qed
qed simp

lemma loop_ends:
  "p \<in> set ps \<Longrightarrow> (\<And>s. \<exists>r. exchange_pass remote request p s = Finished r) \<Longrightarrow>
   \<exists>r. exchange_loop remote request ps s = Finished r"
proof (induction ps arbitrary: s)
  case (Cons q ps)
  show ?case
  proof (cases "exchange_pass remote request q s")
    case (Running s')
    then have "p \<noteq> q" using Cons.prems(2) [of s] by auto
    then show ?thesis using Cons.IH [of s'] Cons.prems Running by simp
  qed simp
qed simp

section \<open>Properties\<close>


text \<open>
  C22. A successful answer is genuine: it is the parse of exactly the bytes the connection
  delivered up to that turn, no more than \<open>MAX_BODY\<close> of them, on a connection that came
  up, with the engine running in every turn.
\<close>
theorem exchange_answer_is_received_data:
  assumes "exchange connect remote request ps = Finished (Inr r)"
  shows "connect = None \<and>
    (\<exists>n<length ps. let d = received (take (Suc n) ps) in
       parse_response d = Inr r \<and> length d \<le> MAX_BODY \<and>
       (\<exists>p\<in>set (take (Suc n) ps). up p) \<and> (\<forall>p\<in>set (take (Suc n) ps). t_alive p))"
  using assms loop_ok [of remote request ps ex_init r]
  by (auto simp: exchange_def ex_init_def Let_def split: option.splits)

text \<open>
  The flags of a failure mean what the caller's back-off assumes: \<open>restarted\<close> only when
  the engine stopped, its channel closed or the flow was cut; \<open>unreachable\<close> only when the
  connection never came up, the deadline passed, or the node itself refused the packet;
  never both.
\<close>
theorem exchange_error_flags:
  assumes "exchange connect remote request ps = Finished (Inl e)"
  shows "\<not> (unreachable e \<and> restarted e) \<and>
    (restarted e \<longrightarrow> (\<exists>p\<in>set ps. \<not> t_alive p \<or> t_wait p = Disconnected \<or> (Forward, False) \<in> set (t_tx p))) \<and>
    (unreachable e \<longrightarrow>
       (\<exists>n<length ps. (\<forall>i\<le>n. \<not> up (ps ! i)) \<or> t_left_zero (ps ! n) \<or>
          (\<exists>r q. (Respond r, q) \<in> set (t_tx (ps ! n)))))"
proof (cases connect)
  case (Some c)
  then have "e = fe_other (ascii ''connect: '' @ c)" using assms by (simp add: exchange_def)
  then show ?thesis by simp
next
  case None
  then obtain n s where n: "n < length ps" and p: "exchange_pass remote request (ps ! n) s = Finished (Inl e)"
    and est: "established s \<longleftrightarrow> (\<exists>p\<in>set (take n ps). up p)"
    using loop_error [of remote request ps ex_init e] assms by (auto simp: exchange_def ex_init_def)
  have mem: "ps ! n \<in> set ps" using n by simp
  from pass_error [OF p] show ?thesis
  proof (elim disjE)
    assume "\<exists>action queued. (action, queued) \<in> set (t_tx (ps ! n)) \<and> egress (fst remote) action queued = Inl e"
    then obtain a q where a: "(a, q) \<in> set (t_tx (ps ! n))" "egress (fst remote) a q = Inl e" by blast
    from egress_error [OF a(2)] a(1) mem n show ?thesis by (cases q) auto
  next
    assume u: "unreachable e \<and> \<not> restarted e \<and> (t_left_zero (ps ! n) \<or> \<not> (established s \<or> up (ps ! n)))"
    have "\<forall>i\<le>n. \<not> up (ps ! i)" if "\<not> (established s \<or> up (ps ! n))"
    proof (intro allI impI)
      fix i assume i: "i \<le> n"
      have "ps ! i \<in> set (take n ps)" if "i < n"
        using that n by (auto simp: in_set_conv_nth intro!: exI [of _ i])
      then show "\<not> up (ps ! i)"
        using that est i by (cases "i = n") auto
    qed
    then show ?thesis using u n by blast
  qed (use mem in auto)
qed

text \<open>
  "Destination unreachable" errors end a request only before the connection is up, and
  only the third one; every other packet of the flow is handed to the TCP stack, in order.
\<close>
theorem unreachable_errors_counted:
  "(case after_wait remote (Packets ps) s of
      Running s' \<Rightarrow>
        (established s \<or> n_unreachable s + length (filter (\<lambda>p. is_icmp_unreachable p = Some True) ps) < 3) \<and>
        handed s' = handed s @ filter (\<lambda>p. is_icmp_unreachable p \<noteq> Some True) ps
    | Finished r \<Rightarrow>
        \<not> established s \<and> 3 \<le> n_unreachable s + length (filter (\<lambda>p. is_icmp_unreachable p = Some True) ps) \<and>
        (\<exists>e. r = Inl e \<and> unreachable e))"
  by (simp add: after_wait_def handle_packets_state UNREACHABLE_LIMIT_def Let_def) linarith

lemma get_restores:
  assumes "get d our_addr addr port path headers random connect ps = (d', Finished r)"
  shows "d_flows d' = d_flows d \<and> active d' = active d"
  by (cases rule: tap_flow.scope [of d addr port random])
    (use assms in \<open>auto simp: get_def Let_def split: if_splits ex_result.splits\<close>)

text \<open>
  A request leaves no flow behind: when \<open>get\<close> has finished, on any path, the tap has the
  flows and the count it had before; a request to the node's own address opens none.
\<close>
theorem get_closes_its_flow:
  assumes "get d our_addr addr port path headers random connect ps = (d', Finished r)"
  shows "d_flows d' = d_flows d \<and> active d' = active d"
  using assms by (rule get_restores)

section \<open>Witnesses\<close>

definition ok_bytes :: bytes where
  "ok_bytes = head_of (ascii ''HTTP/1.1 200 OK'') [] @ ascii ''hi''"

lemma ok_bytes: "parse_response ok_bytes = Inr \<lparr>status = 200, body = ascii ''hi''\<rparr>" "length ok_bytes = 21"
proof -
  have code: "ascii ''HTTP/1.1 200 OK'' = ascii ''HTTP/1.1 '' @ ascii ''200'' @ ascii '' OK''" by (simp add: ascii_def)
  have ok: "head_ok (ascii ''HTTP/1.1 200 OK'') []" by code_simp
  have "parse_status (head_of (ascii ''HTTP/1.1 200 OK'') []) = Some 200"
    unfolding code by (rule status_of_head) (use ok code in \<open>simp_all add: ascii_def parse_uint_def to_digit_def\<close>)
  then show "parse_response ok_bytes = Inr \<lparr>status = 200, body = ascii ''hi''\<rparr>"
    using head_lines [OF ok] by (simp add: parse_response_def ok_bytes_def lookup_header_def Let_def)
  show "length ok_bytes = 21" by code_simp
qed

definition quiet :: tcp_pass where
  "quiet = \<lparr>t_alive = True, t_tx = [(Forward, True)], t_active = True, t_syn_sent = True, t_can_send = False,
     t_sent = None, t_recv = [], t_may_recv = True, t_open = True, t_left_zero = False, t_wait = Timeout\<rparr>"

definition answered :: tcp_pass where
  "answered = quiet\<lparr>t_syn_sent := False, t_recv := [Some ok_bytes], t_may_recv := False\<rparr>"

lemma answered_run:
  "exchange None remote request [quiet, answered] = Finished (Inr \<lparr>status = 200, body = ascii ''hi''\<rparr>)"
  using ok_bytes length_greater_0_conv [of ok_bytes]
  by (simp add: exchange_def exchange_pass_def quiet_def answered_def egress_def note_socket_def Let_def
      after_wait_def ex_init_def UNREACHABLE_LIMIT_def finish_def MAX_BODY_def)


theorem exchange_answer_is_received_data_witness:
  "\<exists>n<2. parse_response (received (take (Suc n) [quiet, answered])) = Inr \<lparr>status = 200, body = ascii ''hi''\<rparr>"
proof -
  have "\<exists>n<length [quiet, answered]. parse_response (received (take (Suc n) [quiet, answered])) =
      Inr \<lparr>status = 200, body = ascii ''hi''\<rparr>"
    using exchange_answer_is_received_data [OF answered_run [of "(replicate 16 0xfd, 80)" "[71]"]]
    unfolding Let_def by blast
  then show ?thesis by (simp only: list.size) (simp add: numeral_2_eq_2)
qed

theorem exchange_error_flags_witness:
  "\<exists>e. exchange None (replicate 16 0xfd, 80) [71] [quiet\<lparr>t_left_zero := True\<rparr>] = Finished (Inl e) \<and>
       unreachable e \<and> \<not> restarted e"
proof -
  have e: "exchange None (replicate 16 0xfd, 80) [71] [quiet\<lparr>t_left_zero := True\<rparr>] =
    Finished (Inl (late_error (replicate 16 0xfd, 80) False 0))"
    by (simp add: exchange_def exchange_pass_def quiet_def egress_def note_socket_def Let_def ex_init_def)
  from exchange_error_flags [OF e] late_error_flags(2) have "\<not> restarted (late_error (replicate 16 0xfd, 80) False 0)"
    by blast
  then show ?thesis using e late_error_flags(2) by blast
qed

theorem get_closes_its_flow_witness:
  "\<exists>d'. get divert_default (replicate 16 2) (replicate 16 0xfd) 80 (ascii ''/'') [] 5 None [quiet, answered] =
        (d', Finished (Inr \<lparr>status = 200, body = ascii ''hi''\<rparr>)) \<and> d_flows d' = []"
proof -
  have "d_flows divert_default = []" by (simp add: divert_default_def)
  then obtain d' where "get divert_default (replicate 16 2) (replicate 16 0xfd) 80 (ascii ''/'') [] 5 None [quiet, answered] =
        (d', Finished (Inr \<lparr>status = 200, body = ascii ''hi''\<rparr>))"
    by (simp add: get_def open_flow_empty answered_run Let_def)
  note g = this
  show ?thesis using g get_closes_its_flow [OF g] \<open>d_flows divert_default = []\<close> by simp
qed

end
