(* ===== verification/MeshUdp.thy ===== *)
theory MeshUdp
  imports HttpExchange
begin

text \<open>
  \<open>shim/src/meshudp.rs\<close>: one UDP question over the mesh (\<open>query\<close>, \<open>exchange\<close>) and the
  echo that tells whether a node is reachable (\<open>ping\<close>, \<open>echo\<close>). As for HTTP, the sockets
  of the userspace stack and the clock are observed turn by turn.
\<close>

definition MAX_REPLY :: nat where "MAX_REPLY = 4096"
definition RESENDS :: nat where "RESENDS = 2"

section \<open>A question\<close>

text \<open>
  One turn: the engine's flag, the error of \<open>send_slice\<close> if it is called and fails, what
  the poll transmitted, what each \<open>recv_slice\<close> returned while \<open>can_recv\<close> held, whether the
  deadline is reached, what the wait received.
\<close>
record udp_pass =
  u_alive :: bool
  u_send_error :: "rust_string option"
  u_tx :: "(tun_action \<times> bool) list"
  u_recv :: "(bytes \<times> (bytes \<times> u16)) option list"
  u_left_zero :: bool
  u_wait :: recv_wait

record udp_state =
  sends :: nat
  u_unreachable :: nat
  u_handed :: "bytes list"

definition udp_init :: udp_state where
  "udp_init = \<lparr>sends = 0, u_unreachable = 0, u_handed = []\<rparr>"

datatype udp_result = Asking udp_state | Replied "fetch_error + bytes"

text \<open>The receive loop: the first datagram of the endpoint that was asked.\<close>
fun first_from :: "bytes \<times> u16 \<Rightarrow> (bytes \<times> (bytes \<times> u16)) option list \<Rightarrow> bytes option" where
  "first_from endpoint [] = None"
| "first_from endpoint (None # rs) = None"
| "first_from endpoint (Some (d, from_ep) # rs) = (if from_ep = endpoint then Some d else first_from endpoint rs)"

fun take_packets :: "udp_state \<Rightarrow> bytes list \<Rightarrow> udp_state" where
  "take_packets s [] = s"
| "take_packets s (p # ps) =
     take_packets
       (if is_icmp_unreachable p = Some True then s\<lparr>u_unreachable := Suc (u_unreachable s)\<rparr>
        else s\<lparr>u_handed := u_handed s @ [p]\<rparr>) ps"

definition wants_send :: "udp_state \<Rightarrow> bool" where
  "wants_send s \<longleftrightarrow> sends s = 0 \<or> 0 < u_unreachable s \<and> sends s \<le> RESENDS \<and> sends s \<le> u_unreachable s"

definition udp_pass_step :: "bytes \<times> u16 \<Rightarrow> udp_pass \<Rightarrow> udp_state \<Rightarrow> udp_result" where
  "udp_pass_step remote p s =
     (if \<not> u_alive p then Replied (Inl fe_restarted)
      else
        (case (if wants_send s then u_send_error p else None) of
           Some e \<Rightarrow> Replied (Inl (fe_other (ascii ''send: '' @ e)))
         | None \<Rightarrow>
             (let s = (if wants_send s then s\<lparr>sends := Suc (sends s)\<rparr> else s)
              in (case transmit (fst remote) None (u_tx p) of
                    Some e \<Rightarrow> Replied (Inl e)
                  | None \<Rightarrow>
                      (case first_from remote (u_recv p) of
                         Some d \<Rightarrow> Replied (Inr d)
                       | None \<Rightarrow>
                           if RESENDS < u_unreachable s then
                             Replied (Inl (fe_unreachable (ascii ''no route to '' @ where_text remote @
                               ascii '' over the mesh (the node does not know a path to it)'')))
                           else if u_left_zero p then
                             Replied (Inl (fe_unreachable (where_text remote @
                               ascii '' did not answer (is the node online?)'')))
                           else (case u_wait p of
                                   Packets ps \<Rightarrow> Asking (take_packets s ps)
                                 | Timeout \<Rightarrow> Asking s
                                 | Disconnected \<Rightarrow> Replied (Inl fe_restarted)))))))"

text \<open>The state with this turn's send, if it makes one.\<close>
definition after_send :: "udp_pass \<Rightarrow> udp_state \<Rightarrow> udp_state" where
  "after_send p s =
     (if u_alive p \<and> wants_send s \<and> u_send_error p = None then s\<lparr>sends := Suc (sends s)\<rparr> else s)"

fun udp_loop :: "bytes \<times> u16 \<Rightarrow> udp_pass list \<Rightarrow> udp_state \<Rightarrow> udp_result \<times> udp_state" where
  "udp_loop remote [] s = (Asking s, s)"
| "udp_loop remote (p # ps) s =
     (case udp_pass_step remote p s of
        Asking s' \<Rightarrow> udp_loop remote ps s'
      | Replied r \<Rightarrow> (Replied r, after_send p s))"

definition udp_exchange :: "rust_string option \<Rightarrow> bytes \<times> u16 \<Rightarrow> udp_pass list \<Rightarrow> udp_result" where
  "udp_exchange bind_error remote ps =
     (case bind_error of
        Some e \<Rightarrow> Replied (Inl (fe_other (ascii ''bind: '' @ e)))
      | None \<Rightarrow> fst (udp_loop remote ps udp_init))"

definition query :: "divert \<Rightarrow> bytes \<Rightarrow> bytes \<Rightarrow> u16 \<Rightarrow> u64 \<Rightarrow> rust_string option \<Rightarrow> udp_pass list \<Rightarrow> divert \<times> udp_result" where
  "query d our_addr addr port random bind_error ps =
     (if addr = our_addr then (d, Replied (Inl (fe_other (ascii ''that is this node's own address''))))
      else
        (case open_flow d addr port random of
           (d, None) \<Rightarrow> (d, Replied (Inl (fe_other (ascii ''no free local port''))))
         | (d, Some flow) \<Rightarrow>
             (let r = udp_exchange bind_error (addr, port) ps
              in ((case r of Asking _ \<Rightarrow> d | Replied _ \<Rightarrow> drop_count (drop_remove d (g_key flow))), r))))"

section \<open>An echo\<close>

text \<open>\<open>ping\<close>'s egress forgives a hairpin.\<close>
definition ping_egress :: "bytes \<Rightarrow> tun_action \<Rightarrow> bool \<Rightarrow> fetch_error + unit" where
  "ping_egress addr action queued =
     (case action of
        Forward \<Rightarrow> if queued then Inr () else Inl fe_restarted
      | Hairpin \<Rightarrow> Inr ()
      | Respond _ \<Rightarrow> Inl (fe_unreachable (ascii ''the node refused to send to '' @ show_ipv6 addr))
      | Drop \<Rightarrow> Inr ())"

fun ping_transmit :: "bytes \<Rightarrow> fetch_error option \<Rightarrow> (tun_action \<times> bool) list \<Rightarrow> fetch_error option" where
  "ping_transmit addr failed [] = failed"
| "ping_transmit addr failed ((action, queued) # tx) =
     ping_transmit addr
       (case failed of
          Some e \<Rightarrow> Some e
        | None \<Rightarrow> (case ping_egress addr action queued of Inl e \<Rightarrow> Some e | Inr _ \<Rightarrow> None)) tx"

text \<open>
  One turn of \<open>echo\<close>; \<open>e_recv\<close> tells of each message received its sender and, when it parses as
  ICMPv6, whether it is an echo reply; \<open>e_half\<close> that half the time has passed.
\<close>
record echo_pass =
  e_alive :: bool
  e_tx :: "(tun_action \<times> bool) list"
  e_recv :: "(bytes \<times> bool option) option list"
  e_left_zero :: bool
  e_half :: bool
  e_send_error :: "rust_string option"
  e_wait :: recv_wait

record echo_state =
  requests :: nat
  resent :: bool
  e_handed :: "bytes list"

datatype echo_result = Echoing echo_state | Echoed "fetch_error + bool"

fun echo_reply_from :: "bytes \<Rightarrow> (bytes \<times> bool option) option list \<Rightarrow> bool" where
  "echo_reply_from remote [] = False"
| "echo_reply_from remote (None # rs) = False"
| "echo_reply_from remote (Some (sender, reply) # rs) =
     (if sender = remote \<and> reply = Some True then True else echo_reply_from remote rs)"

definition echo_step :: "bytes \<Rightarrow> echo_pass \<Rightarrow> echo_state \<Rightarrow> echo_result" where
  "echo_step remote p s =
     (if \<not> e_alive p then Echoed (Inl fe_restarted)
      else
        (case ping_transmit remote None (e_tx p) of
           Some e \<Rightarrow> Echoed (Inl e)
         | None \<Rightarrow>
             if echo_reply_from remote (e_recv p) then Echoed (Inr True)
             else if e_left_zero p then Echoed (Inr False)
             else
               (let again = \<not> resent s \<and> e_half p
                in (case (if again then e_send_error p else None) of
                      Some e \<Rightarrow> Echoed (Inl (fe_other (ascii ''icmp send: '' @ e)))
                    | None \<Rightarrow>
                        (let s = (if again then s\<lparr>requests := Suc (requests s), resent := True\<rparr> else s)
                         in (case e_wait p of
                               Packets ps \<Rightarrow>
                                 Echoing (s\<lparr>e_handed := e_handed s @ filter (\<lambda>p. is_icmp_unreachable p \<noteq> Some True) ps\<rparr>)
                             | Timeout \<Rightarrow> Echoing s
                             | Disconnected \<Rightarrow> Echoed (Inl fe_restarted)))))))"

fun echo_loop :: "bytes \<Rightarrow> echo_pass list \<Rightarrow> echo_state \<Rightarrow> echo_result" where
  "echo_loop remote [] s = Echoing s"
| "echo_loop remote (p # ps) s =
     (case echo_step remote p s of
        Echoing s' \<Rightarrow> echo_loop remote ps s'
      | Echoed r \<Rightarrow> Echoed r)"

text \<open>\<open>setup\<close>: the error of binding the socket or of the first send, if any.\<close>
definition echo :: "rust_string option \<Rightarrow> bytes \<Rightarrow> echo_pass list \<Rightarrow> echo_result" where
  "echo setup remote ps =
     (case setup of
        Some e \<Rightarrow> Echoed (Inl (fe_other e))
      | None \<Rightarrow> echo_loop remote ps \<lparr>requests = 1, resent = False, e_handed = []\<rparr>)"

definition ping :: "divert \<Rightarrow> bytes \<Rightarrow> bytes \<Rightarrow> u64 \<Rightarrow> rust_string option \<Rightarrow> echo_pass list \<Rightarrow> divert \<times> echo_result" where
  "ping d our_addr addr random setup ps =
     (if addr = our_addr then (d, Echoed (Inr True))
      else
        (case open_flow d addr 0 random of
           (d, None) \<Rightarrow> (d, Echoed (Inl (fe_other (ascii ''no free local port''))))
         | (d, Some flow) \<Rightarrow>
             (let r = echo setup addr ps
              in ((case r of Echoing _ \<Rightarrow> d | Echoed _ \<Rightarrow> drop_count (drop_remove d (g_key flow))), r))))"

section \<open>Lemmas\<close>

lemma take_packets_state:
  "sends (take_packets s ps) = sends s"
  "u_unreachable (take_packets s ps) = u_unreachable s + length (filter (\<lambda>p. is_icmp_unreachable p = Some True) ps)"
  "u_handed (take_packets s ps) = u_handed s @ filter (\<lambda>p. is_icmp_unreachable p \<noteq> Some True) ps"
  by (induction ps arbitrary: s) auto

text \<open>How often the question has gone out: at most thrice, and again only after a new error.\<close>
definition udp_ok :: "udp_state \<Rightarrow> bool" where
  "udp_ok s \<longleftrightarrow> sends s \<le> Suc RESENDS \<and> sends s \<le> Suc (u_unreachable s)"

lemma udp_step_ok: "udp_ok s \<Longrightarrow> udp_pass_step remote p s = Asking s' \<Longrightarrow> udp_ok s' \<and> 1 \<le> sends s'"
  by (auto simp: udp_pass_step_def udp_ok_def wants_send_def take_packets_state Let_def
      split: if_splits option.splits recv_wait.splits)

lemma udp_loop_ok: "udp_ok s \<Longrightarrow> udp_ok (snd (udp_loop remote ps s))"
proof (induction ps arbitrary: s)
  case (Cons p ps)
  have "udp_ok (after_send p s)" using Cons.prems by (auto simp: udp_ok_def after_send_def wants_send_def)
  then show ?case using Cons udp_step_ok [of s remote p] by (cases "udp_pass_step remote p s") auto
qed simp

lemma first_from_Some: "first_from endpoint rs = Some d \<Longrightarrow> Some (d, endpoint) \<in> set rs"
  by (induction endpoint rs rule: first_from.induct) (auto split: if_splits)

lemma udp_loop_reply:
  "fst (udp_loop remote ps s) = Replied (Inr d) \<Longrightarrow> \<exists>p\<in>set ps. Some (d, remote) \<in> set (u_recv p) \<and> u_alive p"
proof (induction ps arbitrary: s)
  case (Cons p ps)
  show ?case
  proof (cases "udp_pass_step remote p s")
    case (Asking s')
    then show ?thesis using Cons by fastforce
  next
    case (Replied r)
    then have "udp_pass_step remote p s = Replied (Inr d)" using Cons.prems by simp
    then have "first_from remote (u_recv p) = Some d" and "u_alive p"
      by (auto simp: udp_pass_step_def Let_def split: if_splits option.splits recv_wait.splits)
    then show ?thesis using first_from_Some by auto
  qed
qed simp

lemma udp_loop_ends:
  assumes "p \<in> set ps" and "u_left_zero p \<or> \<not> u_alive p \<or> u_wait p = Disconnected"
  shows "\<exists>r. fst (udp_loop remote ps s) = Replied r"
  using assms(1)
proof (induction ps arbitrary: s)
  case (Cons q ps)
  show ?case
  proof (cases "udp_pass_step remote q s")
    case (Asking s')
    have "q \<noteq> p"
    proof
      assume "q = p"
      with Asking assms(2) show False
        by (auto simp: udp_pass_step_def Let_def split: if_splits option.splits recv_wait.splits)
    qed
    then show ?thesis using Cons Asking by simp
  qed simp
qed simp

lemma echo_reply_from_True: "echo_reply_from remote rs \<Longrightarrow> Some (remote, Some True) \<in> set rs"
  by (induction remote rs rule: echo_reply_from.induct) (auto split: if_splits)

lemma echo_step_True:
  "echo_step remote p s = Echoed (Inr True) \<Longrightarrow> Some (remote, Some True) \<in> set (e_recv p) \<and> e_alive p"
  by (auto simp: echo_step_def Let_def echo_reply_from_True split: if_splits option.splits recv_wait.splits)

lemma echo_loop_True:
  "echo_loop remote ps s = Echoed (Inr True) \<Longrightarrow> \<exists>p\<in>set ps. Some (remote, Some True) \<in> set (e_recv p) \<and> e_alive p"
proof (induction ps arbitrary: s)
  case (Cons p ps)
  then show ?case using echo_step_True [of remote p s] by (cases "echo_step remote p s") auto
qed simp

lemma echo_loop_requests:
  "echo_loop remote ps s = Echoing s' \<Longrightarrow>
   requests s' \<le> requests s + (if resent s then 0 else 1)"
proof (induction ps arbitrary: s)
  case (Cons p ps)
  obtain s1 where s1: "echo_step remote p s = Echoing s1" using Cons.prems by (cases "echo_step remote p s") auto
  then have "requests s1 = requests s \<and> resent s1 = resent s \<or> \<not> resent s \<and> requests s1 = Suc (requests s) \<and> resent s1"
    by (auto simp: echo_step_def Let_def split: if_splits option.splits recv_wait.splits)
  moreover have "requests s' \<le> requests s1 + (if resent s1 then 0 else 1)" using Cons s1 by simp
  ultimately show ?case by auto
qed simp

lemma echo_loop_ends:
  assumes "p \<in> set ps" and "e_left_zero p \<or> \<not> e_alive p \<or> e_wait p = Disconnected"
  shows "\<exists>r. echo_loop remote ps s = Echoed r"
  using assms(1)
proof (induction ps arbitrary: s)
  case (Cons q ps)
  show ?case
  proof (cases "echo_step remote q s")
    case (Echoing s')
    have "q \<noteq> p"
    proof
      assume "q = p"
      with Echoing assms(2) show False
        by (auto simp: echo_step_def Let_def split: if_splits option.splits recv_wait.splits)
    qed
    then show ?thesis using Cons Echoing by simp
  qed simp
qed simp

section \<open>Properties\<close>

text \<open>
  The question is sent at most three times, and a second or third time only after as
  many new "unreachable" errors, whatever happens on the way; and it ends at the deadline.
\<close>
theorem udp_question_bounded:
  "sends (snd (udp_loop remote ps udp_init)) \<le> 3 \<and>
   sends (snd (udp_loop remote ps udp_init)) \<le> Suc (u_unreachable (snd (udp_loop remote ps udp_init))) \<and>
   ((\<exists>p\<in>set ps. u_left_zero p \<or> \<not> u_alive p \<or> u_wait p = Disconnected) \<longrightarrow>
    (\<exists>r. udp_exchange bind_error remote ps = Replied r))"
  using udp_loop_ok [of udp_init remote ps] udp_loop_ends [of _ ps remote udp_init]
  by (auto simp: udp_ok_def udp_init_def RESENDS_def udp_exchange_def split: option.split)

text \<open>
  An answer comes from the server that was asked: \<open>query\<close> returns only a datagram the
  stack received from the endpoint it sent to, and closes its flow when it has finished.
\<close>
theorem udp_answer_from_server:
  assumes "query d our_addr addr port random bind_error ps = (d', Replied r)"
  shows "(\<forall>a. r = Inr a \<longrightarrow> addr \<noteq> our_addr \<and> (\<exists>p\<in>set ps. Some (a, (addr, port)) \<in> set (u_recv p))) \<and>
         d_flows d' = d_flows d \<and> active d' = active d"
proof (cases "addr = our_addr")
  case False
  show ?thesis
  proof (cases rule: tap_flow.scope [of d addr port random])
    case (refused d1)
    then show ?thesis using assms False by (auto simp: query_def)
  next
    case (opened d1 flow)
    then have r: "udp_exchange bind_error (addr, port) ps = Replied r"
      and d': "d' = drop_count (drop_remove d1 (g_key flow))"
      using assms False by (auto simp: query_def Let_def split: udp_result.splits)
    have "\<exists>p\<in>set ps. Some (a, (addr, port)) \<in> set (u_recv p)" if "r = Inr a" for a
      using r that udp_loop_reply [of "(addr, port)" ps udp_init a]
      by (auto simp: udp_exchange_def split: option.splits)
    then show ?thesis using False opened(2) d' by blast
  qed
qed (use assms in \<open>auto simp: query_def\<close>)

text \<open>
  A node counts as reachable only on evidence: \<open>ping\<close> says yes only for the node itself
  or after an echo reply from that address; at the deadline it says no; and it closes its
  flow when it has finished.
\<close>
theorem ping_needs_reply:
  assumes "ping d our_addr addr random setup ps = (d', r)"
  shows "(r = Echoed (Inr True) \<longrightarrow> addr = our_addr \<or> (\<exists>p\<in>set ps. Some (addr, Some True) \<in> set (e_recv p))) \<and>
    ((\<exists>p\<in>set ps. e_left_zero p \<or> \<not> e_alive p \<or> e_wait p = Disconnected) \<longrightarrow>
     (\<exists>x. r = Echoed x) \<and> d_flows d' = d_flows d \<and> active d' = active d)"
proof (cases "addr = our_addr")
  case False
  show ?thesis
  proof (cases rule: tap_flow.scope [of d addr 0 random])
    case (refused d1)
    then show ?thesis using assms False by (auto simp: ping_def)
  next
    case (opened d1 flow)
    then have r: "r = echo setup addr ps"
      and d': "\<And>x. r = Echoed x \<Longrightarrow> d' = drop_count (drop_remove d1 (g_key flow))"
      using assms False by (auto simp: ping_def Let_def split: echo_result.splits)
    have "r = Echoed (Inr True) \<longrightarrow> (\<exists>p\<in>set ps. Some (addr, Some True) \<in> set (e_recv p))"
      using r echo_loop_True [of addr ps] by (auto simp: echo_def split: option.splits)
    moreover have "\<exists>x. r = Echoed x" if "\<exists>p\<in>set ps. e_left_zero p \<or> \<not> e_alive p \<or> e_wait p = Disconnected"
      using r that echo_loop_ends [of _ ps addr] by (auto simp: echo_def split: option.splits)
    ultimately show ?thesis using False opened(2) d' by (metis prod.inject)
  qed
qed (use assms in \<open>auto simp: ping_def\<close>)

section \<open>Witnesses\<close>

definition silent :: udp_pass where
  "silent = \<lparr>u_alive = True, u_send_error = None, u_tx = [(Forward, True)], u_recv = [], u_left_zero = False, u_wait = Timeout\<rparr>"

theorem udp_question_bounded_witness:
  "\<exists>r. udp_exchange None (replicate 16 0xfd, 53) [silent, silent\<lparr>u_left_zero := True\<rparr>] = Replied r"
  using udp_question_bounded [of "(replicate 16 0xfd, 53)" "[silent, silent\<lparr>u_left_zero := True\<rparr>]" None] by simp

theorem udp_answer_from_server_witness:
  "\<exists>d'. query divert_default (replicate 16 2) (replicate 16 0xfd) 53 5 None
          [silent\<lparr>u_recv := [Some ([7], replicate 16 0xfd, 53)]\<rparr>] = (d', Replied (Inr [7])) \<and> d_flows d' = []"
proof -
  have e: "d_flows divert_default = []" by (simp add: divert_default_def)
  then obtain d' where q: "query divert_default (replicate 16 2) (replicate 16 0xfd) 53 5 None
          [silent\<lparr>u_recv := [Some ([7], replicate 16 0xfd, 53)]\<rparr>] = (d', Replied (Inr [7]))"
    by (simp add: query_def open_flow_empty udp_exchange_def udp_pass_step_def silent_def wants_send_def
        udp_init_def egress_def Let_def)
  then show ?thesis using udp_answer_from_server [OF q] e by simp
qed

theorem ping_needs_reply_witness:
  "\<exists>d' r. ping divert_default (replicate 16 2) (replicate 16 0xfd) 5 None
     [\<lparr>e_alive = True, e_tx = [(Drop, True)], e_recv = [], e_left_zero = True, e_half = True, e_send_error = None,
       e_wait = Timeout\<rparr>] = (d', r) \<and> r \<noteq> Echoed (Inr True)"
proof -
  obtain d' r where p: "ping divert_default (replicate 16 2) (replicate 16 0xfd) 5 None
     [\<lparr>e_alive = True, e_tx = [(Drop, True)], e_recv = [], e_left_zero = True, e_half = True, e_send_error = None,
       e_wait = Timeout\<rparr>] = (d', r)" by fastforce
  from ping_needs_reply [OF p] have "r \<noteq> Echoed (Inr True)" by auto
  with p show ?thesis by blast
qed

end
