(* ===== verification/MeshTcp.thy ===== *)
theory MeshTcp
  imports HttpExchange
begin

text \<open>
  \<open>shim/src/meshtcp.rs\<close>: the loopback listener of a relay on the mesh. \<open>parse_mesh_relay\<close>;
  \<open>admit\<close> and \<open>read_head\<close>, which keep strangers out; \<open>accept_loop\<close> with its connection
  count, a step relation; \<open>Backlog\<close>; and the pipe, \<open>run\<close> with the reader thread and the
  event channel between them. \<open>Npub::parse\<close> is a dependency, an argument.
\<close>

section \<open>Relay URLs\<close>

definition strip_suffix :: "bytes \<Rightarrow> rust_string \<Rightarrow> rust_string option" where
  "strip_suffix suf s = (if ends_with s suf then Some (take (length s - length suf) s) else None)"

text \<open>\<open>rsplit_once\<close>: at the last occurrence.\<close>
definition rsplit_once :: "u8 \<Rightarrow> rust_string \<Rightarrow> (rust_string \<times> rust_string) option" where
  "rsplit_once c s =
     (if c \<in> set s
      then Some (rev (tl (dropWhile (\<lambda>b. b \<noteq> c) (rev s))), rev (takeWhile (\<lambda>b. b \<noteq> c) (rev s)))
      else None)"

definition parse_mesh_relay ::
  "(rust_string \<Rightarrow> 'n option) \<Rightarrow> rust_string \<Rightarrow> ('n \<times> nat \<times> rust_string) option" where
  "parse_mesh_relay parse_npub url = do {
     rest \<leftarrow> strip_prefix (ascii ''ws://'') url;
     let (hostport, path) =
       (if 47 \<in> set rest then (takeWhile (\<lambda>b. b \<noteq> 47) rest, dropWhile (\<lambda>b. b \<noteq> 47) rest) else (rest, []));
     (host, port) \<leftarrow>
       (case rsplit_once 58 hostport of
          Some (h, p) \<Rightarrow> do { n \<leftarrow> parse_uint 16 10 p; if n \<noteq> 0 then Some (h, n) else None }
        | None \<Rightarrow> Some (hostport, 80));
     npub \<leftarrow> strip_suffix (ascii ''.fips'') (map ascii_lower host);
     n \<leftarrow> parse_npub npub;
     Some (n, port, path)
   }"

section \<open>Admission\<close>

function valid_utf8 :: "bytes \<Rightarrow> bool" where
  "valid_utf8 [] = True"
| "valid_utf8 (b # r) = (let (n, valid) = utf8_step (b # r) in valid \<and> valid_utf8 (drop n (b # r)))"
  by pat_completeness auto
termination
proof (relation "measure length", simp, goal_cases)
  case (1 b r x n valid)
  then have "0 < n" using utf8_step_pos [of b r] by (metis fst_conv)
  then show ?case by (cases n) auto
qed

declare valid_utf8.simps(2) [simp del]

text \<open>\<open>trim_end_matches('\r')\<close>\<close>
definition trim_crs :: "rust_string \<Rightarrow> rust_string" where
  "trim_crs s = rev (dropWhile (\<lambda>b. b = CR) (rev s))"

definition admit :: "bytes \<Rightarrow> rust_string \<Rightarrow> rust_string \<Rightarrow> bytes option" where
  "admit hdr token path = do {
     find_window (CRLF @ CRLF) hdr;
     line_end \<leftarrow> find_window [LF] hdr;
     line \<leftarrow> (if valid_utf8 (take line_end hdr) then Some (trim_crs (take line_end hdr)) else None);
     target \<leftarrow> strip_prefix (ascii ''GET '') line \<bind> strip_suffix (ascii '' HTTP/1.1'');
     rest \<leftarrow> strip_prefix (ascii ''/'') target \<bind> strip_prefix token;
     if \<not> (rest = [] \<or> starts_with rest (ascii ''/'') \<or> starts_with rest (ascii ''?'')) then None
     else do {
       let rest = (case strip_prefix path rest of Some r \<Rightarrow> r | None \<Rightarrow> rest);
       let target = path @ rest;
       let target = (if starts_with target (ascii ''/'') then target else ascii ''/'' @ target);
       Some (ascii ''GET '' @ target @ ascii '' HTTP/1.1'' @ CRLF @ drop (line_end + 1) hdr)
     }
   }"

definition MAX_HEAD :: nat where "MAX_HEAD = 8 * 1024"

text \<open>The head read so far, and what each \<open>read\<close> returns (\<open>None\<close> an error, empty the end).\<close>
fun read_head :: "bytes \<Rightarrow> bytes option list \<Rightarrow> bytes option" where
  "read_head h rs =
     (if find_window (CRLF @ CRLF) h \<noteq> None then Some h
      else if MAX_HEAD < length h then None
      else
        (case rs of
           [] \<Rightarrow> None
         | None # _ \<Rightarrow> None
         | Some c # rs' \<Rightarrow> if c = [] then None else read_head (h @ c) rs'))"

declare read_head.simps [simp del]

section \<open>The listener\<close>

definition MAX_CONNECTIONS :: nat where "MAX_CONNECTIONS = 4"

text \<open>
  Where the accepting thread is: between connections, past a \<open>fetch_add\<close> that admitted one
  or refused one, or returned.
\<close>
datatype accept_phase = Accepting | Spawning | Refusing | Stopped

record relay_state =
  active_conns :: nat
  pipes :: nat
  phase :: accept_phase

inductive relay_step :: "relay_state \<Rightarrow> relay_state \<Rightarrow> bool" where
  stop: "phase s = Accepting \<Longrightarrow> relay_step s (s\<lparr>phase := Stopped\<rparr>)"
| accept_error: "phase s = Accepting \<Longrightarrow> relay_step s s"
| admitted: "phase s = Accepting \<Longrightarrow> active_conns s < MAX_CONNECTIONS \<Longrightarrow>
    relay_step s (s\<lparr>active_conns := active_conns s + 1, phase := Spawning\<rparr>)"
| refused: "phase s = Accepting \<Longrightarrow> MAX_CONNECTIONS \<le> active_conns s \<Longrightarrow>
    relay_step s (s\<lparr>active_conns := active_conns s + 1, phase := Refusing\<rparr>)"
| closed: "phase s = Refusing \<Longrightarrow>
    relay_step s (s\<lparr>active_conns := active_conns s - 1, phase := Accepting\<rparr>)"
| spawned: "phase s = Spawning \<Longrightarrow> relay_step s (s\<lparr>pipes := pipes s + 1, phase := Accepting\<rparr>)"
| spawn_failed: "phase s = Spawning \<Longrightarrow>
    relay_step s (s\<lparr>active_conns := active_conns s - 1, phase := Accepting\<rparr>)"
| ended: "0 < pipes s \<Longrightarrow>
    relay_step s (s\<lparr>pipes := pipes s - 1, active_conns := active_conns s - 1\<rparr>)"

inductive_cases relay_stepE: "relay_step s s'"
inductive_simps stopped_steps: "relay_step \<lparr>active_conns = a, pipes = p, phase = Stopped\<rparr> s'"

definition relay_init :: relay_state where
  "relay_init = \<lparr>active_conns = 0, pipes = 0, phase = Accepting\<rparr>"

section \<open>The backlog\<close>

definition TO_MESH_LIMIT :: nat where "TO_MESH_LIMIT = 256 * 1024"
definition TO_LOCAL_LIMIT :: nat where "TO_LOCAL_LIMIT = 64 * 1024"
definition READ_BUF :: nat where "READ_BUF = 16 * 1024"

text \<open>\<open>Backlog::add\<close> when it does not wait: the new count, or giving up.\<close>
definition backlog_add :: "nat \<Rightarrow> nat \<Rightarrow> bool \<Rightarrow> nat option option" where
  "backlog_add b n give_up =
     (if TO_MESH_LIMIT < b then if give_up then Some None else None else Some (Some (b + n)))"

definition backlog_sent :: "nat \<Rightarrow> nat \<Rightarrow> nat" where
  "backlog_sent b n = b - n"

section \<open>The pipe\<close>

datatype event = Mesh bytes | Local bytes | LocalClosed

datatype write_result = Wrote nat | Retry | Broken

text \<open>
  One turn of \<open>run\<close>: the flags, what the poll transmitted, the socket, what each
  \<open>send_slice\<close>, \<open>recv_slice\<close> and local \<open>write\<close> did, the connect deadline, how many events the
  wait took from the channel, and whether it found all senders gone.
\<close>
record pipe_pass =
  r_alive :: bool
  r_stop :: bool
  r_tx :: "(tun_action \<times> bool) list"
  r_up :: bool
  r_send :: "nat list"
  r_recv :: "bytes list"
  r_write :: "write_result list"
  r_may_recv :: bool
  r_can_recv :: bool
  r_open :: bool
  r_late :: bool
  r_events :: nat
  r_disconnected :: bool

record pipe_state =
  p_established :: bool
  p_unreachable :: nat
  to_mesh :: bytes
  first_left :: nat
  to_local :: bytes
  local_closed :: bool
  close_sent :: bool
  local_shut :: bool
  mesh_log :: bytes
  local_log :: bytes

text \<open>How \<open>run\<close> ends, \<open>None\<close> while it goes on.\<close>
type_synonym pipe_end = "(fetch_error + unit) option"

text \<open>Local to mesh: each send takes from the front, the head's bytes are not backlog.\<close>
fun send_loop :: "nat list \<Rightarrow> pipe_state \<Rightarrow> nat \<Rightarrow> pipe_state \<times> nat" where
  "send_loop [] s b = (s, b)"
| "send_loop (m # ms) s b =
     (let n = min m (length (to_mesh s))
      in if to_mesh s = [] \<or> n = 0 then (s, b)
         else
           let from_first = min n (first_left s)
           in send_loop ms
                (s\<lparr>to_mesh := drop n (to_mesh s), first_left := first_left s - from_first,
                   mesh_log := mesh_log s @ take n (to_mesh s)\<rparr>)
                (backlog_sent b (n - from_first)))"

text \<open>Mesh to local: off the socket, bounded.\<close>
fun recv_loop :: "bytes list \<Rightarrow> bytes \<Rightarrow> bytes" where
  "recv_loop [] l = l"
| "recv_loop (c # cs) l = (if length l < TO_LOCAL_LIMIT \<and> c \<noteq> [] then recv_loop cs (l @ c) else l)"

text \<open>Writing locally: what is left, what is written, and whether the local side is broken.\<close>
fun write_loop :: "write_result list \<Rightarrow> bytes \<Rightarrow> bytes \<Rightarrow> bytes \<times> bytes \<times> bool" where
  "write_loop [] l log = (l, log, False)"
| "write_loop (r # rs) l log =
     (if l = [] then (l, log, False)
      else
        (case r of
           Wrote n \<Rightarrow> if n = 0 then (l, log, False) else write_loop rs (drop n l) (log @ take n l)
         | Retry \<Rightarrow> (l, log, False)
         | Broken \<Rightarrow> (l, log, True)))"

definition handle_event :: "event \<Rightarrow> pipe_state \<Rightarrow> pipe_state" where
  "handle_event ev s =
     (case ev of
        Mesh p \<Rightarrow>
          if is_icmp_unreachable p = Some True then s\<lparr>p_unreachable := Suc (p_unreachable s)\<rparr> else s
      | Local bs \<Rightarrow> s\<lparr>to_mesh := to_mesh s @ bs\<rparr>
      | LocalClosed \<Rightarrow> s\<lparr>local_closed := True\<rparr>)"

text \<open>Passing the relay's end on, once everything it sent is delivered.\<close>
definition half_close :: "pipe_pass \<Rightarrow> pipe_state \<Rightarrow> pipe_state" where
  "half_close p s =
     (if p_established s \<and> \<not> r_may_recv p \<and> \<not> r_can_recv p \<and> to_local s = [] \<and> \<not> local_shut s
      then s\<lparr>local_shut := True, close_sent := (close_sent s \<or> to_mesh s = [])\<rparr>
      else s)"

text \<open>The end of the turn: what the wait took from the channel.\<close>
definition take_events :: "bytes \<times> u16 \<Rightarrow> pipe_pass \<Rightarrow> event list \<Rightarrow> pipe_state \<Rightarrow> pipe_state \<times> event list \<times> pipe_end" where
  "take_events remote p evs s =
     (if r_disconnected p then (s, evs, Some (Inr ()))
      else
        (let s = fold handle_event (take (r_events p) evs) s; evs = drop (r_events p) evs
         in if 3 \<le> p_unreachable s \<and> \<not> p_established s then
              (s, evs, Some (Inl (fe_unreachable (ascii ''no route to '' @ where_text remote @
                ascii '' over the mesh (the node does not know a path to it)''))))
            else (s, evs, None)))"

text \<open>The middle of the turn: both directions of the stream; whether the local side broke.\<close>
definition carry :: "pipe_pass \<Rightarrow> pipe_state \<Rightarrow> nat \<Rightarrow> pipe_state \<times> nat \<times> bool" where
  "carry p s b =
     (let (s, b) = send_loop (r_send p) s b;
          s = (if local_closed s \<and> to_mesh s = [] then s\<lparr>close_sent := True\<rparr> else s);
          s = s\<lparr>to_local := recv_loop (r_recv p) (to_local s)\<rparr>;
          (l, log, broken) = write_loop (r_write p) (to_local s) (local_log s)
      in (s\<lparr>to_local := l, local_log := log\<rparr>, b, broken))"

definition run_pass ::
  "bytes \<times> u16 \<Rightarrow> pipe_pass \<Rightarrow> event list \<Rightarrow> pipe_state \<Rightarrow> nat \<Rightarrow> pipe_state \<times> nat \<times> event list \<times> pipe_end" where
  "run_pass remote p evs s b =
     (if \<not> r_alive p then (s, b, evs, Some (Inl fe_restarted))
      else if r_stop p then (s, b, evs, Some (Inr ()))
      else
        (case transmit (fst remote) None (r_tx p) of
           Some e \<Rightarrow> (s, b, evs, Some (Inl e))
         | None \<Rightarrow>
             (let s = s\<lparr>p_established := (p_established s \<or> r_up p)\<rparr>
              in if local_closed s \<and> \<not> p_established s then (s, b, evs, Some (Inr ()))
                 else
                   let (s, b, broken) = carry p s b
                   in if broken then (s, b, evs, Some (Inr ()))
                      else
                        let s = half_close p s
                        in if \<not> r_open p then
                             (s, b, evs, Some (if p_established s then Inr () else Inl (closed_error remote False)))
                           else if \<not> p_established s \<and> r_late p then
                             (s, b, evs, Some (Inl (late_error remote False (p_unreachable s))))
                           else
                             let (s, evs, r) = take_events remote p evs s in (s, b, evs, r))))"

text \<open>The pipe as a system: the loop, the channel, the backlog, the bytes read locally.\<close>
record pipe_sys =
  loop :: pipe_state
  chan :: "event list"
  backlog :: nat
  read_log :: bytes
  recv_log :: bytes
  finished :: pipe_end

definition pipe_init :: "bytes \<Rightarrow> pipe_sys" where
  "pipe_init first =
     \<lparr>loop = \<lparr>p_established = False, p_unreachable = 0, to_mesh = first, first_left = length first,
        to_local = [], local_closed = False, close_sent = False, local_shut = False, mesh_log = [],
        local_log = []\<rparr>,
      chan = [], backlog = 0, read_log = [], recv_log = [], finished = None\<rparr>"

datatype pipe_event = ReaderRead bytes | ReaderClosed | MeshPacket bytes | Turn pipe_pass

text \<open>What the turn took off the mesh socket, when it got that far.\<close>
fun taken :: "bytes list \<Rightarrow> bytes \<Rightarrow> bytes" where
  "taken [] l = []"
| "taken (c # cs) l = (if length l < TO_LOCAL_LIMIT \<and> c \<noteq> [] then c @ taken cs (l @ c) else [])"

definition carries :: "bytes \<times> u16 \<Rightarrow> pipe_pass \<Rightarrow> pipe_state \<Rightarrow> bool" where
  "carries remote p s \<longleftrightarrow>
     r_alive p \<and> \<not> r_stop p \<and> transmit (fst remote) None (r_tx p) = None \<and>
     \<not> (local_closed s \<and> \<not> (p_established s \<or> r_up p))"

fun pipe_step :: "bytes \<times> u16 \<Rightarrow> pipe_sys \<Rightarrow> pipe_event \<Rightarrow> pipe_sys \<times> unit" where
  "pipe_step remote s (ReaderRead c) =
     (if finished s = None \<and> c \<noteq> [] \<and> length c \<le> READ_BUF then
        (case backlog_add (backlog s) (length c) (finished s \<noteq> None) of
           Some (Some b) \<Rightarrow>
             (s\<lparr>backlog := b, chan := chan s @ [Local c], read_log := read_log s @ c\<rparr>, ())
         | _ \<Rightarrow> (s, ()))
      else (s, ()))"
| "pipe_step remote s ReaderClosed = (s\<lparr>chan := chan s @ [LocalClosed]\<rparr>, ())"
| "pipe_step remote s (MeshPacket p) = (s\<lparr>chan := chan s @ [Mesh p]\<rparr>, ())"
| "pipe_step remote s (Turn p) =
     (if finished s \<noteq> None then (s, ())
      else
        (let (l, b, evs, r) = run_pass remote p (chan s) (loop s) (backlog s)
         in (s\<lparr>loop := l, chan := evs,
               backlog := (if r = None then b else backlog_sent b (2 ^ 64 - 1)),
               recv_log := recv_log s @ (if carries remote p (loop s) then taken (r_recv p) (to_local (loop s)) else []),
               finished := r\<rparr>, ())))"

text \<open>
  \<open>pipe\<close> up to the loop: the relay is not this node, the caller knows the token, a flow is
  free; \<open>Inr\<close> with the request that goes first and the flow.
\<close>
definition pipe_start ::
  "divert \<Rightarrow> bytes \<Rightarrow> bytes \<Rightarrow> u16 \<Rightarrow> rust_string \<Rightarrow> rust_string \<Rightarrow> bytes option list \<Rightarrow> u64 \<Rightarrow>
   divert \<times> ((fetch_error + unit) + (bytes \<times> flow_guard))" where
  "pipe_start d our_addr addr port token path rs random =
     (if addr = our_addr then (d, Inl (Inl (fe_other (ascii ''that is this node's own address''))))
      else
        (case read_head [] rs \<bind> (\<lambda>h. admit h token path) of
           None \<Rightarrow> (d, Inl (Inr ()))
         | Some first \<Rightarrow>
             (case open_flow d addr port random of
                (d, None) \<Rightarrow> (d, Inl (Inl (fe_other (ascii ''no free local port''))))
              | (d, Some flow) \<Rightarrow> (d, Inr (first, flow)))))"

text \<open>
  The whole of \<open>pipe\<close>: the registration of the relay's identity with the responder, the
  clone of the socket for the reader thread, the connect of the mesh socket, the loop over
  what happens, and on every way out the guard's drop. The result is \<open>None\<close> while it runs.
\<close>
record pipe_env =
  pe_register :: "bool \<times> u64 \<times> bool"
  pe_random :: u64
  pe_clone :: "rust_string option"
  pe_connect :: "rust_string option"

definition pipe ::
  "divert \<Rightarrow> bytes \<Rightarrow> bytes \<Rightarrow> u16 \<Rightarrow> rust_string \<Rightarrow> rust_string \<Rightarrow> rust_string \<Rightarrow> bytes option list \<Rightarrow> pipe_env \<Rightarrow>
   pipe_event list \<Rightarrow> divert \<times> bytes option \<times> pipe_end" where
  "pipe d our_addr addr port npub token path rs env es =
     (let asked = (if addr = our_addr \<or> read_head [] rs \<bind> (\<lambda>h. admit h token path) = None then None
                   else case pe_register env of (bound, random, was_sent) \<Rightarrow> register_identity bound random was_sent npub)
      in case pipe_start d our_addr addr port token path rs (pe_random env) of
           (d, Inl r) \<Rightarrow> (d, asked, Some r)
         | (d, Inr (first, flow)) \<Rightarrow>
             (let r = (case pe_clone env of
                         Some e \<Rightarrow> Some (Inl (fe_other e))
                       | None \<Rightarrow>
                           (case pe_connect env of
                              Some e \<Rightarrow> Some (Inl (fe_other (ascii ''connect: '' @ e)))
                            | None \<Rightarrow> finished (fst (run (pipe_step (addr, port)) (pipe_init first) es))))
              in (if r = None then d else drop_count (drop_remove d (g_key flow)), asked, r)))"

section \<open>The stream\<close>

fun locals_of :: "event list \<Rightarrow> bytes" where
  "locals_of [] = []"
| "locals_of (Local bs # evs) = bs @ locals_of evs"
| "locals_of (_ # evs) = locals_of evs"

lemma locals_of_append [simp]: "locals_of (a @ b) = locals_of a @ locals_of b"
  by (induction a rule: locals_of.induct) auto

lemma locals_of_split: "locals_of (take n evs) @ locals_of (drop n evs) = locals_of evs"
  by (metis append_take_drop_id locals_of_append)

lemma fold_events:
  "to_mesh (fold handle_event evs s) = to_mesh s @ locals_of evs"
  "first_left (fold handle_event evs s) = first_left s" "mesh_log (fold handle_event evs s) = mesh_log s"
  "to_local (fold handle_event evs s) = to_local s" "local_log (fold handle_event evs s) = local_log s"
  by (induction evs arbitrary: s rule: locals_of.induct) (auto simp: handle_event_def)

lemma send_loop_keeps:
  "send_loop ms s b = (s', b') \<Longrightarrow> first_left s \<le> length (to_mesh s) \<Longrightarrow>
   b = length (to_mesh s) - first_left s + k \<Longrightarrow>
   mesh_log s' @ to_mesh s' = mesh_log s @ to_mesh s \<and> first_left s' \<le> length (to_mesh s') \<and>
   b' = length (to_mesh s') - first_left s' + k \<and> b' \<le> b \<and> to_local s' = to_local s \<and>
   local_log s' = local_log s \<and> local_closed s' = local_closed s \<and> p_established s' = p_established s"
proof (induction ms arbitrary: s b)
  case (Cons m ms)
  define n where "n = min m (length (to_mesh s))"
  show ?case
  proof (cases "to_mesh s = [] \<or> n = 0")
    case True
    then show ?thesis using Cons.prems by (auto simp: n_def)
  next
    case False
    define f where "f = min n (first_left s)"
    define s1 where "s1 = s\<lparr>to_mesh := drop n (to_mesh s), first_left := first_left s - f,
                   mesh_log := mesh_log s @ take n (to_mesh s)\<rparr>"
    have s1: "mesh_log s1 @ to_mesh s1 = mesh_log s @ to_mesh s" "to_local s1 = to_local s" "local_log s1 = local_log s"
      "local_closed s1 = local_closed s" "p_established s1 = p_established s"
      by (simp_all add: s1_def)
    have l: "length (to_mesh s1) = length (to_mesh s) - n" and f1: "first_left s1 = first_left s - f"
      by (simp_all add: s1_def)
    have n: "n \<le> length (to_mesh s)" by (simp add: n_def)
    have fl: "first_left s1 \<le> length (to_mesh s1)"
      using l f1 n Cons.prems(2) unfolding f_def by linarith
    have b1: "backlog_sent b (n - f) = length (to_mesh s1) - first_left s1 + k"
      using Cons.prems(2,3) n l f1 unfolding f_def backlog_sent_def by (cases "n \<le> first_left s") simp_all
    have "send_loop ms s1 (backlog_sent b (n - f)) = (s', b')"
      using Cons.prems(1) False by (simp add: n_def [symmetric] f_def s1_def Let_def)
    note r = Cons.IH [OF this fl b1]
    then have "b' \<le> backlog_sent b (n - f)" by blast
    then have le: "b' \<le> b" by (simp add: backlog_sent_def)
    show ?thesis using r s1 le by simp
  qed
qed simp

lemma write_loop_keeps: "write_loop rs l log = (l', log', broken) \<Longrightarrow> log' @ l' = log @ l"
  by (induction rs l log rule: write_loop.induct) (auto split: if_splits write_result.splits)

lemma recv_loop_taken: "recv_loop cs l = l @ taken cs l"
  by (induction cs l rule: recv_loop.induct) auto

text \<open>The two directions of the stream, and the backlog, after the middle of a turn.\<close>
lemma carry_keeps:
  assumes "carry p s b = (s', b', broken)" and "first_left s \<le> length (to_mesh s)"
    and "b = length (to_mesh s) - first_left s + k"
  shows "mesh_log s' @ to_mesh s' = mesh_log s @ to_mesh s" and "first_left s' \<le> length (to_mesh s')"
    and "b' = length (to_mesh s') - first_left s' + k" and "b' \<le> b"
    and "local_log s' @ to_local s' = local_log s @ to_local s @ taken (r_recv p) (to_local s)"
    and "p_established s' = p_established s"
proof -
  obtain s1 b1 where s1: "send_loop (r_send p) s b = (s1, b1)" by fastforce
  note k = send_loop_keeps [OF s1 assms(2,3)]
  obtain l log br where w: "write_loop (r_write p) (recv_loop (r_recv p) (to_local s1)) (local_log s1) = (l, log, br)"
    by (metis surj_pair)
  have log: "log @ l = local_log s @ to_local s @ taken (r_recv p) (to_local s)"
    using write_loop_keeps [OF w] k by (simp add: recv_loop_taken)
  define s2 where "s2 = (if local_closed s1 \<and> to_mesh s1 = [] then s1\<lparr>close_sent := True\<rparr> else s1)"
  have s2: "mesh_log s2 = mesh_log s1" "to_mesh s2 = to_mesh s1" "first_left s2 = first_left s1" "to_local s2 = to_local s1"
    "local_log s2 = local_log s1" "p_established s2 = p_established s1" by (simp_all add: s2_def)
  have "s' = s2\<lparr>to_local := l, local_log := log\<rparr>" and "b' = b1"
    using assms(1) s1 w s2 by (simp_all add: carry_def Let_def s2_def [symmetric])
  moreover have "b1 \<le> b" using k by blast
  ultimately show "mesh_log s' @ to_mesh s' = mesh_log s @ to_mesh s" and "first_left s' \<le> length (to_mesh s')"
    and "b' = length (to_mesh s') - first_left s' + k" and "b' \<le> b"
    and "local_log s' @ to_local s' = local_log s @ to_local s @ taken (r_recv p) (to_local s)"
    and "p_established s' = p_established s" using s2 k log by simp_all
qed

lemma half_close_keeps [simp]:
  "mesh_log (half_close p s) = mesh_log s" "to_mesh (half_close p s) = to_mesh s"
  "first_left (half_close p s) = first_left s" "local_log (half_close p s) = local_log s"
  "to_local (half_close p s) = to_local s" "p_established (half_close p s) = p_established s"
  by (simp_all add: half_close_def)

lemma take_events_keeps:
  assumes "take_events remote p evs s = (s', evs', r)"
  shows "to_mesh s' @ locals_of evs' = to_mesh s @ locals_of evs" and "mesh_log s' = mesh_log s"
    and "length (to_mesh s) \<le> length (to_mesh s')"
    and "first_left s' = first_left s" and "to_local s' = to_local s" and "local_log s' = local_log s"
  using assms locals_of_split [of "r_events p" evs]
  by (auto simp: take_events_def Let_def fold_events split: if_splits)

text \<open>
  The invariant of the pipe: what went out and what is queued is what came in, in order,
  in both directions; and the backlog counts the queued local bytes.
\<close>
definition stream_ok :: "bytes \<Rightarrow> pipe_state \<Rightarrow> event list \<Rightarrow> bytes \<Rightarrow> bytes \<Rightarrow> bool" where
  "stream_ok first l evs reads recvs \<longleftrightarrow>
     mesh_log l @ to_mesh l @ locals_of evs = first @ reads \<and>
     local_log l @ to_local l = recvs \<and> first_left l \<le> length (to_mesh l)"

definition queued :: "pipe_state \<Rightarrow> event list \<Rightarrow> nat" where
  "queued l evs = length (to_mesh l) - first_left l + length (locals_of evs)"

lemma run_pass_keeps:
  assumes "run_pass remote p evs s b = (s', b', evs', r)" and "stream_ok first s evs reads recvs"
    and "b = queued s evs"
  shows "stream_ok first s' evs' reads (recvs @ (if carries remote p s then taken (r_recv p) (to_local s) else []))"
    and "b' = queued s' evs'" and "b' \<le> b"
proof -
  define s1 where "s1 = s\<lparr>p_established := (p_established s \<or> r_up p)\<rparr>"
  have s1: "mesh_log s1 = mesh_log s" "to_mesh s1 = to_mesh s" "first_left s1 = first_left s"
    "to_local s1 = to_local s" "local_log s1 = local_log s" by (simp_all add: s1_def)
  have "stream_ok first s' evs' reads (recvs @ (if carries remote p s then taken (r_recv p) (to_local s) else [])) \<and>
    b' = queued s' evs' \<and> b' \<le> b"
  proof (cases "carries remote p s")
    case False
    then have "s' = s \<or> s' = s1" and "b' = b" "evs' = evs"
      using assms(1) by (auto simp: run_pass_def carries_def s1_def Let_def split: if_splits option.splits)
    then show ?thesis using False assms(2,3) s1 by (auto simp: stream_ok_def queued_def)
  next
    case True
    obtain s2 b2 broken where c: "carry p s1 b = (s2, b2, broken)" by (metis surj_pair)
    have fl: "first_left s1 \<le> length (to_mesh s1)" and b: "b = length (to_mesh s1) - first_left s1 + length (locals_of evs)"
      using assms(2,3) s1 by (simp_all add: stream_ok_def queued_def)
    note k = carry_keeps [OF c fl b]
    have mid: "stream_ok first s2 evs reads (recvs @ taken (r_recv p) (to_local s)) \<and> b2 = queued s2 evs \<and> b2 \<le> b"
      using k assms(2) s1 by (auto simp: stream_ok_def queued_def) (metis append_assoc)+
    have r: "run_pass remote p evs s b =
      (if broken then (s2, b2, evs, Some (Inr ()))
       else if \<not> r_open p then
         (half_close p s2, b2, evs, Some (if p_established s2 then Inr () else Inl (closed_error remote False)))
       else if \<not> p_established s2 \<and> r_late p then
         (half_close p s2, b2, evs, Some (Inl (late_error remote False (p_unreachable (half_close p s2)))))
       else let (s, evs, r) = take_events remote p evs (half_close p s2) in (s, b2, evs, r))"
    proof -
      have f: "r_alive p = True" "r_stop p = False" "transmit (fst remote) None (r_tx p) = None"
        "(local_closed s1 \<and> \<not> p_established s1) = False"
        using True by (simp_all add: carries_def s1_def)
      show ?thesis
        unfolding run_pass_def s1_def [symmetric] Let_def
        by (simp only: f c half_close_keeps(6) if_True if_False not_True_eq_False not_False_eq_True option.case prod.case)
    qed
    show ?thesis
    proof (cases "broken \<or> \<not> r_open p \<or> \<not> p_established s2 \<and> r_late p")
      case True
      then have "(s' = s2 \<or> s' = half_close p s2) \<and> b' = b2 \<and> evs' = evs"
        using assms(1) r by (auto split: if_splits)
      then show ?thesis using mid \<open>carries remote p s\<close> by (auto simp: stream_ok_def queued_def)
    next
      case False
      obtain s3 evs3 r3 where t: "take_events remote p evs (half_close p s2) = (s3, evs3, r3)" by (metis surj_pair)
      then have "s' = s3" "b' = b2" "evs' = evs3" using assms(1) r False by (auto simp: Let_def)
      note e = take_events_keeps [OF t]
      have "length (to_mesh s3) + length (locals_of evs3) = length (to_mesh s2) + length (locals_of evs)"
        using arg_cong [OF e(1), of length] by simp
      moreover have "first_left s3 = first_left s2" "length (to_mesh s2) \<le> length (to_mesh s3)" "first_left s2 \<le> length (to_mesh s2)"
        using e k(2) by simp_all
      moreover have "b2 = length (to_mesh s2) - first_left s2 + length (locals_of evs)" using mid by (simp add: queued_def)
      ultimately have q: "b2 = queued s3 evs3" unfolding queued_def by linarith
      have "mesh_log s3 @ to_mesh s3 @ locals_of evs3 = mesh_log s2 @ to_mesh s2 @ locals_of evs"
        using e(1,2) by simp
      then have "stream_ok first s3 evs3 reads (recvs @ taken (r_recv p) (to_local s))"
        using mid e \<open>first_left s3 = first_left s2\<close> \<open>length (to_mesh s2) \<le> length (to_mesh s3)\<close>
        by (simp add: stream_ok_def)
      then show ?thesis using q mid \<open>s' = s3\<close> \<open>b' = b2\<close> \<open>evs' = evs3\<close> \<open>carries remote p s\<close> by simp
    qed
  qed
  then show "stream_ok first s' evs' reads (recvs @ (if carries remote p s then taken (r_recv p) (to_local s) else []))"
    and "b' = queued s' evs'" and "b' \<le> b" by blast+
qed

definition pipe_ok :: "bytes \<Rightarrow> pipe_sys \<Rightarrow> bool" where
  "pipe_ok first s \<longleftrightarrow>
     stream_ok first (loop s) (chan s) (read_log s) (recv_log s) \<and>
     (finished s = None \<longrightarrow> backlog s = queued (loop s) (chan s) \<and> backlog s \<le> TO_MESH_LIMIT + READ_BUF)"

lemma pipe_ok_init: "pipe_ok first (pipe_init first)"
  by (simp add: pipe_ok_def pipe_init_def stream_ok_def queued_def)

lemma pipe_ok_step: "pipe_ok first s \<Longrightarrow> pipe_ok first (fst (pipe_step remote s e))"
proof (cases e)
  case (ReaderRead c)
  assume "pipe_ok first s"
  with ReaderRead show ?thesis
    by (auto simp: pipe_ok_def stream_ok_def queued_def backlog_add_def split: option.splits)
next
  case ReaderClosed
  assume "pipe_ok first s"
  with ReaderClosed show ?thesis by (auto simp: pipe_ok_def stream_ok_def queued_def)
next
  case (MeshPacket p)
  assume "pipe_ok first s"
  with MeshPacket show ?thesis by (auto simp: pipe_ok_def stream_ok_def queued_def)
next
  case (Turn p)
  assume ok: "pipe_ok first s"
  show ?thesis
  proof (cases "finished s")
    case None
    obtain l b evs r where r: "run_pass remote p (chan s) (loop s) (backlog s) = (l, b, evs, r)" by (metis surj_pair)
    have st: "stream_ok first (loop s) (chan s) (read_log s) (recv_log s)" and q: "backlog s = queued (loop s) (chan s)"
      and lim: "backlog s \<le> TO_MESH_LIMIT + READ_BUF"
      using ok None by (simp_all add: pipe_ok_def)
    note k = run_pass_keeps [OF r st q]
    have "b \<le> TO_MESH_LIMIT + READ_BUF" using k(3) lim by simp
    then show ?thesis using Turn None r k(1,2) by (simp add: pipe_ok_def)
  qed (use Turn ok in simp)
qed

interpretation pipem: machine "pipe_init first" "pipe_step remote" "pipe_ok first" for first remote
  by unfold_locales (rule pipe_ok_init, rule pipe_ok_step)

section \<open>Admission and URLs\<close>

lemma strip_prefix_Some: "strip_prefix p s = Some r \<longleftrightarrow> s = p @ r"
  by (auto simp: strip_prefix_def starts_with_def) (metis append_take_drop_id)

lemma strip_suffix_Some: "strip_suffix suf s = Some r \<longleftrightarrow> s = r @ suf"
  by (auto simp: strip_suffix_def ends_with_def) (metis append_take_drop_id)

lemma trim_crs_prefix: "\<exists>r. s = trim_crs s @ r"
  unfolding trim_crs_def by (metis rev_append rev_rev_ident takeWhile_dropWhile_id)

lemma find_LF:
  "find_window [LF] h = Some i \<Longrightarrow> h = take i h @ LF # drop (i + 1) h \<and> LF \<notin> set (take i h)"
proof (induction h arbitrary: i)
  case (Cons x h)
  then show ?case by (cases i) (auto split: if_splits)
qed simp

lemma valid_utf8_ascii: "\<forall>b\<in>set s. b < 0x80 \<Longrightarrow> valid_utf8 s"
  by (induction s) (simp_all add: valid_utf8.simps width_def)

lemma trim_crs_line: "CR \<notin> set l \<Longrightarrow> trim_crs (l @ [CR]) = l"
  unfolding trim_crs_def by (cases "rev l") (auto simp: rev_swap)

lemma relay_inv:
  "relay_step\<^sup>*\<^sup>* relay_init s \<Longrightarrow>
   active_conns s = pipes s + (if phase s = Spawning \<or> phase s = Refusing then 1 else 0) \<and>
   pipes s \<le> MAX_CONNECTIONS \<and> (phase s = Spawning \<longrightarrow> pipes s < MAX_CONNECTIONS)"
proof (induction rule: rtranclp_induct)
  case base
  then show ?case by (simp add: relay_init_def)
next
  case (step s s')
  from step(2) show ?case by (cases rule: relay_step.cases) (use step(3) in auto)
qed

lemma rsplit_once_last:
  assumes "c \<notin> set b"
  shows "rsplit_once c (a @ c # b) = Some (a, b)"
proof -
  have "takeWhile (\<lambda>x. x \<noteq> c) (rev b @ c # rev a) = rev b @ takeWhile (\<lambda>x. x \<noteq> c) (c # rev a)"
    by (rule takeWhile_append2) (use assms in auto)
  moreover have "dropWhile (\<lambda>x. x \<noteq> c) (rev b @ c # rev a) = dropWhile (\<lambda>x. x \<noteq> c) (c # rev a)"
    by (rule dropWhile_append2) (use assms in auto)
  ultimately show ?thesis by (simp add: rsplit_once_def)
qed

section \<open>Properties\<close>


text \<open>
  A request is admitted only when its first line asks for \<open>/<token>\<close>, followed by nothing,
  a path or a query; what goes to the relay is a request line for the relay's path with
  everything after the first line unchanged.
\<close>
lemma admit_needs_token:
  assumes "admit h token path = Some out"
  shows "\<exists>rest after. starts_with h (ascii ''GET /'' @ token @ rest @ ascii '' HTTP/1.1'') \<and>
    (rest = [] \<or> starts_with rest (ascii ''/'') \<or> starts_with rest (ascii ''?'')) \<and>
    (\<exists>line. h = line @ LF # after \<and> LF \<notin> set line) \<and>
    (\<exists>target. out = ascii ''GET '' @ target @ ascii '' HTTP/1.1'' @ CRLF @ after \<and> starts_with target (ascii ''/''))"
proof -
  obtain i target rest where i: "find_window [LF] h = Some i"
    and t: "trim_crs (take i h) = ascii ''GET '' @ target @ ascii '' HTTP/1.1''" and r: "target = ascii ''/'' @ token @ rest"
    and ok: "rest = [] \<or> starts_with rest (ascii ''/'') \<or> starts_with rest (ascii ''?'')"
    and out: "out = ascii ''GET '' @ (let t = path @ (case strip_prefix path rest of Some r \<Rightarrow> r | None \<Rightarrow> rest)
                in if starts_with t (ascii ''/'') then t else ascii ''/'' @ t) @ ascii '' HTTP/1.1'' @ CRLF @ drop (i + 1) h"
    using assms
    by (auto simp: admit_def Let_def bind_eq_Some_conv strip_prefix_Some strip_suffix_Some split: if_splits)
  obtain crs where "take i h = ascii ''GET '' @ target @ ascii '' HTTP/1.1'' @ crs"
    using trim_crs_prefix [of "take i h"] t by auto
  then have "h = (ascii ''GET /'' @ token @ rest @ ascii '' HTTP/1.1'') @ crs @ LF # drop (i + 1) h"
    using find_LF [OF i] r by (simp add: ascii_def)
  then have "starts_with h (ascii ''GET /'' @ token @ rest @ ascii '' HTTP/1.1'')"
    unfolding starts_with_iff by blast
  moreover have "starts_with (let t = path @ (case strip_prefix path rest of Some r \<Rightarrow> r | None \<Rightarrow> rest)
                in if starts_with t (ascii ''/'') then t else ascii ''/'' @ t) (ascii ''/'')"
    by (auto simp: Let_def starts_with_iff)
  ultimately show ?thesis
    using ok out find_LF [OF i] by (intro exI [of _ rest] exI [of _ "drop (i + 1) h"]) blast
qed

lemma run_finished: "finished s \<noteq> None \<Longrightarrow> finished (fst (run (pipe_step remote) s es)) = finished s"
proof (induction es arbitrary: s)
  case (Cons e es)
  then have "finished (fst (pipe_step remote s e)) = finished s" by (cases e) auto
  then show ?case using Cons by simp
qed simp

text \<open>The engine's flag or the relay's stop ends the loop at its next turn.\<close>
lemma run_stops:
  "Turn p \<in> set es \<Longrightarrow> \<not> r_alive p \<or> r_stop p \<Longrightarrow> finished (fst (run (pipe_step remote) s es)) \<noteq> None"
proof (induction es arbitrary: s)
  case (Cons e es)
  show ?case
  proof (cases "e = Turn p")
    case True
    then have "finished (fst (pipe_step remote s e)) \<noteq> None"
      using Cons.prems(2) by (auto simp: run_pass_def split: prod.split)
    then show ?thesis by (simp add: run_finished)
  qed (use Cons in simp)
qed simp

text \<open>
  C19. A relay connection serves only the holder of the token, and cleans up after itself.
  Whatever the local caller sends and whatever happens afterwards: either nothing was opened
  or the caller's first line asked for \<open>/<token>\<close>, followed by nothing, a path or a query;
  without it the tap is untouched and nobody is asked about the relay. Once the pipe has
  ended, on any path, the tap has the flows and the count it had before; and it has ended
  when the engine's flag or the relay's stop was seen once.
\<close>
theorem relay_serves_token_holder:
  assumes "pipe d our_addr addr port npub token path rs env es = (d', asked, r)"
  shows "(d' = d \<and> asked = None \<and> r \<noteq> None \<or>
      addr \<noteq> our_addr \<and>
      (\<exists>h rest. read_head [] rs = Some h \<and> starts_with h (ascii ''GET /'' @ token @ rest @ ascii '' HTTP/1.1'') \<and>
         (rest = [] \<or> starts_with rest (ascii ''/'') \<or> starts_with rest (ascii ''?'')))) \<and>
    (r \<noteq> None \<longrightarrow> d_flows d' = d_flows d \<and> active d' = active d) \<and>
    ((\<exists>p. Turn p \<in> set es \<and> (\<not> r_alive p \<or> r_stop p)) \<longrightarrow> r \<noteq> None)"
proof (cases "addr = our_addr \<or> read_head [] rs \<bind> (\<lambda>h. admit h token path) = None")
  case True
  then have "d' = d \<and> asked = None \<and> r \<noteq> None"
    using assms by (auto simp: pipe_def pipe_start_def split: if_splits)
  then show ?thesis by blast
next
  case False
  then obtain h first where h: "read_head [] rs = Some h" "admit h token path = Some first"
    by (cases "read_head [] rs") auto
  have key: "\<exists>h rest. read_head [] rs = Some h \<and> starts_with h (ascii ''GET /'' @ token @ rest @ ascii '' HTTP/1.1'') \<and>
         (rest = [] \<or> starts_with rest (ascii ''/'') \<or> starts_with rest (ascii ''?''))"
    using admit_needs_token [OF h(2)] h(1) by blast
  have "(r \<noteq> None \<longrightarrow> d_flows d' = d_flows d \<and> active d' = active d) \<and>
    ((\<exists>p. Turn p \<in> set es \<and> (\<not> r_alive p \<or> r_stop p)) \<longrightarrow> r \<noteq> None)"
  proof (cases rule: tap_flow.scope [of d addr port "pe_random env"])
    case (refused d1)
    then show ?thesis using assms False h by (auto simp: pipe_def pipe_start_def Let_def)
  next
    case (opened d1 flow)
    define ran where "ran = finished (fst (run (pipe_step (addr, port)) (pipe_init first) es))"
    have r: "r = (case pe_clone env of Some e \<Rightarrow> Some (Inl (fe_other e))
                 | None \<Rightarrow> (case pe_connect env of Some e \<Rightarrow> Some (Inl (fe_other (ascii ''connect: '' @ e))) | None \<Rightarrow> ran))"
      and d': "d' = (if r = None then d1 else drop_count (drop_remove d1 (g_key flow)))"
      using assms False h opened(1) unfolding ran_def by (auto simp: pipe_def pipe_start_def Let_def)
    have "\<exists>p. Turn p \<in> set es \<and> (\<not> r_alive p \<or> r_stop p) \<Longrightarrow> ran \<noteq> None"
      unfolding ran_def using run_stops by blast
    then show ?thesis using r d' opened(2) by (auto split: option.splits)
  qed
  then show ?thesis using key False by blast
qed

text \<open>
  The resolver's own request is admitted and rewritten to the relay's path: for the URL
  the proxy hands out, \<open>/<token><path>\<close>, the relay sees \<open>GET <path>\<close> (or \<open>/\<close>) with the
  same headers.
\<close>
theorem admit_rewrites_own_request:
  assumes "\<forall>b\<in>set (token @ path). b < 0x80 \<and> b \<noteq> LF \<and> b \<noteq> CR" and "path = [] \<or> hd path = 47"
    and "find_window (CRLF @ CRLF) (CRLF @ headers) \<noteq> None"
  shows "admit (ascii ''GET /'' @ token @ path @ ascii '' HTTP/1.1'' @ CRLF @ headers) token path =
    Some (ascii ''GET '' @ (if path = [] then ascii ''/'' else path) @ ascii '' HTTP/1.1'' @ CRLF @ headers)"
proof -
  define line where "line = ascii ''GET /'' @ token @ path @ ascii '' HTTP/1.1''"
  have line: "\<forall>b\<in>set line. b < 0x80 \<and> b \<noteq> LF \<and> b \<noteq> CR"
    using assms(1) by (auto simp: line_def ascii_def LF_def CR_def)
  define h where "h = line @ CRLF @ headers"
  have cr: "CR \<notin> set line" using line by blast
  have w: "find_window (CRLF @ CRLF) h \<noteq> None"
    using find_window_prefix [of CR line "[LF, CR, LF]" "CRLF @ headers"] assms(3) cr by (simp add: h_def CRLF_def)
  have "find_window [LF] ((line @ [CR]) @ [LF] @ headers) = Some (length (line @ [CR]))"
    using line by (intro find_window_skip [of _ LF "[]"]) auto
  define L where "L = length line + 1"
  from \<open>find_window [LF] ((line @ [CR]) @ [LF] @ headers) = Some (length (line @ [CR]))\<close>
  have lf: "find_window [LF] h = Some L" by (simp add: h_def CRLF_def L_def)
  have t: "take L h = line @ [CR]" by (simp add: h_def CRLF_def L_def)
  have utf8: "valid_utf8 (line @ [CR])" using line by (intro valid_utf8_ascii) (auto simp: CR_def)
  have d: "drop (L + 1) h = headers" by (simp add: h_def CRLF_def L_def)
  have get: "strip_prefix (ascii ''GET '') line = Some (ascii ''/'' @ token @ path @ ascii '' HTTP/1.1'')"
    by (simp add: strip_prefix_Some line_def ascii_def)
  have http: "strip_suffix (ascii '' HTTP/1.1'') (ascii ''/'' @ token @ path @ ascii '' HTTP/1.1'') = Some (ascii ''/'' @ token @ path)"
    by (simp add: strip_suffix_Some)
  have slash: "strip_prefix (ascii ''/'') (ascii ''/'' @ token @ path) = Some (token @ path)" by (simp add: strip_prefix_Some)
  have tok: "strip_prefix token (token @ path) = Some path" by (simp add: strip_prefix_Some)
  have own: "strip_prefix p p = Some []" for p by (simp add: strip_prefix_Some)
  have p: "path = [] \<or> starts_with path (ascii ''/'')"
    using assms(2) by (cases path) (auto simp: starts_with_def ascii_def)
  have e: "\<not> starts_with [] (ascii ''/'')" by (simp add: starts_with_def ascii_def)
  obtain y where y: "find_window (CRLF @ CRLF) h = Some y" using w by blast
  have "admit h token path = Some (ascii ''GET '' @ (if path = [] then ascii ''/'' else path) @ ascii '' HTTP/1.1'' @ CRLF @ headers)"
    unfolding admit_def y lf t trim_crs_line [OF cr] bind.bind_lunit Let_def d
    using p e by (auto simp: utf8 get http slash tok own)
  then show ?thesis by (simp add: h_def line_def)
qed

text \<open>
  A relay serves at most four connections at a time: in every reachable state of the
  listener and its connections at most four pipes run, and the counter is their number plus
  the connection being decided, so it returns to zero when they have ended.
\<close>
theorem relay_connections_bounded:
  assumes "relay_step\<^sup>*\<^sup>* relay_init s"
  shows "pipes s \<le> 4 \<and>
    active_conns s = pipes s + (if phase s = Spawning \<or> phase s = Refusing then 1 else 0)"
  using relay_inv [OF assms] by (simp add: MAX_CONNECTIONS_def)

text \<open>
  A mesh relay URL is read as written: host (in any case), port and path; without a port
  it is 80.
\<close>
theorem mesh_relay_url_parses:
  assumes "parse_npub (map ascii_lower host) = Some n" and "47 \<notin> set host" and "58 \<notin> set host"
    and "0 < port" and "port < 65536" and "path = [] \<or> hd path = 47"
  shows "parse_mesh_relay parse_npub (ascii ''ws://'' @ host @ ascii ''.FIPS'' @ ascii '':'' @ show_dec port @ path) = Some (n, port, path) \<and>
         parse_mesh_relay parse_npub (ascii ''ws://'' @ host @ ascii ''.fips'' @ path) = Some (n, 80, path)"
proof -
  have digits: "b \<noteq> 47 \<and> b \<noteq> 58" if "b \<in> set (show_dec port)" for b
  proof -
    have "\<forall>d<16. digit d \<noteq> 47 \<and> digit d \<noteq> 58" by code_simp
    then show ?thesis using show_radix_digits [of 10 b port] that by auto
  qed
  have split: "(if 47 \<in> set (q @ path) then (takeWhile (\<lambda>b. b \<noteq> 47) (q @ path), dropWhile (\<lambda>b. b \<noteq> 47) (q @ path))
                else (q @ path, [])) = (q, path)" if "47 \<notin> set q" for q
  proof (cases path)
    case Nil
    then show ?thesis using that by simp
  next
    case (Cons x p)
    then have "x = 47" using assms(6) by simp
    moreover have "\<forall>b\<in>set q. b \<noteq> 47" using that by blast
    ultimately show ?thesis using Cons that by (simp add: takeWhile_append2 dropWhile_append2)
  qed
  have ws: "strip_prefix (ascii ''ws://'') (ascii ''ws://'' @ r) = Some r" for r by (simp add: strip_prefix_Some)
  have suf: "strip_suffix (ascii ''.fips'') (map ascii_lower (host @ ascii ''.FIPS'')) = Some (map ascii_lower host)"
    "strip_suffix (ascii ''.fips'') (map ascii_lower (host @ ascii ''.fips'')) = Some (map ascii_lower host)"
    by (simp_all add: strip_suffix_Some ascii_def ascii_lower_def)
  have port: "parse_uint 16 10 (show_dec port) = Some port" by (rule parse_show) (use assms(5) in simp_all)
  have h: "47 \<notin> set (host @ ascii ''.FIPS'' @ ascii '':'' @ show_dec port)" "47 \<notin> set (host @ ascii ''.fips'')"
    "58 \<notin> set (host @ ascii ''.fips'')"
    using assms(2,3) digits by (auto simp: ascii_def)
  have r1: "rsplit_once 58 (host @ ascii ''.FIPS'' @ ascii '':'' @ show_dec port) = Some (host @ ascii ''.FIPS'', show_dec port)"
    using rsplit_once_last [of 58 "show_dec port" "host @ ascii ''.FIPS''"] digits by (auto simp: ascii_def)
  have r2: "rsplit_once 58 (host @ ascii ''.fips'') = None" using h(3) by (simp add: rsplit_once_def)
  have "parse_mesh_relay parse_npub (ascii ''ws://'' @ host @ ascii ''.FIPS'' @ ascii '':'' @ show_dec port @ path) = Some (n, port, path)"
    using split [OF h(1)] assms(1,4)
    by (simp only: parse_mesh_relay_def ws bind.bind_lunit append_assoc Let_def prod.case)
      (simp add: r1 port suf [unfolded map_append])
  moreover have "parse_mesh_relay parse_npub (ascii ''ws://'' @ host @ ascii ''.fips'' @ path) = Some (n, 80, path)"
    using split [OF h(2)] assms(1)
    by (simp only: parse_mesh_relay_def ws bind.bind_lunit append_assoc Let_def prod.case)
      (simp add: r2 suf [unfolded map_append])
  ultimately show ?thesis by blast
qed

section \<open>Witnesses\<close>

definition pass0 :: pipe_pass where
  "pass0 = \<lparr>r_alive = True, r_stop = False, r_tx = [(Forward, True)], r_up = True, r_send = [2], r_recv = [[5, 6]],
     r_write = [Wrote 1], r_may_recv = True, r_can_recv = False, r_open = True, r_late = False, r_events = 1,
     r_disconnected = False\<rparr>"


definition own_headers :: bytes where "own_headers = ascii ''Host: x'' @ CRLF @ CRLF"

theorem admit_rewrites_own_request_witness:
  "admit (ascii ''GET /'' @ ascii ''t0k'' @ ascii ''/nostr'' @ ascii '' HTTP/1.1'' @ CRLF @ own_headers) (ascii ''t0k'') (ascii ''/nostr'') =
   Some (ascii ''GET '' @ ascii ''/nostr'' @ ascii '' HTTP/1.1'' @ CRLF @ own_headers)"
proof -
  have a: "\<forall>b\<in>set (ascii ''t0k'' @ ascii ''/nostr''). b < 0x80 \<and> b \<noteq> LF \<and> b \<noteq> CR"
    "ascii ''/nostr'' = [] \<or> hd (ascii ''/nostr'') = 47" "find_window (CRLF @ CRLF) (CRLF @ own_headers) = Some 9"
    "ascii ''/nostr'' \<noteq> []"
    by code_simp+
  from admit_rewrites_own_request [OF a(1,2), of own_headers] a(3,4) show ?thesis by simp
qed

definition own_request :: bytes where "own_request = ascii ''GET /t0k/nostr HTTP/1.1'' @ CRLF @ CRLF"

definition some_pipe_env :: pipe_env where
  "some_pipe_env = \<lparr>pe_register = (True, 7, True), pe_random = 5, pe_clone = None, pe_connect = None\<rparr>"

lemma own_request_opens:
  "\<exists>d' query. pipe divert_default (replicate 16 2) (replicate 16 0xfd) 80 (ascii ''npub1x'') (ascii ''t0k'') (ascii ''/nostr'')
     [Some own_request] some_pipe_env [Turn (pass0\<lparr>r_stop := True\<rparr>)] = (d', Some query, Some (Inr ()))"
proof -
  have a: "read_head [] [Some own_request] = Some own_request" "admit own_request (ascii ''t0k'') (ascii ''/nostr'') \<noteq> None"
    by code_simp+
  then obtain first where first: "admit own_request (ascii ''t0k'') (ascii ''/nostr'') = Some first" by blast
  show ?thesis
    by (simp add: pipe_def pipe_start_def a(1) first open_flow_empty Let_def some_pipe_env_def register_identity_def pass0_def
        pipe_init_def run_pass_def divert_default_def)
qed

theorem relay_serves_token_holder_witness:
  "\<exists>d' asked. pipe divert_default (replicate 16 2) (replicate 16 0xfd) 80 (ascii ''npub1x'') (ascii ''t0k'') (ascii ''/nostr'')
     [Some own_request] some_pipe_env [Turn (pass0\<lparr>r_stop := True\<rparr>)] = (d', asked, Some (Inr ())) \<and> asked \<noteq> None \<and>
     d_flows d' = d_flows divert_default"
  using own_request_opens relay_serves_token_holder by blast

theorem relay_connections_bounded_witness:
  "pipes (\<lparr>active_conns = 1, pipes = 1, phase = Accepting\<rparr>) \<le> 4 \<and> relay_step\<^sup>*\<^sup>* relay_init \<lparr>active_conns = 1, pipes = 1, phase = Accepting\<rparr>"
proof -
  have "relay_step relay_init \<lparr>active_conns = 1, pipes = 0, phase = Spawning\<rparr>"
    using relay_step.admitted [of relay_init] by (simp add: relay_init_def MAX_CONNECTIONS_def)
  moreover have "relay_step \<lparr>active_conns = 1, pipes = 0, phase = Spawning\<rparr> \<lparr>active_conns = 1, pipes = 1, phase = Accepting\<rparr>"
    using relay_step.spawned [of "\<lparr>active_conns = 1, pipes = 0, phase = Spawning\<rparr>"] by simp
  ultimately have r: "relay_step\<^sup>*\<^sup>* relay_init \<lparr>active_conns = 1, pipes = 1, phase = Accepting\<rparr>" by simp
  from relay_connections_bounded [OF r] r show ?thesis by blast
qed

theorem mesh_relay_url_parses_witness:
  "parse_mesh_relay Some (ascii ''ws://'' @ ascii ''npub1x'' @ ascii ''.FIPS'' @ ascii '':'' @ show_dec 7777 @ ascii ''/nostr'') =
   Some (ascii ''npub1x'', 7777, ascii ''/nostr'')"
proof -
  have a: "Some (map ascii_lower (ascii ''npub1x'')) = Some (ascii ''npub1x'')" "47 \<notin> set (ascii ''npub1x'')"
    "58 \<notin> set (ascii ''npub1x'')" "ascii ''/nostr'' = [] \<or> hd (ascii ''/nostr'') = 47" by code_simp+
  from mesh_relay_url_parses [where parse_npub = Some and port = 7777, OF a(1-3) _ _ a(4)] show ?thesis by simp
qed

end
