(* ===== verification/PumpFlow.thy ===== *)
theory PumpFlow
  imports InboundFilter HttpExchange
begin

text \<open>
  \<open>shim/src/pump.rs\<close>, where packets go: the reader (\<open>run_reader\<close>, \<open>is_mesh_bound\<close>) from the
  TUN fd to the DNS proxy, the userspace forwarder, the mesh or back to the app, and the
  bridge from the mesh to the TUN, through the reply tap and the firewall they share. What
  the node's \<open>TunPacketProcessor\<close> says of a packet and how \<open>poll\<close> and \<open>read\<close> end are
  observations; \<open>IPV6_ADDRESS_PREFIX\<close> is the \<open>fips\<close> crate's constant, a parameter.
\<close>

section \<open>The reader\<close>

definition is_mesh_bound :: "u8 \<Rightarrow> bytes \<Rightarrow> bool rust" where
  "is_mesh_bound mesh_prefix packet =
     (if length packet < 40 then Some False
      else do {
        b0 \<leftarrow> idx packet 0;
        if drop_bit 4 b0 \<noteq> 6 then Some False
        else do { b24 \<leftarrow> idx packet 24; Some (b24 = mesh_prefix) }
      })"

definition dst_of :: "bytes \<Rightarrow> bytes" where
  "dst_of packet = (case get_range packet 24 40 of Some b \<Rightarrow> b | None \<Rightarrow> replicate 16 0)"

text \<open>The part of \<open>ReaderCtx\<close> that decides: the sentinel, whether there is a forwarder.\<close>
record reader_ctx =
  c_dns_addr :: bytes
  c_has_forward :: bool
  c_mesh_prefix :: u8

text \<open>
  What one packet meets: \<open>process\<close>'s action and the packet as it left it, whether the
  channel it is sent to still has its receiver, the clock.
\<close>
record packet_env =
  v_processed :: bytes
  v_action :: tun_action
  v_accepted :: bool
  v_now :: instant
  v_rank :: "flow_key \<Rightarrow> nat"

text \<open>The firewall, and what went out on each channel.\<close>
record reader_state =
  fw :: "inbound_filter option"
  dns_out :: "bytes list"
  clear_out :: "bytes list"
  mesh_out :: "bytes list"
  tun_out :: "bytes list"
  refused_log :: "bytes list"

definition reader_init :: "inbound_filter option \<Rightarrow> reader_state" where
  "reader_init f =
     \<lparr>fw = f, dns_out = [], clear_out = [], mesh_out = [], tun_out = [], refused_log = []\<rparr>"

text \<open>The loop body after the read; \<open>False\<close> when it breaks out of the loop.\<close>
definition reader_packet ::
  "reader_ctx \<Rightarrow> packet_env \<Rightarrow> bytes \<Rightarrow> reader_state \<Rightarrow> (reader_state \<times> bool) rust" where
  "reader_packet ctx v packet s = do {
     dns \<leftarrow> intercepts packet (c_dns_addr ctx);
     if dns then Some (s\<lparr>dns_out := dns_out s @ [packet]\<rparr>, True)
     else do {
       mesh \<leftarrow> is_mesh_bound (c_mesh_prefix ctx) packet;
       if \<not> mesh then
         Some (if c_has_forward ctx
               then if v_accepted v then (s\<lparr>clear_out := clear_out s @ [packet]\<rparr>, True) else (s, False)
               else (s, True))
       else
         (let packet = v_processed v
          in case v_action v of
               Forward \<Rightarrow> do {
                 f \<leftarrow> (case fw s of
                        None \<Rightarrow> Some None
                      | Some f \<Rightarrow> map_option Some (note_outbound (v_rank v) f packet (v_now v)));
                 let s = s\<lparr>fw := f\<rparr>;
                 Some (if v_accepted v then (s\<lparr>mesh_out := mesh_out s @ [packet]\<rparr>, True) else (s, False))
               }
             | Hairpin \<Rightarrow>
                 Some (if v_accepted v then (s\<lparr>tun_out := tun_out s @ [packet]\<rparr>, True) else (s, False))
             | Respond response \<Rightarrow>
                 (let s = s\<lparr>refused_log := refused_log s @ [dst_of packet]\<rparr>
                  in Some (if v_accepted v then (s\<lparr>tun_out := tun_out s @ [response]\<rparr>, True) else (s, False)))
             | Drop \<Rightarrow> Some (s\<lparr>refused_log := refused_log s @ [dst_of packet]\<rparr>, True))
     }
   }"

definition READER_BUF :: nat where "READER_BUF = 65536"

text \<open>
  What \<open>poll\<close> and \<open>read\<close> do: fail (interrupted or for good), report the wake or an error of
  the fd, have nothing to read, or read some bytes (at most the buffer).
\<close>
datatype read_result = ReadFailed bool | ReadBytes bytes
datatype poll_result = PollFailed bool | Polled bool bool bool read_result

record turn =
  n_alive :: bool
  n_poll :: poll_result
  n_env :: packet_env

text \<open>One turn of the loop: the packet to handle, or going on, or the end.\<close>
datatype turn_result = Handle bytes | Next | Ended

definition turn_input :: "turn \<Rightarrow> turn_result" where
  "turn_input t =
     (if \<not> n_alive t then Ended
      else
        (case n_poll t of
           PollFailed interrupted \<Rightarrow> if interrupted then Next else Ended
         | Polled woken broken readable r \<Rightarrow>
             if woken then Ended
             else if broken then Ended
             else if \<not> readable then Next
             else
               (case r of
                  ReadFailed again \<Rightarrow> if again then Next else Ended
                | ReadBytes b \<Rightarrow> if b = [] then Next else Handle (take READER_BUF b))))"

fun run_reader :: "reader_ctx \<Rightarrow> turn list \<Rightarrow> reader_state \<Rightarrow> (reader_state \<times> bool) rust" where
  "run_reader ctx [] s = Some (s, True)"
| "run_reader ctx (t # ts) s =
     (case turn_input t of
        Ended \<Rightarrow> Some (s, False)
      | Next \<Rightarrow> run_reader ctx ts s
      | Handle packet \<Rightarrow> do {
          (s, goes_on) \<leftarrow> reader_packet ctx (n_env t) packet s;
          if goes_on then run_reader ctx ts s else Some (s, False)
        })"

section \<open>Where a packet belongs\<close>

datatype route = Dns bytes | Clear bytes | Unrouted | ToMesh bytes | Back bytes | Refused

text \<open>The packets of the mesh prefix.\<close>
definition mesh_bound :: "u8 \<Rightarrow> bytes \<Rightarrow> bool" where
  "mesh_bound mesh_prefix p \<longleftrightarrow> 40 \<le> length p \<and> drop_bit 4 (p ! 0) = 6 \<and> p ! 24 = mesh_prefix"

definition route_of :: "reader_ctx \<Rightarrow> packet_env \<Rightarrow> bytes \<Rightarrow> route" where
  "route_of ctx v p =
     (if intercepts p (c_dns_addr ctx) = Some True then Dns p
      else if \<not> mesh_bound (c_mesh_prefix ctx) p then if c_has_forward ctx then Clear p else Unrouted
      else
        (case v_action v of
           Forward \<Rightarrow> ToMesh (v_processed v)
         | Hairpin \<Rightarrow> Back (v_processed v)
         | Respond r \<Rightarrow> Back r
         | Drop \<Rightarrow> Refused))"

lemma is_mesh_bound_eq: "is_mesh_bound pre p = Some (mesh_bound pre p)"
  by (auto simp: is_mesh_bound_def mesh_bound_def idx_def)

lemma intercepts_total: "\<exists>b. intercepts p a = Some b"
  by (simp add: intercepts_def parse_ipv6_udp_eq)

definition noted_fw :: "packet_env \<Rightarrow> bytes \<Rightarrow> inbound_filter option \<Rightarrow> inbound_filter option" where
  "noted_fw v q f =
     map_option (\<lambda>f. if plain_l4 q \<and> \<not> is_icmp q
                     then f\<lparr>flows := noted (v_rank v) (flows f) (out_key q) (v_now v)\<rparr> else f) f"

text \<open>The loop body, by the route.\<close>
lemma reader_packet_eq:
  "\<exists>l. reader_packet ctx v p s =
     Some (case route_of ctx v p of
             Dns q \<Rightarrow> (s\<lparr>dns_out := dns_out s @ [q]\<rparr>, True)
           | Clear q \<Rightarrow> if v_accepted v then (s\<lparr>clear_out := clear_out s @ [q]\<rparr>, True) else (s, False)
           | Unrouted \<Rightarrow> (s, True)
           | ToMesh q \<Rightarrow>
               (let s = s\<lparr>fw := noted_fw v q (fw s)\<rparr>
                in if v_accepted v then (s\<lparr>mesh_out := mesh_out s @ [q]\<rparr>, True) else (s, False))
           | Back q \<Rightarrow>
               (let s = s\<lparr>refused_log := l\<rparr>
                in if v_accepted v then (s\<lparr>tun_out := tun_out s @ [q]\<rparr>, True) else (s, False))
           | Refused \<Rightarrow> (s\<lparr>refused_log := l\<rparr>, True))"
proof -
  obtain b where b: "intercepts p (c_dns_addr ctx) = Some b" using intercepts_total by blast
  show ?thesis
    by (rule exI [of _ "if v_action v = Hairpin then refused_log s else refused_log s @ [dst_of (v_processed v)]"])
      (auto simp: reader_packet_def route_of_def b is_mesh_bound_eq noted_fw_def note_outbound_eq Let_def
        split: tun_action.splits option.splits)
qed

text \<open>The packets that reach the loop body, each with what it meets.\<close>
fun packets_of :: "turn list \<Rightarrow> (packet_env \<times> bytes) list" where
  "packets_of [] = []"
| "packets_of (t # ts) =
     (case turn_input t of
        Ended \<Rightarrow> []
      | Next \<Rightarrow> packets_of ts
      | Handle p \<Rightarrow> (n_env t, p) # packets_of ts)"

definition is_dns :: "reader_ctx \<Rightarrow> packet_env \<times> bytes \<Rightarrow> bool" where
  "is_dns ctx = (\<lambda>(v, p). intercepts p (c_dns_addr ctx) = Some True)"

definition is_clear :: "reader_ctx \<Rightarrow> packet_env \<times> bytes \<Rightarrow> bool" where
  "is_clear ctx x \<longleftrightarrow> \<not> is_dns ctx x \<and> \<not> mesh_bound (c_mesh_prefix ctx) (snd x)"

definition is_mesh :: "reader_ctx \<Rightarrow> packet_env \<times> bytes \<Rightarrow> bool" where
  "is_mesh ctx x \<longleftrightarrow> \<not> is_dns ctx x \<and> mesh_bound (c_mesh_prefix ctx) (snd x)"

definition is_back :: "packet_env \<times> bytes \<Rightarrow> bool" where
  "is_back x \<longleftrightarrow> (case v_action (fst x) of Hairpin \<Rightarrow> True | Respond _ \<Rightarrow> True | _ \<Rightarrow> False)"

definition back_of :: "packet_env \<times> bytes \<Rightarrow> bytes" where
  "back_of x = (case v_action (fst x) of Respond r \<Rightarrow> r | _ \<Rightarrow> v_processed (fst x))"

text \<open>The packet met a channel whose receiver is gone.\<close>
definition refused_by_channel :: "reader_ctx \<Rightarrow> packet_env \<times> bytes \<Rightarrow> bool" where
  "refused_by_channel ctx x \<longleftrightarrow> \<not> v_accepted (fst x) \<and>
     (is_clear ctx x \<and> c_has_forward ctx \<or> is_mesh ctx x \<and> v_action (fst x) \<noteq> Drop)"

definition served :: "reader_ctx \<Rightarrow> turn list \<Rightarrow> (packet_env \<times> bytes) list" where
  "served ctx ts = takeWhile (\<lambda>x. \<not> refused_by_channel ctx x) (packets_of ts)"

lemmas class_defs = is_dns_def is_clear_def is_mesh_def is_back_def back_of_def refused_by_channel_def

text \<open>What the state gains, from a list of served packets.\<close>
definition gains :: "reader_ctx \<Rightarrow> (packet_env \<times> bytes) list \<Rightarrow> reader_state \<Rightarrow> reader_state \<Rightarrow> bool" where
  "gains ctx xs s s' \<longleftrightarrow>
     dns_out s' = dns_out s @ map snd (filter (is_dns ctx) xs) \<and>
     clear_out s' = clear_out s @ map snd (filter (\<lambda>x. is_clear ctx x \<and> c_has_forward ctx) xs) \<and>
     mesh_out s' = mesh_out s @
       map (\<lambda>x. v_processed (fst x)) (filter (\<lambda>x. is_mesh ctx x \<and> v_action (fst x) = Forward) xs) \<and>
     tun_out s' = tun_out s @ map back_of (filter (\<lambda>x. is_mesh ctx x \<and> is_back x) xs)"

lemma gains_refl [simp]: "gains ctx [] s s"
  by (simp add: gains_def)

lemma gains_Cons: "gains ctx [x] s s1 \<Longrightarrow> gains ctx xs s1 s2 \<Longrightarrow> gains ctx (x # xs) s s2"
  unfolding gains_def by (elim conjE) (simp split: if_splits)

lemma reader_packet_gains:
  "\<exists>s'. reader_packet ctx v p s = Some (s', \<not> refused_by_channel ctx (v, p)) \<and>
     (if refused_by_channel ctx (v, p) then gains ctx [] s s' else gains ctx [(v, p)] s s')"
proof -
  obtain l where l: "reader_packet ctx v p s =
     Some (case route_of ctx v p of
             Dns q \<Rightarrow> (s\<lparr>dns_out := dns_out s @ [q]\<rparr>, True)
           | Clear q \<Rightarrow> if v_accepted v then (s\<lparr>clear_out := clear_out s @ [q]\<rparr>, True) else (s, False)
           | Unrouted \<Rightarrow> (s, True)
           | ToMesh q \<Rightarrow>
               (let s = s\<lparr>fw := noted_fw v q (fw s)\<rparr>
                in if v_accepted v then (s\<lparr>mesh_out := mesh_out s @ [q]\<rparr>, True) else (s, False))
           | Back q \<Rightarrow>
               (let s = s\<lparr>refused_log := l\<rparr>
                in if v_accepted v then (s\<lparr>tun_out := tun_out s @ [q]\<rparr>, True) else (s, False))
           | Refused \<Rightarrow> (s\<lparr>refused_log := l\<rparr>, True))"
    using reader_packet_eq by blast
  show ?thesis
    unfolding l by (cases "v_action v") (auto simp: route_of_def gains_def class_defs Let_def)
qed

lemma run_reader_gains:
  "\<exists>s' goes_on. run_reader ctx ts s = Some (s', goes_on) \<and> gains ctx (served ctx ts) s s'"
proof (induction ts arbitrary: s)
  case Nil
  show ?case by (auto simp: served_def)
next
  case (Cons t ts)
  show ?case
  proof (cases "turn_input t")
    case (Handle p)
    obtain s1 where s1: "reader_packet ctx (n_env t) p s = Some (s1, \<not> refused_by_channel ctx (n_env t, p))"
      "if refused_by_channel ctx (n_env t, p) then gains ctx [] s s1 else gains ctx [(n_env t, p)] s s1"
      using reader_packet_gains by blast
    show ?thesis
    proof (cases "refused_by_channel ctx (n_env t, p)")
      case True
      then show ?thesis using s1 Handle by (auto simp: served_def)
    next
      case False
      obtain s' goes_on where "run_reader ctx ts s1 = Some (s', goes_on)" "gains ctx (served ctx ts) s1 s'"
        using Cons.IH by blast
      then show ?thesis using s1 Handle False by (auto simp: served_def intro: gains_Cons)
    qed
  next
    case Next
    then show ?thesis using Cons.IH by (simp add: served_def)
  next
    case Ended
    then show ?thesis by (auto simp: served_def)
  qed
qed

text \<open>
  C5. The reader routes every packet to exactly one place, keeps the order, loses nothing
  before a channel closes, and never panics. A DNS query to the sentinel goes to the proxy
  and nowhere else; a packet outside the mesh prefix goes to the userspace forwarder as it
  was read, never into the mesh; into the mesh go exactly the packets of the mesh prefix
  that the node's pipeline forwards, in the form it gave them; back to the app go exactly
  its hairpins and refusals.
\<close>
theorem reader_routes_packets:
  "\<exists>s' goes_on. run_reader ctx ts s = Some (s', goes_on) \<and>
     (let xs = served ctx ts
      in dns_out s' = dns_out s @ map snd (filter (is_dns ctx) xs) \<and>
         clear_out s' = clear_out s @ map snd (filter (\<lambda>x. is_clear ctx x \<and> c_has_forward ctx) xs) \<and>
         mesh_out s' = mesh_out s @
           map (\<lambda>x. v_processed (fst x)) (filter (\<lambda>x. is_mesh ctx x \<and> v_action (fst x) = Forward) xs) \<and>
         tun_out s' = tun_out s @ map back_of (filter (\<lambda>x. is_mesh ctx x \<and> is_back x) xs))"
  using run_reader_gains [of ctx ts s] by (simp only: gains_def Let_def)

section \<open>The bridge and the tunnel\<close>

text \<open>
  The reader, the bridge and the requests of the app's own HTTP client share the firewall
  and the reply tap, each behind its lock: a run is an interleaving of their operations.
  \<open>logged_ports\<close>: the ports whose first denial was logged.
\<close>
record tunnel =
  reader :: reader_state
  tap_state :: tap_sys
  reader_on :: bool
  bridge_on :: bool
  logged_ports :: "u16 list"
  bridge_out :: "bytes list"

datatype tunnel_event =
    Read packet_env bytes
  | FromMesh bytes instant bool
  | Requests tap_event

datatype tunnel_out = Went route | Delivered bytes | ToRequest | Denied | Quiet | Panic

text \<open>One packet in the bridge's loop; \<open>queued\<close>: the writer channel took it.\<close>
definition bridge_packet :: "bytes \<Rightarrow> instant \<Rightarrow> bool \<Rightarrow> tunnel \<Rightarrow> (tunnel \<times> tunnel_out) rust" where
  "bridge_packet packet now queued s = do {
     (d, kept) \<leftarrow> claim (tap (tap_state s)) packet;
     let s = s\<lparr>tap_state := (tap_state s)\<lparr>tap := d\<rparr>\<rparr>;
     case kept of
       None \<Rightarrow> Some (s, ToRequest)
     | Some packet \<Rightarrow> do {
         (f, allowed) \<leftarrow>
           (case fw (reader s) of
              None \<Rightarrow> Some (None, True)
            | Some f \<Rightarrow> map_option (\<lambda>(f, a). (Some f, a)) (allow_inbound f packet now));
         let s = s\<lparr>reader := (reader s)\<lparr>fw := f\<rparr>\<rparr>;
         if \<not> allowed then do {
           (proto, port, src) \<leftarrow> describe packet;
           Some
             (if length (logged_ports s) < 64 \<and> port \<notin> set (logged_ports s)
              then (s\<lparr>logged_ports := port # logged_ports s\<rparr>, Denied) else (s, Denied))
         }
         else Some (if queued then (s\<lparr>bridge_out := bridge_out s @ [packet]\<rparr>, Delivered packet)
                    else (s\<lparr>bridge_on := False\<rparr>, Quiet))
       }
   }"

fun tunnel_step :: "reader_ctx \<Rightarrow> tunnel \<Rightarrow> tunnel_event \<Rightarrow> tunnel \<times> tunnel_out" where
  "tunnel_step ctx s (Read v p) =
     (if \<not> reader_on s then (s, Quiet)
      else
        (case reader_packet ctx v p (reader s) of
           None \<Rightarrow> (s, Panic)
         | Some (r, goes_on) \<Rightarrow> (s\<lparr>reader := r, reader_on := goes_on\<rparr>, Went (route_of ctx v p))))"
| "tunnel_step ctx s (FromMesh p now queued) =
     (if \<not> bridge_on s then (s, Quiet)
      else (case bridge_packet p now queued s of None \<Rightarrow> (s, Panic) | Some r \<Rightarrow> r))"
| "tunnel_step ctx s (Requests e) =
     (case e of
        Claim p \<Rightarrow> (s, Quiet)
      | _ \<Rightarrow> (s\<lparr>tap_state := fst (tap_step (tap_state s) e)\<rparr>, Quiet))"

definition tunnel_init :: "inbound_filter option \<Rightarrow> tunnel" where
  "tunnel_init f =
     \<lparr>reader = reader_init f, tap_state = tap_init, reader_on = True, bridge_on = True,
      logged_ports = [], bridge_out = []\<rparr>"

subsection \<open>The firewall's view\<close>

text \<open>What the tunnel does to the firewall, as operations of the firewall.\<close>
definition to_fw :: "reader_ctx \<Rightarrow> tunnel \<Rightarrow> tunnel_event \<Rightarrow> fw_event list" where
  "to_fw ctx s e =
     (case e of
        Read v p \<Rightarrow>
          (case route_of ctx v p of
             ToMesh q \<Rightarrow> if reader_on s then [Outbound q (v_now v) (v_rank v)] else []
           | _ \<Rightarrow> [])
      | FromMesh p now queued \<Rightarrow>
          if bridge_on s \<and> snd (offer (tap (tap_state s)) p) \<noteq> None then [Inbound p now] else []
      | Requests _ \<Rightarrow> [])"

fun fw_view :: "reader_ctx \<Rightarrow> tunnel \<Rightarrow> tunnel_event list \<Rightarrow> fw_event list" where
  "fw_view ctx s [] = []"
| "fw_view ctx s (e # es) = to_fw ctx s e @ fw_view ctx (fst (tunnel_step ctx s e)) es"

lemma describe_total: "\<exists>proto port src. describe p = Some (proto, port, src)"
  by (auto simp: describe_def filter_parse_eq)

lemma claim_offer: "claim d p = Some (offer d p)"
  by (auto simp: offer_def claim_eq split: option.splits)

lemma allow_total: "\<exists>f' a. allow_inbound f p t = Some (f', a)"
  by (simp add: allow_inbound_eq split: option.split)

lemma allow_fw_step: "allow_inbound f p t = Some (f', a) \<Longrightarrow> fw_step f (Inbound p t) = (f', Verdict a)"
  by simp

text \<open>The bridge never panics; what it did follows the tap and the firewall.\<close>
lemma bridge_packet_cases:
  obtains (request) d where "offer (tap (tap_state s)) p = (d, None)"
      "bridge_packet p now queued s = Some (s\<lparr>tap_state := (tap_state s)\<lparr>tap := d\<rparr>\<rparr>, ToRequest)"
    | (passed) d q f a s' r where "offer (tap (tap_state s)) p = (d, Some q)"
      "case fw (reader s) of None \<Rightarrow> f = None \<and> a | Some g \<Rightarrow> \<exists>g'. f = Some g' \<and> fw_step g (Inbound q now) = (g', Verdict a)"
      "bridge_packet p now queued s = Some (s', r)"
      "tap_state s' = (tap_state s)\<lparr>tap := d\<rparr>" "reader s' = (reader s)\<lparr>fw := f\<rparr>" "reader_on s' = reader_on s"
      "r = (if \<not> a then Denied else if queued then Delivered q else Quiet)"
      "bridge_on s' = (bridge_on s \<and> \<not> (a \<and> \<not> queued))"
      "bridge_out s' = bridge_out s @ (if a \<and> queued then [q] else [])"
      "length (logged_ports s) \<le> 64 \<longrightarrow> length (logged_ports s') \<le> 64"
proof (cases "offer (tap (tap_state s)) p")
  case (Pair d kept)
  show ?thesis
  proof (cases kept)
    case None
    show ?thesis
      by (rule request [of d]) (simp_all add: Pair None bridge_packet_def claim_offer Let_def)
  next
    case (Some q)
    obtain f a where fa: "(case fw (reader s) of
              None \<Rightarrow> Some (None, True)
            | Some f \<Rightarrow> map_option (\<lambda>(f, a). (Some f, a)) (allow_inbound f q now)) = Some (f, a)"
      "case fw (reader s) of None \<Rightarrow> f = None \<and> a | Some g \<Rightarrow> \<exists>g'. f = Some g' \<and> fw_step g (Inbound q now) = (g', Verdict a)"
    proof (cases "fw (reader s)")
      case None
      then show ?thesis using that [of None True] by simp
    next
      case (Some g)
      obtain g' a where "allow_inbound g q now = Some (g', a)" using allow_total by blast
      then show ?thesis using that [of "Some g'" a] Some by simp
    qed
    obtain proto port src where de: "describe q = Some (proto, port, src)" using describe_total by blast
    have "bridge_packet p now queued s \<noteq> None"
      by (simp add: bridge_packet_def claim_offer Pair Some fa(1) de Let_def)
    then obtain s' r where b: "bridge_packet p now queued s = Some (s', r)" by auto
    show ?thesis
      by (rule passed [OF _ fa(2) b])
        (use b in \<open>auto simp: bridge_packet_def claim_offer Pair Some fa(1) de Let_def split: if_splits\<close>)
  qed
qed

text \<open>The reader's effect on the firewall, whatever became of the packet.\<close>
lemma reader_packet_fw:
  obtains s' goes_on where "reader_packet ctx v p s = Some (s', goes_on)"
    "fw s' = (case route_of ctx v p of ToMesh q \<Rightarrow> noted_fw v q (fw s) | _ \<Rightarrow> fw s)"
proof -
  obtain l where l: "reader_packet ctx v p s =
     Some (case route_of ctx v p of
             Dns q \<Rightarrow> (s\<lparr>dns_out := dns_out s @ [q]\<rparr>, True)
           | Clear q \<Rightarrow> if v_accepted v then (s\<lparr>clear_out := clear_out s @ [q]\<rparr>, True) else (s, False)
           | Unrouted \<Rightarrow> (s, True)
           | ToMesh q \<Rightarrow>
               (let s = s\<lparr>fw := noted_fw v q (fw s)\<rparr>
                in if v_accepted v then (s\<lparr>mesh_out := mesh_out s @ [q]\<rparr>, True) else (s, False))
           | Back q \<Rightarrow>
               (let s = s\<lparr>refused_log := l\<rparr>
                in if v_accepted v then (s\<lparr>tun_out := tun_out s @ [q]\<rparr>, True) else (s, False))
           | Refused \<Rightarrow> (s\<lparr>refused_log := l\<rparr>, True))"
    using reader_packet_eq by blast
  show ?thesis
  proof (cases "reader_packet ctx v p s")
    case None
    then show ?thesis by (simp add: l)
  next
    case (Some r)
    obtain s' goes_on where r: "r = (s', goes_on)" by fastforce
    show ?thesis
      by (rule that [of s' goes_on]) (use Some r l in \<open>auto simp: Let_def split: route.splits if_splits\<close>)
  qed
qed

lemma noted_fw_step: "noted_fw v q f = map_option (\<lambda>f. fst (fw_step f (Outbound q (v_now v) (v_rank v)))) f"
  by (cases f) (simp_all add: noted_fw_def note_outbound_eq)

text \<open>What holds of the shared state between any two operations.\<close>
definition tunnel_ok :: "tunnel \<Rightarrow> bool" where
  "tunnel_ok s \<longleftrightarrow> tap_ok (tap_state s) \<and> (\<forall>f. fw (reader s) = Some f \<longrightarrow> filter_ok f) \<and>
     length (logged_ports s) \<le> 64"

lemma tap_ok_offer: "tap_ok t \<Longrightarrow> offer (tap t) p = (d, r) \<Longrightarrow> tap_ok (t\<lparr>tap := d\<rparr>)"
  using tap_ok_step [of t "Claim p"] by (simp add: claim_offer)

lemma filter_ok_step: "filter_ok f \<Longrightarrow> filter_ok (fst (fw_step f e))"
  by (rule fw.ok_step)

lemma filter_ok_noted: "(\<And>f. x = Some f \<Longrightarrow> filter_ok f) \<Longrightarrow> noted_fw v q x = Some f' \<Longrightarrow> filter_ok f'"
  by (auto simp: noted_fw_step filter_ok_step simp del: fw_step.simps)

lemma tunnel_ok_step: "tunnel_ok s \<Longrightarrow> tunnel_ok (fst (tunnel_step ctx s e))"
proof (cases e)
  case (Read v p)
  assume ok: "tunnel_ok s"
  obtain r goes_on where r: "reader_packet ctx v p (reader s) = Some (r, goes_on)"
    "fw r = (case route_of ctx v p of ToMesh q \<Rightarrow> noted_fw v q (fw (reader s)) | _ \<Rightarrow> fw (reader s))"
    by (rule reader_packet_fw)
  have "filter_ok f" if "fw r = Some f" for f
    using ok r(2) that filter_ok_noted [of "fw (reader s)"]
    by (auto simp: tunnel_ok_def split: route.splits)
  then show ?thesis using ok r(1) by (auto simp: Read tunnel_ok_def)
next
  case (FromMesh p now queued)
  assume ok: "tunnel_ok s"
  show ?thesis
  proof (cases rule: bridge_packet_cases [where p = p and now = now and queued = queued and s = s])
    case (request d)
    then show ?thesis using ok tap_ok_offer by (auto simp: FromMesh tunnel_ok_def)
  next
    case (passed d q f a s' r)
    have "filter_ok g" if "f = Some g" for g
    proof (cases "fw (reader s)")
      case (Some g')
      then show ?thesis
        using passed(2) ok that filter_ok_step [of g' "Inbound q now"]
        by (auto simp: tunnel_ok_def simp del: fw_step.simps)
    qed (use passed(2) that in simp)
    then show ?thesis
      using ok passed tap_ok_offer [OF _ passed(1)] by (auto simp: FromMesh tunnel_ok_def)
  qed
next
  case (Requests e')
  assume ok: "tunnel_ok s"
  have "tap_ok (fst (tap_step (tap_state s) e'))" using ok tap_ok_step by (simp add: tunnel_ok_def)
  then show ?thesis using ok by (auto simp: Requests tunnel_ok_def split: tap_event.splits)
qed

lemma tunnel_ok_init: "(\<And>g. f = Some g \<Longrightarrow> filter_ok g) \<Longrightarrow> tunnel_ok (tunnel_init f)"
  by (simp add: tunnel_ok_def tunnel_init_def reader_init_def tap_ok_init)

interpretation tunm: machine "tunnel_init (map_option filter_new ports)" "tunnel_step ctx" tunnel_ok for ports ctx
  by unfold_locales (auto simp: filter_ok_new intro: tunnel_ok_init tunnel_ok_step)

text \<open>The firewall inside the tunnel runs exactly its own operations.\<close>
lemma fw_tunnel_step:
  "fw (reader (fst (tunnel_step ctx s e))) =
   map_option (\<lambda>f. fst (run fw_step f (to_fw ctx s e))) (fw (reader s))"
proof (cases e)
  case (Read v p)
  obtain r goes_on where "reader_packet ctx v p (reader s) = Some (r, goes_on)"
    "fw r = (case route_of ctx v p of ToMesh q \<Rightarrow> noted_fw v q (fw (reader s)) | _ \<Rightarrow> fw (reader s))"
    by (rule reader_packet_fw)
  then show ?thesis
    by (auto simp: Read to_fw_def noted_fw_step option.map_ident split: route.split)
next
  case (FromMesh p now queued)
  show ?thesis
  proof (cases rule: bridge_packet_cases [where p = p and now = now and queued = queued and s = s])
    case (request d)
    then show ?thesis by (simp add: FromMesh to_fw_def option.map_ident)
  next
    case (passed d q f a s' r)
    have "q = p" using passed(1) by (auto simp: offer_def claim_eq split: option.splits if_splits)
    then show ?thesis using passed by (auto simp: FromMesh to_fw_def option.map_ident split: option.splits)
  qed
next
  case (Requests e')
  then show ?thesis by (simp add: to_fw_def option.map_ident split: tap_event.split)
qed

lemma fw_tunnel_run:
  "fw (reader (fst (run (tunnel_step ctx) s es))) =
   map_option (\<lambda>f. fst (run fw_step f (fw_view ctx s es))) (fw (reader s))"
proof (induction es arbitrary: s)
  case (Cons e es)
  show ?case
    by (simp add: Cons.IH fw_tunnel_step run_append option.map_comp comp_def)
qed (simp add: option.map_ident)

lemma delivered:
  assumes "snd (tunnel_step ctx s (FromMesh p now queued)) = Delivered q"
  shows "q = p" and "snd (offer (tap (tap_state s)) p) = Some p"
    and "fw (reader s) = Some f \<Longrightarrow> snd (fw_step f (Inbound p now)) = Verdict True"
proof -
  have on: "bridge_on s" using assms by (auto split: if_splits)
  have "q = p \<and> snd (offer (tap (tap_state s)) p) = Some p \<and>
    (\<forall>f. fw (reader s) = Some f \<longrightarrow> snd (fw_step f (Inbound p now)) = Verdict True)"
  proof (cases rule: bridge_packet_cases [where p = p and now = now and queued = queued and s = s])
    case (request d)
    then show ?thesis using assms on by simp
  next
    case (passed d q' f a s' r)
    have "q' = p" using passed(1) by (auto simp: offer_def claim_eq split: option.splits if_splits)
    then show ?thesis using passed assms on by (auto split: if_splits)
  qed
  then show "q = p" and "snd (offer (tap (tap_state s)) p) = Some p"
    and "fw (reader s) = Some f \<Longrightarrow> snd (fw_step f (Inbound p now)) = Verdict True" by blast+
qed

section \<open>Properties of the tunnel\<close>

lemma to_fw_Outbound: "Outbound q t k \<in> set (to_fw ctx s e) \<Longrightarrow> snd (tunnel_step ctx s e) = Went (ToMesh q)"
proof -
  assume a: "Outbound q t k \<in> set (to_fw ctx s e)"
  then obtain v p where e: "e = Read v p" "route_of ctx v p = ToMesh q" "reader_on s"
    by (auto simp: to_fw_def split: tunnel_event.splits route.splits if_splits)
  obtain r goes_on where "reader_packet ctx v p (reader s) = Some (r, goes_on)"
    by (rule reader_packet_fw)
  then show ?thesis using e by simp
qed

lemma fw_view_origin:
  "x \<in> set (fw_view ctx s es) \<Longrightarrow>
   \<exists>j<length es. x \<in> set (to_fw ctx (fst (run (tunnel_step ctx) s (take j es))) (es ! j))"
proof (induction es arbitrary: s)
  case (Cons e es)
  show ?case
  proof (cases "x \<in> set (to_fw ctx s e)")
    case True
    then show ?thesis by (intro exI [of _ 0]) simp
  next
    case False
    then obtain j where "j < length es"
      "x \<in> set (to_fw ctx (fst (run (tunnel_step ctx) (fst (tunnel_step ctx s e)) (take j es))) (es ! j))"
      using Cons by auto
    then show ?thesis by (intro exI [of _ "Suc j"]) simp
  qed
qed simp

lemma sends_routed:
  assumes "\<exists>x\<in>set (history ports (fw_view ctx s es)). sends x k"
  shows "\<exists>j<length es. \<exists>q. snd (run (tunnel_step ctx) s es) ! j = Went (ToMesh q) \<and>
    plain_l4 q \<and> \<not> is_icmp q \<and> out_key q = k"
proof -
  obtain e r where e: "(e, r) \<in> set (history ports (fw_view ctx s es))" "sends (e, r) k" using assms by auto
  then obtain q t rank where q: "e = Outbound q t rank" "plain_l4 q" "\<not> is_icmp q" "out_key q = k"
    by (cases e) auto
  have "e \<in> set (fw_view ctx s es)" using e(1) by (auto simp: history_def dest: set_zip_leftD)
  then obtain j where j: "j < length es"
    "Outbound q t rank \<in> set (to_fw ctx (fst (run (tunnel_step ctx) s (take j es))) (es ! j))"
    using fw_view_origin q(1) by blast
  show ?thesis using q j to_fw_Outbound [OF j(2)] by (intro exI [of _ j]) (simp add: run_nth)
qed

text \<open>
  C1. Default deny, end to end. Whatever the reader, the bridge and the requests of the
  app's own client do in whatever order, a packet from the mesh reaches the TUN only
  unchanged, only if it is ICMPv6, goes to an allowlisted port, or answers a packet that
  the reader took from the TUN and the node's pipeline let into the mesh, with exactly the
  reversed addresses and ports; and only if it does not belong to an open flow of the
  app's own client.
\<close>
theorem tunnel_delivers_only_solicited:
  assumes "i < length es" and "es ! i = FromMesh p now queued"
    and "snd (run (tunnel_step ctx) (tunnel_init (Some (filter_new ports))) es) ! i = Delivered q"
  shows "q = p \<and> plain_l4 p \<and>
    (is_icmp p \<or> dst_port_of p \<in> set ports \<or>
     (\<exists>j<i. \<exists>m. snd (run (tunnel_step ctx) (tunnel_init (Some (filter_new ports))) es) ! j = Went (ToMesh m) \<and>
        plain_l4 m \<and> \<not> is_icmp m \<and> out_key m = in_key p)) \<and>
    (\<forall>k. key_of p = Some k \<longrightarrow>
       \<not> is_open (tap (tap_state (fst (run (tunnel_step ctx) (tunnel_init (Some (filter_new ports))) (take i es))))) k)"
proof -
  let ?t0 = "tunnel_init (Some (filter_new ports))"
  define s where "s = fst (run (tunnel_step ctx) ?t0 (take i es))"
  define view where "view = fw_view ctx ?t0 (take i es)"
  have out: "snd (tunnel_step ctx s (FromMesh p now queued)) = Delivered q"
    using assms by (simp add: run_nth s_def del: tunnel_step.simps)
  have f: "fw (reader s) = Some (fst (run fw_step (filter_new ports) view))"
    unfolding s_def view_def by (simp add: fw_tunnel_run tunnel_init_def reader_init_def)
  note d = delivered [OF out]
  have ok: "tunnel_ok s"
    using tunm.ok_run [of ctx "Some ports" "take i es"] by (simp add: s_def)
  have "\<not> is_open (tap (tap_state s)) k" if "key_of p = Some k" for k
    using d(2) ok dtap.offer_result [of "tap (tap_state s)" p] that
    by (auto simp: tunnel_ok_def tap_ok_def split: if_splits)
  moreover have "plain_l4 p \<and> (is_icmp p \<or> dst_port_of p \<in> set ports \<or>
      (\<exists>x\<in>set (history ports view). sends x (in_key p)))"
    using d(3) [OF f] map_of_Some_justified [OF justified_run [of ports view], of "in_key p"]
    by (auto simp: allow_inbound_eq port_allowed_run split: if_splits option.splits)
  moreover have "\<exists>j<i. \<exists>m. snd (run (tunnel_step ctx) ?t0 es) ! j = Went (ToMesh m) \<and>
        plain_l4 m \<and> \<not> is_icmp m \<and> out_key m = in_key p"
    if x: "\<exists>x\<in>set (history ports view). sends x (in_key p)"
  proof -
    obtain j m where j: "j < i" "snd (run (tunnel_step ctx) ?t0 (take i es)) ! j = Went (ToMesh m)"
      "plain_l4 m" "\<not> is_icmp m" "out_key m = in_key p"
      using sends_routed [OF x [unfolded view_def]] assms(1) by auto
    then show ?thesis by (intro exI [of _ j]) (auto simp: run_take)
  qed
  ultimately show ?thesis using d(1) unfolding s_def by blast
qed

subsection \<open>Replies reach the app\<close>

lemma fw_view_inbound:
  assumes "\<forall>e\<in>set es. case e of Read v r \<Rightarrow> (\<forall>q. route_of ctx v r \<noteq> ToMesh q)
      | FromMesh x u queued \<Rightarrow> queued \<and> P u | Requests _ \<Rightarrow> True"
  shows "\<forall>x\<in>set (fw_view ctx s es). \<exists>p t. x = Inbound p t \<and> P t"
  using assms
proof (induction es arbitrary: s)
  case (Cons e es)
  have "\<forall>x\<in>set (to_fw ctx s e). \<exists>p t. x = Inbound p t \<and> P t"
    using Cons.prems
    by (auto simp: to_fw_def split: tunnel_event.splits route.splits if_splits dest!: sym [of "ToMesh _"])
  then show ?case using Cons by auto
qed simp

lemma bridge_stays_on:
  assumes "bridge_on s" and "\<forall>e\<in>set es. case e of FromMesh x u queued \<Rightarrow> queued | _ \<Rightarrow> True"
  shows "bridge_on (fst (run (tunnel_step ctx) s es))"
  using assms
proof (induction es arbitrary: s)
  case (Cons e es)
  have "bridge_on (fst (tunnel_step ctx s e))"
  proof (cases e)
    case (Read v p)
    obtain r goes_on where "reader_packet ctx v p (reader s) = Some (r, goes_on)"
      by (rule reader_packet_fw)
    then show ?thesis using Cons.prems Read by simp
  next
    case (FromMesh p now queued)
    show ?thesis
      by (cases rule: bridge_packet_cases [where p = p and now = now and queued = queued and s = s])
        (use Cons.prems FromMesh in auto)
  next
    case (Requests e')
    then show ?thesis using Cons.prems by (auto split: tap_event.split)
  qed
  then show ?case using Cons by simp
qed simp

text \<open>A packet to a port below the client's range belongs to no flow of the client.\<close>
lemma low_port_passes_tap:
  assumes "divert_ok d" and "plain_l4 p" and "\<not> is_icmp p" and "unat (dst_port_of p) < 61000"
  shows "offer d p = (d, Some p)"
proof -
  have "\<not> is_open d k" if "key_of p = Some k" for k
  proof
    assume "is_open d k"
    then have "61000 \<le> unat (local_port k)" using assms(1) by (auto simp: divert_ok_def is_open_def)
    moreover have "local_port k = dst_port_of p"
      using that assms(2,3)
      by (auto simp: key_of_def plain_l4_def is_icmp_def filter_consts local_port_def dst_port_of_def split: if_splits)
    ultimately show False using assms(4) by simp
  qed
  then have "map_of (d_flows d) k = None" if "key_of p = Some k" for k
    using that by (simp add: is_open_iff)
  then show ?thesis by (auto simp: offer_eq [OF assms(1)] split: option.split)
qed


section \<open>Witnesses\<close>

definition some_ctx :: reader_ctx where
  "some_ctx = \<lparr>c_dns_addr = addr 53, c_has_forward = True, c_mesh_prefix = 0xfd\<rparr>"

definition forwards :: "bytes \<Rightarrow> instant \<Rightarrow> packet_env" where
  "forwards q now = \<lparr>v_processed = q, v_action = Forward, v_accepted = True, v_now = now, v_rank = (\<lambda>_. 0)\<rparr>"

definition app_packet :: bytes where "app_packet = pkt 6 (addr 1) 40000 (addr 2) 80"
definition peer_reply :: bytes where "peer_reply = pkt 6 (addr 2) 80 (addr 1) 40000"

lemma app_packet_route: "route_of some_ctx (forwards app_packet t) app_packet = ToMesh app_packet"
proof -
  have "app_packet ! 6 = 6" and "app_packet ! 0 = 0x60" and "length app_packet = 44"
    by (simp_all add: app_packet_def)
  moreover have "app_packet ! 24 = 0xfd" by (simp add: app_packet_def pkt_def addr_def nth_append)
  ultimately show ?thesis
    by (simp add: route_of_def intercepts_def parse_ipv6_udp_eq plain_udp_def mesh_bound_def some_ctx_def forwards_def)
qed

lemma reply_facts:
  "plain_l4 app_packet" "\<not> is_icmp app_packet" "plain_l4 peer_reply" "\<not> is_icmp peer_reply"
  "in_key peer_reply = out_key app_packet" "k_local_port (out_key app_packet) = 40000" "app_packet ! 6 = 6"
  "dst_port_of peer_reply = 40000"
  by (simp_all add: app_packet_def peer_reply_def pkt_flow pkt_reply [where s = "addr 1"])
    (simp_all add: out_key_def dst_port_of_def)

lemma forwards_simps [simp]:
  "v_now (forwards q t) = t" "v_processed (forwards q t) = q" "v_action (forwards q t) = Forward"
  "v_accepted (forwards q t) = True"
  by (simp_all add: forwards_def)

lemma tunnel_init_simps [simp]:
  "reader_on (tunnel_init f)" "bridge_on (tunnel_init f)" "fw (reader (tunnel_init f)) = f"
  "tap_state (tunnel_init f) = tap_init"
  by (simp_all add: tunnel_init_def reader_init_def)


lemma reply_after_send:
  "snd (run (tunnel_step some_ctx) (tunnel_init (Some (filter_new [])))
     [Read (forwards app_packet 5) app_packet, FromMesh peer_reply 9 True]) ! 1 = Delivered peer_reply"
proof -
  obtain r goes_on where r: "reader_packet some_ctx (forwards app_packet 5) app_packet (reader_init (Some (filter_new []))) = Some (r, goes_on)"
    "fw r = noted_fw (forwards app_packet 5) app_packet (Some (filter_new []))"
    by (rule reader_packet_fw [of some_ctx "forwards app_packet 5" app_packet "reader_init (Some (filter_new []))"])
      (simp add: app_packet_route reader_init_def)
  have low: "offer divert_default peer_reply = (divert_default, Some peer_reply)"
    by (simp add: offer_def claim_def divert_default_def)
  have v: "\<exists>f'. allow_inbound (the (noted_fw (forwards app_packet 5) app_packet (Some (filter_new [])))) peer_reply 9 = Some (f', True)"
    by (simp add: noted_fw_def allow_inbound_eq reply_facts noted_entry filter_consts idle_limit_def)
  show ?thesis
    using v r low
    by (auto simp: tunnel_init_def tap_init_def bridge_packet_def claim_offer noted_fw_def Let_def)
qed

theorem tunnel_delivers_only_solicited_witness:
  "\<exists>j<1. \<exists>m. snd (run (tunnel_step some_ctx) (tunnel_init (Some (filter_new [])))
     [Read (forwards app_packet 5) app_packet, FromMesh peer_reply 9 True]) ! j = Went (ToMesh m) \<and>
     out_key m = in_key peer_reply"
  using tunnel_delivers_only_solicited [OF _ _ reply_after_send, of peer_reply 9 True]
  by (auto simp: reply_facts simp del: tunnel_step.simps run.simps)

end
