(* ===== verification/PumpIo.thy ===== *)
theory PumpIo
  imports Prelude
begin

text \<open>
  \<open>shim/src/pump.rs\<close>, the threads on the TUN fd: \<open>spawn_io\<close>, \<open>stop_io\<close>, \<open>Pump::swap_fd\<close>,
  \<open>Pump::join\<close> and the loop of the writer, as one step relation whose steps are the atomic
  actions of the writer threads, the reader threads, the senders into the writer channel,
  and the engine's thread. Loads and stores are sequentially consistent: the flag is
  cleared before the sentinel is sent, and receiving the sentinel orders the two.
\<close>

section \<open>State\<close>

text \<open>A writer: not started, about to check its flags, in \<open>recv\<close>, or returned.\<close>
datatype w_phase = Unborn | AtHead | Receiving | Gone

text \<open>
  A reader/writer pair, \<open>Io\<close>: the fd, the \<open>live\<close> flag, the reader thread and whether its
  eventfd is readable, the writer thread. \<open>g_late\<close> and \<open>g_failed\<close> record the writes after
  the flag was cleared and whether a write failed.
\<close>
record gen =
  g_fd :: nat
  g_live :: bool
  g_reader :: bool
  g_woken :: bool
  g_writer :: w_phase
  g_late :: nat
  g_failed :: bool

text \<open>
  The engine's thread: outside, in \<open>stop_io\<close> before or after it has woken the threads, in
  \<open>spawn_io\<close> before or after the reader is up, joining the reader whose writer could not be
  started, or past \<open>join\<close>. The option is the new fd of a swap, none for \<open>join\<close>.
\<close>
datatype ctl =
    Idle
  | Retire nat "nat option"
  | Await nat "nat option"
  | Respawn nat
  | Half nat
  | JoinReader nat
  | Joined

text \<open>
  The pump. \<open>io\<close> is its current generation, by its number. \<open>chan\<close> is the content of the
  writer channel and \<open>chan_open\<close> whether its receiver still exists; \<open>sent\<close> the packets the
  channel took, \<open>tries\<close> the writes, each with its generation and its success.
\<close>
record pump =
  running :: bool
  gens :: "gen list"
  io :: "nat option"
  ctl :: ctl
  chan :: "bytes list"
  chan_open :: bool
  sent :: "bytes list"
  tries :: "(nat \<times> bytes \<times> bool) list"

definition new_gen :: "nat \<Rightarrow> gen" where
  "new_gen fd = \<lparr>g_fd = fd, g_live = True, g_reader = True, g_woken = False, g_writer = Unborn,
     g_late = 0, g_failed = False\<rparr>"

text \<open>\<open>Pump::spawn\<close> up to the first generation.\<close>
definition pump_init :: "nat \<Rightarrow> pump" where
  "pump_init fd =
     \<lparr>running = True, gens = [(new_gen fd)\<lparr>g_writer := AtHead\<rparr>], io = Some 0, ctl = Idle, chan = [],
      chan_open = True, sent = [], tries = []\<rparr>"

text \<open>
  The writer's return value is the receiver; it is lost unless someone holds the handle
  of the thread.
\<close>
definition held :: "pump \<Rightarrow> nat \<Rightarrow> bool" where
  "held s i \<longleftrightarrow> io s = Some i \<or> (\<exists>t. ctl s = Retire i t \<or> ctl s = Await i t)"

abbreviation put_gen :: "pump \<Rightarrow> nat \<Rightarrow> gen \<Rightarrow> pump" where
  "put_gen s i g \<equiv> s\<lparr>gens := (gens s)[i := g]\<rparr>"

definition writer_exits :: "pump \<Rightarrow> nat \<Rightarrow> gen \<Rightarrow> pump" where
  "writer_exits s i g =
     s\<lparr>gens := (gens s)[i := g\<lparr>g_writer := Gone\<rparr>], chan_open := (chan_open s \<and> held s i)\<rparr>"

definition real :: "bytes list \<Rightarrow> bytes list" where
  "real ps = filter (\<lambda>p. p \<noteq> []) ps"

section \<open>Steps\<close>

inductive pump_step :: "pump \<Rightarrow> pump \<Rightarrow> bool" where
  \<comment> \<open>the bridge, the reader and the DNS threads\<close>
  send: "chan_open s \<Longrightarrow> pump_step s (s\<lparr>chan := chan s @ [p], sent := sent s @ real [p]\<rparr>)"
  \<comment> \<open>the writer\<close>
| head_on: "i < length (gens s) \<Longrightarrow> g = gens s ! i \<Longrightarrow> g_writer g = AtHead \<Longrightarrow> running s \<and> g_live g \<Longrightarrow>
    pump_step s (put_gen s i (g\<lparr>g_writer := Receiving\<rparr>))"
| head_off: "i < length (gens s) \<Longrightarrow> g = gens s ! i \<Longrightarrow> g_writer g = AtHead \<Longrightarrow> \<not> (running s \<and> g_live g) \<Longrightarrow>
    pump_step s (writer_exits s i g)"
| sentinel: "i < length (gens s) \<Longrightarrow> g = gens s ! i \<Longrightarrow> g_writer g = Receiving \<Longrightarrow> chan s = [] # q \<Longrightarrow>
    pump_step s ((put_gen s i (g\<lparr>g_writer := AtHead\<rparr>))\<lparr>chan := q\<rparr>)"
| written: "i < length (gens s) \<Longrightarrow> g = gens s ! i \<Longrightarrow> g_writer g = Receiving \<Longrightarrow> chan s = p # q \<Longrightarrow> p \<noteq> [] \<Longrightarrow>
    pump_step s
      ((put_gen s i (g\<lparr>g_writer := AtHead, g_late := g_late g + (if g_live g then 0 else 1)\<rparr>))
         \<lparr>chan := q, tries := tries s @ [(i, p, True)]\<rparr>)"
| failed: "i < length (gens s) \<Longrightarrow> g = gens s ! i \<Longrightarrow> g_writer g = Receiving \<Longrightarrow> chan s = p # q \<Longrightarrow> p \<noteq> [] \<Longrightarrow>
    pump_step s
      ((writer_exits s i (g\<lparr>g_late := g_late g + (if g_live g then 0 else 1), g_failed := True\<rparr>))
         \<lparr>chan := q, tries := tries s @ [(i, p, False)]\<rparr>)"
| closed: "i < length (gens s) \<Longrightarrow> g = gens s ! i \<Longrightarrow> g_writer g = Receiving \<Longrightarrow> chan s = [] \<Longrightarrow> ctl s = Joined \<Longrightarrow>
    pump_step s (writer_exits s i g)"
  \<comment> \<open>the reader: woken, or the flags are cleared, or the fd fails\<close>
| reader_ends: "i < length (gens s) \<Longrightarrow> g = gens s ! i \<Longrightarrow> g_reader g \<Longrightarrow>
    pump_step s (put_gen s i (g\<lparr>g_reader := False\<rparr>))"
  \<comment> \<open>the engine: \<open>swap_fd\<close> and \<open>join\<close>\<close>
| stopping: "running s \<Longrightarrow> pump_step s (s\<lparr>running := False\<rparr>)"
| begin_stop: "ctl s = Idle \<Longrightarrow> io s = Some i \<Longrightarrow> i < length (gens s) \<Longrightarrow>
    pump_step s ((put_gen s i ((gens s ! i)\<lparr>g_live := False\<rparr>))\<lparr>io := None, ctl := Retire i target\<rparr>)"
| join_none: "ctl s = Idle \<Longrightarrow> io s = None \<Longrightarrow> pump_step s (s\<lparr>ctl := Joined\<rparr>)"
| signal: "ctl s = Retire i target \<Longrightarrow> i < length (gens s) \<Longrightarrow>
    pump_step s ((put_gen s i ((gens s ! i)\<lparr>g_woken := True\<rparr>))\<lparr>ctl := Await i target,
      chan := chan s @ (if chan_open s then [[]] else [])\<rparr>)"
| timeout: "ctl s = Await i target \<Longrightarrow> i < length (gens s) \<Longrightarrow>
    pump_step s (s\<lparr>ctl := (if target = None then Joined else Idle),
      chan_open := (chan_open s \<and> g_writer (gens s ! i) \<noteq> Gone)\<rparr>)"
| stopped: "ctl s = Await i target \<Longrightarrow> i < length (gens s) \<Longrightarrow>
    \<not> g_reader (gens s ! i) \<Longrightarrow> g_writer (gens s ! i) = Gone \<Longrightarrow>
    pump_step s
      (case target of
         None \<Rightarrow> s\<lparr>ctl := Joined, chan_open := False\<rparr>
       | Some fd \<Rightarrow> s\<lparr>ctl := Respawn fd\<rparr>)"
  \<comment> \<open>\<open>spawn_io\<close>: no eventfd or no reader thread; the reader is up; both are; no writer thread\<close>
| no_reader: "ctl s = Respawn fd \<Longrightarrow> pump_step s (s\<lparr>ctl := Idle, chan_open := False\<rparr>)"
| reader_up: "ctl s = Respawn fd \<Longrightarrow>
    pump_step s (s\<lparr>gens := gens s @ [new_gen fd], ctl := Half (length (gens s))\<rparr>)"
| writer_up: "ctl s = Half i \<Longrightarrow> i < length (gens s) \<Longrightarrow>
    pump_step s ((put_gen s i ((gens s ! i)\<lparr>g_writer := AtHead\<rparr>))\<lparr>io := Some i, ctl := Idle\<rparr>)"
| no_writer: "ctl s = Half i \<Longrightarrow> i < length (gens s) \<Longrightarrow>
    pump_step s ((put_gen s i ((gens s ! i)\<lparr>g_live := False, g_woken := True\<rparr>))
      \<lparr>ctl := JoinReader i, chan_open := False\<rparr>)"
| joined: "ctl s = JoinReader i \<Longrightarrow> i < length (gens s) \<Longrightarrow> \<not> g_reader (gens s ! i) \<Longrightarrow>
    pump_step s (s\<lparr>ctl := Idle\<rparr>)"

inductive_cases pump_stepE: "pump_step s s'"

abbreviation reachable :: "nat \<Rightarrow> pump \<Rightarrow> bool" where
  "reachable fd s \<equiv> pump_step\<^sup>*\<^sup>* (pump_init fd) s"

section \<open>The invariant\<close>

definition quiet :: "gen \<Rightarrow> bool" where
  "quiet g \<longleftrightarrow> \<not> g_reader g \<and> (g_writer g = Gone \<or> g_writer g = Unborn)"

text \<open>The number of the newest generation, the only one with threads.\<close>
definition newest :: "pump \<Rightarrow> nat" where
  "newest s = length (gens s) - 1"

definition gen_ok :: "bool \<Rightarrow> gen \<Rightarrow> bool" where
  "gen_ok alive g \<longleftrightarrow> g_late g \<le> 1 \<and>
     (g_live g \<longrightarrow> g_late g = 0) \<and> (g_writer g = Receiving \<longrightarrow> g_late g = 0) \<and>
     (g_writer g = Gone \<and> g_live g \<and> alive \<longrightarrow> g_failed g)"

definition ctl_ok :: "pump \<Rightarrow> bool" where
  "ctl_ok s \<longleftrightarrow>
     (let n = newest s; g = gens s ! n
      in (case ctl s of
            Idle \<Rightarrow> (case io s of
                Some i \<Rightarrow> i = n \<and> g_writer g \<noteq> Unborn \<and> chan_open s \<and> g_live g
              | None \<Rightarrow> \<not> g_live g)
          | Retire i t \<Rightarrow> io s = None \<and> i = n \<and> g_writer g \<noteq> Unborn \<and> chan_open s \<and> \<not> g_live g
          | Await i t \<Rightarrow> io s = None \<and> i = n \<and> g_writer g \<noteq> Unborn \<and> chan_open s \<and> \<not> g_live g \<and> g_woken g \<and>
              (g_writer g = Receiving \<longrightarrow> [] \<in> set (chan s))
          | Respawn fd \<Rightarrow> io s = None \<and> quiet g \<and> chan_open s \<and> \<not> g_live g
          | Half i \<Rightarrow> io s = None \<and> i = n \<and> g_writer g = Unborn \<and> chan_open s \<and> g_live g
          | JoinReader i \<Rightarrow> io s = None \<and> i = n \<and> g_writer g = Unborn \<and> \<not> g_live g \<and> g_woken g
          | Joined \<Rightarrow> io s = None \<and> \<not> g_live g))"

definition packet_of :: "nat \<times> bytes \<times> bool \<Rightarrow> bytes" where
  "packet_of t = fst (snd t)"

lemma packet_of_simp [simp]: "packet_of (i, p, b) = p"
  by (simp add: packet_of_def)

definition pump_ok :: "pump \<Rightarrow> bool" where
  "pump_ok s \<longleftrightarrow>
     gens s \<noteq> [] \<and> (\<forall>i<newest s. quiet (gens s ! i) \<and> \<not> g_live (gens s ! i)) \<and>
     (\<forall>i\<le>newest s. gen_ok (running s) (gens s ! i)) \<and> ctl_ok s \<and>
     map packet_of (tries s) @ real (chan s) = sent s \<and>
     sorted (map fst (tries s)) \<and> (\<forall>t\<in>set (tries s). fst t \<le> newest s)"

lemma real_simps [simp]:
  "real [] = []" "real ([] # ps) = real ps" "p \<noteq> [] \<Longrightarrow> real (p # ps) = p # real ps"
  "real (ps @ qs) = real ps @ real qs"
  by (simp_all add: real_def)

lemma real_idem [simp]: "real (real ps) = real ps"
  by (simp add: real_def)

text \<open>Only the newest generation has a thread to step.\<close>
lemma active_newest:
  assumes "pump_ok s" and "i < length (gens s)" and "\<not> quiet (gens s ! i)"
  shows "i = newest s"
proof -
  have "\<not> i < newest s" using assms(1,3) by (auto simp: pump_ok_def)
  moreover have "i \<le> newest s" using assms(2) by (simp add: newest_def)
  ultimately show ?thesis by simp
qed

lemma pump_ok_newest:
  assumes "pump_ok s"
  shows "newest s < length (gens s)" and "gen_ok (running s) (gens s ! newest s)" and "ctl_ok s"
  using assms by (simp_all add: pump_ok_def newest_def length_greater_0_conv)

text \<open>
  How to show the invariant after a step that touches the newest generation, the control
  and the channel.
\<close>
lemma pump_ok_update:
  assumes "pump_ok s" and "gens s' = (gens s)[newest s := g]" and "gen_ok (running s') g"
    and "running s' = running s" and "ctl_ok s'"
    and "tries s' = tries s @ ts" and "\<And>t. t \<in> set ts \<Longrightarrow> fst t = newest s"
    and "map packet_of (tries s') @ real (chan s') = sent s'"
  shows "pump_ok s'"
proof -
  have n: "newest s' = newest s" using assms(2) by (simp add: newest_def)
  have "sorted (map fst ts)" using assms(7) by (simp add: sorted_iff_nth_mono)
  then have "sorted (map fst (tries s'))"
    using assms(1,6,7) by (auto simp: pump_ok_def sorted_append)
  moreover have "\<forall>i\<le>newest s. gen_ok (running s') (gens s' ! i)"
    using assms(1-4) pump_ok_newest(1) [OF assms(1)] by (auto simp: pump_ok_def nth_list_update)
  moreover have "\<forall>i<newest s. quiet (gens s' ! i) \<and> \<not> g_live (gens s' ! i)"
    using assms(1,2) by (auto simp: pump_ok_def nth_list_update)
  ultimately show ?thesis
    using assms n by (auto simp: pump_ok_def)
qed

lemma put_self: "put_gen s i (gens s ! i) = s"
  by simp

text \<open>Steps that leave the generations alone, or append a new one.\<close>
lemma pump_ok_same:
  assumes "pump_ok s" and "gens s' = gens s" and "running s' = running s \<or> \<not> running s'" and "ctl_ok s'"
    and "tries s' = tries s" and "real (chan s') = real (chan s) @ ps" and "sent s' = sent s @ ps"
  shows "pump_ok s'"
  using assms by (auto simp: pump_ok_def newest_def gen_ok_def)

lemma writer_turn:
  assumes "pump_ok s" and "i < length (gens s)" and "g = gens s ! i" and "g_writer g = AtHead \<or> g_writer g = Receiving"
  shows "i = newest s" and "gen_ok (running s) g" and "ctl_ok s"
proof -
  have "\<not> quiet g" using assms(4) by (auto simp: quiet_def)
  then show n: "i = newest s" using active_newest assms(1-3) by blast
  show "gen_ok (running s) g" using pump_ok_newest(2) [OF assms(1)] n assms(3) by simp
  show "ctl_ok s" using pump_ok_newest(3) [OF assms(1)] .
qed

text \<open>A step of a writer, whichever way it goes on.\<close>
lemma pump_ok_writer:
  assumes ok: "pump_ok s" and i: "i < length (gens s)" "g = gens s ! i"
    and w: "g_writer g = AtHead \<or> g_writer g = Receiving"
    and g': "gens s' = (gens s)[i := g']" "g_live g' = g_live g" "g_woken g' = g_woken g"
    and "gen_ok (running s) g'"
    and same: "running s' = running s" "ctl s' = ctl s" "io s' = io s"
    and "tries s' = tries s @ ts" and "\<And>t. t \<in> set ts \<Longrightarrow> fst t = i"
    and "map packet_of (tries s') @ real (chan s') = sent s'"
    and next_phase: "g_writer g' = Gone \<and> chan_open s' = (chan_open s \<and> held s i) \<or>
      (g_writer g' = AtHead \<or> g_writer g' = Receiving \<and> g_live g) \<and> chan_open s' = chan_open s"
  shows "pump_ok s'"
proof -
  note t = writer_turn [OF ok i w]
  have "ctl_ok s'"
    using t(1,3) i w g' same next_phase
    by (auto simp: ctl_ok_def newest_def held_def quiet_def Let_def split: ctl.splits option.splits)
  then show ?thesis
    using assms t(1) by (intro pump_ok_update [OF ok, where g = g' and ts = ts]) simp_all
qed

lemma sent_eq: "pump_ok s \<Longrightarrow> sent s = map packet_of (tries s) @ real (chan s)"
  by (simp add: pump_ok_def)

lemma gen_ok_of: "pump_ok s \<Longrightarrow> i < length (gens s) \<Longrightarrow> gen_ok (running s) (gens s ! i)"
  by (simp add: pump_ok_def newest_def)

lemma closed_not_live: "pump_ok s \<Longrightarrow> ctl s = Joined \<Longrightarrow> i < length (gens s) \<Longrightarrow> \<not> g_live (gens s ! i)"
  by (cases "i = newest s") (auto simp: pump_ok_def ctl_ok_def newest_def Let_def)

lemma pump_ok_step: "pump_step s s' \<Longrightarrow> pump_ok s \<Longrightarrow> pump_ok s'"
proof (induction rule: pump_step.induct)
  case (send s p)
  show ?case
    by (rule pump_ok_same [OF send.prems, where ps = "real [p]"])
      (use pump_ok_newest(3) [OF send.prems] in \<open>auto simp: ctl_ok_def newest_def Let_def split: ctl.splits option.splits\<close>)
next
  case (head_on i s g)
  show ?case
    by (rule pump_ok_writer [OF head_on.prems head_on.hyps(1,2), where ts = "[]" and g' = "g\<lparr>g_writer := Receiving\<rparr>"])
      (use head_on gen_ok_of [OF head_on.prems head_on.hyps(1)] in \<open>auto simp: gen_ok_def sent_eq\<close>)
next
  case (head_off i s g)
  show ?case
    by (rule pump_ok_writer [OF head_off.prems head_off.hyps(1,2), where ts = "[]" and g' = "g\<lparr>g_writer := Gone\<rparr>"])
      (use head_off gen_ok_of [OF head_off.prems head_off.hyps(1)] in \<open>auto simp: gen_ok_def sent_eq writer_exits_def\<close>)
next
  case (sentinel i s g q)
  show ?case
    by (rule pump_ok_writer [OF sentinel.prems sentinel.hyps(1,2), where ts = "[]" and g' = "g\<lparr>g_writer := AtHead\<rparr>"])
      (use sentinel gen_ok_of [OF sentinel.prems sentinel.hyps(1)] in \<open>auto simp: gen_ok_def sent_eq\<close>)
next
  case (written i s g p q)
  show ?case
    by (rule pump_ok_writer [OF written.prems written.hyps(1,2), where ts = "[(i, p, True)]" and
          g' = "g\<lparr>g_writer := AtHead, g_late := g_late g + (if g_live g then 0 else 1)\<rparr>"])
      (use written gen_ok_of [OF written.prems written.hyps(1)] in \<open>auto simp: gen_ok_def sent_eq\<close>)
next
  case (failed i s g p q)
  show ?case
    by (rule pump_ok_writer [OF failed.prems failed.hyps(1,2), where ts = "[(i, p, False)]" and
          g' = "g\<lparr>g_late := g_late g + (if g_live g then 0 else 1), g_failed := True, g_writer := Gone\<rparr>"])
      (use failed gen_ok_of [OF failed.prems failed.hyps(1)] in \<open>auto simp: gen_ok_def sent_eq writer_exits_def held_def\<close>)
next
  case (closed i s g)
  show ?case
    by (rule pump_ok_writer [OF closed.prems closed.hyps(1,2), where ts = "[]" and g' = "g\<lparr>g_writer := Gone\<rparr>"])
      (use closed gen_ok_of [OF closed.prems closed.hyps(1)] closed_not_live [OF closed.prems] in
        \<open>auto simp: gen_ok_def sent_eq writer_exits_def\<close>)
next
  case (reader_ends i s g)
  have n: "i = newest s"
    using active_newest [OF reader_ends.prems reader_ends.hyps(1)] reader_ends.hyps by (auto simp: quiet_def)
  show ?case
    by (rule pump_ok_update [OF reader_ends.prems, where g = "g\<lparr>g_reader := False\<rparr>" and ts = "[]"])
      (use n reader_ends pump_ok_newest [OF reader_ends.prems] in
        \<open>auto simp: gen_ok_def pump_ok_def ctl_ok_def newest_def quiet_def Let_def split: ctl.splits option.splits\<close>)
next
  case (stopping s)
  show ?case
    by (rule pump_ok_same [OF stopping.prems, where ps = "[]"])
      (use pump_ok_newest(3) [OF stopping.prems] in \<open>auto simp: ctl_ok_def newest_def Let_def split: ctl.splits option.splits\<close>)
next
  case (begin_stop s i target)
  note n = pump_ok_newest [OF begin_stop.prems]
  have i: "i = newest s" using n(3) begin_stop.hyps by (simp add: ctl_ok_def Let_def)
  show ?case
    by (rule pump_ok_update [OF begin_stop.prems, where g = "(gens s ! i)\<lparr>g_live := False\<rparr>" and ts = "[]"])
      (use n i begin_stop in \<open>auto simp: gen_ok_def pump_ok_def ctl_ok_def newest_def Let_def\<close>)
next
  case (join_none s)
  show ?case
    by (rule pump_ok_same [OF join_none.prems, where ps = "[]"])
      (use pump_ok_newest(3) [OF join_none.prems] join_none.hyps in \<open>auto simp: ctl_ok_def newest_def Let_def\<close>)
next
  case (signal s i target)
  note n = pump_ok_newest [OF signal.prems]
  have i: "i = newest s" using n(3) signal.hyps by (simp add: ctl_ok_def Let_def)
  show ?case
    by (rule pump_ok_update [OF signal.prems, where g = "(gens s ! i)\<lparr>g_woken := True\<rparr>" and ts = "[]"])
      (use n i signal in \<open>auto simp: gen_ok_def pump_ok_def ctl_ok_def newest_def Let_def\<close>)
next
  case (timeout s i target)
  show ?case
    by (rule pump_ok_same [OF timeout.prems, where ps = "[]"])
      (use pump_ok_newest(3) [OF timeout.prems] timeout.hyps in \<open>auto simp: ctl_ok_def newest_def Let_def\<close>)
next
  case (stopped s i target)
  show ?case
    by (rule pump_ok_same [OF stopped.prems, where ps = "[]"])
      (use pump_ok_newest(3) [OF stopped.prems] stopped.hyps in
        \<open>auto simp: ctl_ok_def newest_def quiet_def Let_def split: option.split\<close>)
next
  case (no_reader s fd)
  show ?case
    by (rule pump_ok_same [OF no_reader.prems, where ps = "[]"])
      (use pump_ok_newest(3) [OF no_reader.prems] no_reader.hyps in \<open>auto simp: ctl_ok_def newest_def Let_def\<close>)
next
  case (reader_up s fd)
  note n = pump_ok_newest [OF reader_up.prems]
  have q: "quiet (gens s ! newest s)" "\<not> g_live (gens s ! newest s)" "io s = None" "chan_open s"
    using n(3) reader_up.hyps by (auto simp: ctl_ok_def Let_def)
  have len: "newest (s\<lparr>gens := gens s @ [new_gen fd], ctl := Half (length (gens s))\<rparr>) = Suc (newest s)"
    "length (gens s) = Suc (newest s)"
    using n(1) by (simp_all add: newest_def)
  show ?case
    using reader_up.prems q len
    by (auto simp: pump_ok_def ctl_ok_def Let_def nth_append new_gen_def gen_ok_def less_Suc_eq le_Suc_eq)
next
  case (writer_up s i)
  note n = pump_ok_newest [OF writer_up.prems]
  have i: "i = newest s" using n(3) writer_up.hyps by (simp add: ctl_ok_def Let_def)
  show ?case
    by (rule pump_ok_update [OF writer_up.prems, where g = "(gens s ! i)\<lparr>g_writer := AtHead\<rparr>" and ts = "[]"])
      (use n i writer_up in \<open>auto simp: gen_ok_def pump_ok_def ctl_ok_def newest_def Let_def\<close>)
next
  case (no_writer s i)
  note n = pump_ok_newest [OF no_writer.prems]
  have i: "i = newest s" using n(3) no_writer.hyps by (simp add: ctl_ok_def Let_def)
  show ?case
    by (rule pump_ok_update [OF no_writer.prems, where g = "(gens s ! i)\<lparr>g_live := False, g_woken := True\<rparr>" and ts = "[]"])
      (use n i no_writer in \<open>auto simp: gen_ok_def pump_ok_def ctl_ok_def newest_def Let_def\<close>)
next
  case (joined s i)
  show ?case
    by (rule pump_ok_same [OF joined.prems, where ps = "[]"])
      (use pump_ok_newest(3) [OF joined.prems] joined.hyps in \<open>auto simp: ctl_ok_def newest_def Let_def\<close>)
qed

lemma pump_ok_init: "pump_ok (pump_init fd)"
  by (simp add: pump_ok_def pump_init_def newest_def gen_ok_def new_gen_def ctl_ok_def)

interpretation pumpm: transitions "pump_init fd" pump_step pump_ok for fd
  by unfold_locales (rule pump_ok_init, rule pump_ok_step)

lemmas pump_ok_steps = pumpm.ok_steps and pump_ok_reachable = pumpm.ok_reachable

section \<open>The abstract queue\<close>

text \<open>What the pump promises upstream: one queue, taken from in order, each packet once.\<close>
inductive fifo_step :: "bytes list \<times> bytes list \<Rightarrow> bytes list \<times> bytes list \<Rightarrow> bool" where
  enqueue: "fifo_step (pending, out) (pending @ [p], out)"
| dequeue: "fifo_step (p # pending, out) (pending, out @ [p])"

definition abs_pump :: "pump \<Rightarrow> bytes list \<times> bytes list" where
  "abs_pump s = (real (chan s), map packet_of (tries s))"

lemma abs_pump_step: "pump_step s s' \<Longrightarrow> abs_pump s' = abs_pump s \<or> fifo_step (abs_pump s) (abs_pump s')"
proof (induction rule: pump_step.induct)
  case (send s p)
  then show ?case by (cases "p = []") (auto simp: abs_pump_def intro: fifo_step.intros)
next
  case (written i s g p q)
  then show ?case by (auto simp: abs_pump_def intro: fifo_step.intros)
next
  case (failed i s g p q)
  then show ?case by (auto simp: abs_pump_def writer_exits_def intro: fifo_step.intros)
qed (auto simp: abs_pump_def writer_exits_def split: option.split)

text \<open>
  C6. Refinement. Whatever the threads do, through any number of fd swaps, successful or
  not, stale sentinels, failed writes and the stop, the pump is one FIFO queue: every step
  is a step of the abstract queue or none at all, so the packets accepted are the packets
  tried on some fd followed by those still queued, each once and in order.
\<close>
theorem pump_refines_fifo:
  assumes "reachable fd s"
  shows "fifo_step\<^sup>*\<^sup>* ([], []) (abs_pump s) \<and> map packet_of (tries s) @ real (chan s) = sent s"
proof -
  have "fifo_step\<^sup>*\<^sup>* (abs_pump (pump_init fd)) (abs_pump s)"
    by (rule pumpm.simulated [OF assms]) (rule abs_pump_step)
  then have "fifo_step\<^sup>*\<^sup>* ([], []) (abs_pump s)" by (simp add: abs_pump_def pump_init_def)
  then show ?thesis using pump_ok_reachable [OF assms] by (simp add: pump_ok_def)
qed

section \<open>One generation at a time\<close>

lemma step_tries:
  assumes "pump_step s s'" and "pump_ok s"
  shows "\<exists>ts. tries s' = tries s @ ts \<and> (\<forall>t\<in>set ts. fst t = newest s) \<and> newest s \<le> newest s'"
  using assms
proof (induction rule: pump_step.induct)
  case (written i s g p q)
  have "i = newest s" using writer_turn(1) [OF written.prems written.hyps(1,2)] written.hyps by blast
  then show ?case by (intro exI [of _ "[(i, p, True)]"]) (simp add: newest_def)
next
  case (failed i s g p q)
  have "i = newest s" using writer_turn(1) [OF failed.prems failed.hyps(1,2)] failed.hyps by blast
  then show ?case by (intro exI [of _ "[(i, p, False)]"]) (simp add: newest_def writer_exits_def)
qed (intro exI [of _ "[]"]; simp add: newest_def writer_exits_def split: option.split)+

lemma steps_tries:
  assumes "pump_step\<^sup>*\<^sup>* s s'" and "pump_ok s"
  shows "\<exists>ts. tries s' = tries s @ ts \<and> (\<forall>t\<in>set ts. newest s \<le> fst t) \<and> newest s \<le> newest s'"
  using assms
proof (induction rule: rtranclp_induct)
  case (step s1 s2)
  obtain ts where ts: "tries s1 = tries s @ ts" "\<forall>t\<in>set ts. newest s \<le> fst t" "newest s \<le> newest s1"
    using step by blast
  obtain us where "tries s2 = tries s1 @ us" "\<forall>t\<in>set us. fst t = newest s1" "newest s1 \<le> newest s2"
    using step_tries [OF step.hyps(2)] pump_ok_steps [OF step.hyps(1) step.prems] by blast
  then show ?case using ts by (intro exI [of _ "ts @ us"]) auto
qed simp

text \<open>
  C26. After a swap the old fd is unused. Whenever the pump runs on a generation, no other
  generation has a thread left, so a single writer and a single reader exist; and from then
  on no write ever goes to an earlier generation's fd: the caller may close it.
\<close>
theorem swap_frees_old_fd:
  assumes "reachable fd s" and "io s = Some i" and "ctl s = Idle"
  shows "(\<forall>j<length (gens s). j \<noteq> i \<longrightarrow> quiet (gens s ! j)) \<and>
    (\<forall>s'. pump_step\<^sup>*\<^sup>* s s' \<longrightarrow> (\<exists>ts. tries s' = tries s @ ts \<and> (\<forall>t\<in>set ts. i \<le> fst t)))"
proof -
  have ok: "pump_ok s" by (rule pump_ok_reachable [OF assms(1)])
  then have i: "i = newest s" using assms(2,3) by (auto simp: pump_ok_def ctl_ok_def Let_def)
  have "quiet (gens s ! j)" if "j < length (gens s)" "j \<noteq> i" for j
    using active_newest [OF ok that(1)] that(2) i by blast
  then show ?thesis using steps_tries [OF _ ok] i by blast
qed

text \<open>A pump that has lost its generation stays without one: the engine has to restart.\<close>
lemma fdless_stays_fdless:
  assumes "pump_step\<^sup>*\<^sup>* s s'" and "io s = None" and "ctl s = Idle \<or> ctl s = Joined"
  shows "io s' = None \<and> (ctl s' = Idle \<or> ctl s' = Joined) \<and> length (gens s') = length (gens s)"
  using assms
proof (induction rule: rtranclp_induct)
  case (step s1 s2)
  then have "io s1 = None" "ctl s1 = Idle \<or> ctl s1 = Joined" "length (gens s1) = length (gens s)" by auto
  with step.hyps(2) show ?case
    by (cases rule: pump_step.cases) (auto simp: writer_exits_def)
qed simp

section \<open>Stopping\<close>

text \<open>The writer of a generation that is being stopped can finish by its own steps.\<close>
lemma writer_finishes:
  assumes "pump_ok s" and "ctl s = Await i t"
  shows "\<exists>s'. pump_step\<^sup>*\<^sup>* s s' \<and> ctl s' = Await i t \<and> i < length (gens s') \<and> g_writer (gens s' ! i) = Gone"
proof -
  note n = pump_ok_newest [OF assms(1)]
  have i: "i = newest s" "i < length (gens s)" "g_writer (gens s ! i) \<noteq> Unborn" "\<not> g_live (gens s ! i)"
    "g_writer (gens s ! i) = Receiving \<Longrightarrow> chan s \<noteq> []"
    using n assms(2) by (auto simp: ctl_ok_def Let_def)
  have head: "\<exists>s'. pump_step\<^sup>*\<^sup>* s s' \<and> ctl s' = Await i t \<and> i < length (gens s') \<and> g_writer (gens s' ! i) = Gone"
    if "ctl s = Await i t" "i < length (gens s)" "g_writer (gens s ! i) = AtHead" "\<not> g_live (gens s ! i)" for s
    using head_off [OF that(2) refl that(3)] that
    by (intro exI [of _ "writer_exits s i (gens s ! i)"]) (simp add: writer_exits_def r_into_rtranclp)
  show ?thesis
  proof (cases "g_writer (gens s ! i)")
    case Receiving
    then obtain p q where pq: "chan s = p # q" using i(5) by (cases "chan s") auto
    define s1 where "s1 = (if p = [] then (put_gen s i ((gens s ! i)\<lparr>g_writer := AtHead\<rparr>))\<lparr>chan := q\<rparr>
      else (put_gen s i ((gens s ! i)\<lparr>g_writer := AtHead, g_late := g_late (gens s ! i) + (if g_live (gens s ! i) then 0 else 1)\<rparr>))
         \<lparr>chan := q, tries := tries s @ [(i, p, True)]\<rparr>)"
    have "pump_step s s1"
      using sentinel [OF i(2) refl Receiving] written [OF i(2) refl Receiving] pq by (auto simp: s1_def)
    moreover have "ctl s1 = Await i t" "i < length (gens s1)" "g_writer (gens s1 ! i) = AtHead" "\<not> g_live (gens s1 ! i)"
      using i assms(2) by (auto simp: s1_def)
    ultimately show ?thesis using head [of s1] by (meson converse_rtranclp_into_rtranclp)
  next
    case AtHead
    then show ?thesis using head assms(2) i by blast
  next
    case Gone
    then show ?thesis using assms(2) i by blast
  qed (use i in simp)
qed

lemma both_joined:
  assumes "pump_ok s" and "ctl s = Await i t"
  shows "\<exists>s'. pump_step\<^sup>*\<^sup>* s s' \<and> ctl s' = (case t of None \<Rightarrow> Joined | Some fd' \<Rightarrow> Respawn fd')"
proof -
  obtain s1 where s1: "pump_step\<^sup>*\<^sup>* s s1" "ctl s1 = Await i t" "i < length (gens s1)" "g_writer (gens s1 ! i) = Gone"
    using writer_finishes [OF assms] by blast
  define s2 where "s2 = put_gen s1 i ((gens s1 ! i)\<lparr>g_reader := False\<rparr>)"
  define s3 where "s3 = (case t of None \<Rightarrow> s2\<lparr>ctl := Joined, chan_open := False\<rparr> | Some fd' \<Rightarrow> s2\<lparr>ctl := Respawn fd'\<rparr>)"
  have "pump_step\<^sup>*\<^sup>* s1 s2"
  proof (cases "g_reader (gens s1 ! i)")
    case True
    then show ?thesis using reader_ends [OF s1(3) refl] by (auto simp: s2_def)
  next
    case False
    then have "(gens s1 ! i)\<lparr>g_reader := False\<rparr> = gens s1 ! i" by simp
    then show ?thesis by (simp add: s2_def)
  qed
  moreover have "pump_step s2 s3"
    unfolding s3_def using s1 by (intro pump_step.stopped [of s2 i]) (auto simp: s2_def)
  ultimately have "pump_step\<^sup>*\<^sup>* s s3" using s1(1) by auto
  then show ?thesis by (intro exI [of _ s3]) (simp add: s3_def split: option.split)
qed


section \<open>A writer in service\<close>

text \<open>A writer that has returned stays so, and its generation makes no more writes.\<close>
lemma gone_step:
  assumes "pump_step s s'" and "pump_ok s" and "i < length (gens s)" and "g_writer (gens s ! i) = Gone"
  shows "i < length (gens s') \<and> g_writer (gens s' ! i) = Gone \<and>
    (\<exists>ts. tries s' = tries s @ ts \<and> (\<forall>t\<in>set ts. fst t \<noteq> i))"
  using assms
proof (induction rule: pump_step.induct)
  case (written j s g p q)
  then have "j \<noteq> i" by auto
  then show ?case using written.prems by (simp add: nth_list_update)
next
  case (failed j s g p q)
  then have "j \<noteq> i" by auto
  then show ?case using failed.prems by (simp add: nth_list_update writer_exits_def)
next
  case (writer_up s j)
  then have "j \<noteq> i" by (auto simp: pump_ok_def ctl_ok_def Let_def)
  then show ?case using writer_up.prems by (simp add: nth_list_update)
qed (auto simp: nth_list_update nth_append writer_exits_def split: option.split)

lemma gone_steps:
  assumes "pump_step\<^sup>*\<^sup>* s s'" and "pump_ok s" and "i < length (gens s)" and "g_writer (gens s ! i) = Gone"
  shows "i < length (gens s') \<and> g_writer (gens s' ! i) = Gone \<and>
    (\<exists>ts. tries s' = tries s @ ts \<and> (\<forall>t\<in>set ts. fst t \<noteq> i))"
  using assms
proof (induction rule: rtranclp_induct)
  case (step s1 s2)
  then obtain ts where ts: "i < length (gens s1)" "g_writer (gens s1 ! i) = Gone" "tries s1 = tries s @ ts"
    "\<forall>t\<in>set ts. fst t \<noteq> i" by blast
  have "pump_ok s1" using pump_ok_steps step.hyps(1) step.prems(1) by blast
  then obtain us where "i < length (gens s2)" "g_writer (gens s2 ! i) = Gone" "tries s2 = tries s1 @ us"
    "\<forall>t\<in>set us. fst t \<noteq> i" using gone_step [OF step.hyps(2) _ ts(1,2)] by blast
  then show ?case using ts by (intro conjI exI [of _ "ts @ us"]) auto
qed simp

lemma send_all:
  "chan_open s \<Longrightarrow> pump_step\<^sup>*\<^sup>* s (s\<lparr>chan := chan s @ ps, sent := sent s @ real ps\<rparr>)"
proof (induction ps arbitrary: s)
  case (Cons p ps)
  let ?s1 = "s\<lparr>chan := chan s @ [p], sent := sent s @ real [p]\<rparr>"
  have "real (p # ps) = real [p] @ real ps" by (simp add: real_def)
  moreover have "pump_step s ?s1" by (rule pump_step.send [OF Cons.prems])
  moreover have "pump_step\<^sup>*\<^sup>* ?s1 (?s1\<lparr>chan := chan ?s1 @ ps, sent := sent ?s1 @ real ps\<rparr>)"
    using Cons.prems by (intro Cons.IH) simp
  ultimately show ?case by (simp add: converse_rtranclp_into_rtranclp)
qed simp

text \<open>
  A writer in service ends only when a write fails: a sentinel left over from an
  earlier generation does not stop it. But when one has failed nothing tells the senders:
  the receiver lives on in the thread's handle, so the channel goes on taking whatever is
  sent, without bound, and as long as this generation is in service not one more packet
  reaches the TUN.
\<close>
theorem failed_writer_goes_unnoticed:
  assumes "reachable fd s" and "io s = Some i" and "ctl s = Idle" and "running s" and "g_writer (gens s ! i) = Gone"
  shows "g_failed (gens s ! i) \<and>
    (\<exists>s'. pump_step\<^sup>*\<^sup>* s s' \<and> chan s' = chan s @ ps \<and> io s' = Some i) \<and>
    (\<forall>s'. pump_step\<^sup>*\<^sup>* s s' \<and> io s' = Some i \<and> ctl s' = Idle \<longrightarrow> tries s' = tries s)"
proof -
  have ok: "pump_ok s" by (rule pump_ok_reachable [OF assms(1)])
  note n = pump_ok_newest [OF ok]
  have i: "i = newest s" "chan_open s" "g_live (gens s ! i)" using n(3) assms(2,3) by (auto simp: ctl_ok_def Let_def)
  have "g_failed (gens s ! i)" using n(2) i assms(4,5) by (simp add: gen_ok_def)
  moreover have "\<exists>s'. pump_step\<^sup>*\<^sup>* s s' \<and> chan s' = chan s @ ps \<and> io s' = Some i"
    using send_all [OF i(2), of ps] assms(2)
    by (intro exI [of _ "s\<lparr>chan := chan s @ ps, sent := sent s @ real ps\<rparr>"]) simp
  moreover have "tries s' = tries s" if s': "pump_step\<^sup>*\<^sup>* s s'" "io s' = Some i" "ctl s' = Idle" for s'
  proof -
    have ok': "pump_ok s'" using pump_ok_steps s'(1) ok by blast
    then have "newest s' = i" using s'(2,3) by (auto simp: pump_ok_def ctl_ok_def Let_def)
    then have le: "\<forall>t\<in>set (tries s'). fst t \<le> i" using ok' by (simp add: pump_ok_def)
    obtain ts where ts: "tries s' = tries s @ ts" "\<forall>t\<in>set ts. newest s \<le> fst t"
      using steps_tries [OF s'(1) ok] by blast
    moreover have "\<forall>t\<in>set ts. fst t \<noteq> i"
      using gone_steps [OF s'(1) ok _ assms(5)] n(1) i(1) ts(1) by auto
    moreover have "fst t \<le> i" if "t \<in> set ts" for t using le ts(1) that by simp
    ultimately have "t \<notin> set ts" for t using i(1) by (metis le_antisym)
    then have "set ts = {}" using all_not_in_conv by metis
    then show ?thesis using ts(1) by simp
  qed
  ultimately show ?thesis by blast
qed

section \<open>Witnesses\<close>

lemmas then_steps = converse_rtranclp_into_rtranclp [of pump_step]


text \<open>One packet is sent and its write fails.\<close>
definition failed_state :: pump where
  "failed_state =
     \<lparr>running = True, gens = [(new_gen 3)\<lparr>g_writer := Gone, g_failed := True\<rparr>], io = Some 0, ctl = Idle,
      chan = [], chan_open = True, sent = [[0x60]], tries = [(0, [0x60], False)]\<rparr>"

lemma failed_state_reachable: "reachable 3 failed_state"
proof -
  let ?s1 = "(pump_init 3)\<lparr>chan := [[0x60]], sent := [[0x60]]\<rparr>"
  let ?s2 = "put_gen ?s1 0 ((new_gen 3)\<lparr>g_writer := Receiving\<rparr>)"
  have s1: "pump_step (pump_init 3) ?s1"
    using pump_step.send [of "pump_init 3" "[0x60]"] by (simp add: pump_init_def)
  have s2: "pump_step ?s1 ?s2"
    using pump_step.head_on [of 0 ?s1, OF _ refl] by (simp add: pump_init_def new_gen_def)
  have s3: "pump_step ?s2 failed_state"
    using pump_step.failed [of 0 ?s2, OF _ refl]
    by (simp add: pump_init_def new_gen_def writer_exits_def held_def failed_state_def)
  show ?thesis
    by (rule then_steps [OF s1], rule then_steps [OF s2], rule then_steps [OF s3], rule rtranclp.rtrancl_refl)
qed

theorem failed_writer_goes_unnoticed_witness:
  "\<exists>s'. pump_step\<^sup>*\<^sup>* failed_state s' \<and> chan s' = [[1], [2], [3]] \<and> io s' = Some 0"
  using failed_writer_goes_unnoticed [OF failed_state_reachable, of 0 "[[1], [2], [3]]"]
  by (simp add: failed_state_def)

text \<open>A packet is written, then the pump moves from fd 3 to fd 4.\<close>
definition awaiting :: pump where
  "awaiting =
     \<lparr>running = True,
      gens = [\<lparr>g_fd = 3, g_live = False, g_reader = True, g_woken = True, g_writer = AtHead, g_late = 0, g_failed = False\<rparr>],
      io = None, ctl = Await 0 (Some 4), chan = [[]], chan_open = True, sent = [[0x60]], tries = [(0, [0x60], True)]\<rparr>"

definition swapped :: pump where
  "swapped =
     \<lparr>running = True,
      gens = [\<lparr>g_fd = 3, g_live = False, g_reader = False, g_woken = True, g_writer = Gone, g_late = 0, g_failed = False\<rparr>,
        (new_gen 4)\<lparr>g_writer := AtHead\<rparr>],
      io = Some 1, ctl = Idle, chan = [[]], chan_open = True, sent = [[0x60]], tries = [(0, [0x60], True)]\<rparr>"

lemma awaiting_reachable: "reachable 3 awaiting"
proof -
  let ?s1 = "(pump_init 3)\<lparr>chan := [[0x60]], sent := [[0x60]]\<rparr>"
  let ?s2 = "put_gen ?s1 0 ((new_gen 3)\<lparr>g_writer := Receiving\<rparr>)"
  let ?s3 = "(pump_init 3)\<lparr>sent := [[0x60]], tries := [(0, [0x60], True)]\<rparr>"
  let ?s4 = "?s3\<lparr>gens := [(new_gen 3)\<lparr>g_writer := AtHead, g_live := False\<rparr>], io := None, ctl := Retire 0 (Some 4)\<rparr>"
  have s1: "pump_step (pump_init 3) ?s1"
    using pump_step.send [of "pump_init 3" "[0x60]"] by (simp add: pump_init_def)
  have s2: "pump_step ?s1 ?s2"
    using pump_step.head_on [of 0 ?s1, OF _ refl] by (simp add: pump_init_def new_gen_def)
  have s3: "pump_step ?s2 ?s3"
    using pump_step.written [of 0 ?s2, OF _ refl] by (simp add: pump_init_def new_gen_def)
  have s4: "pump_step ?s3 ?s4"
    using pump_step.begin_stop [of ?s3 0 "Some 4"] by (simp add: pump_init_def new_gen_def)
  have s5: "pump_step ?s4 awaiting"
    using pump_step.signal [of ?s4 0 "Some 4"] by (simp add: pump_init_def new_gen_def awaiting_def)
  show ?thesis
    by (rule then_steps [OF s1], rule then_steps [OF s2], rule then_steps [OF s3], rule then_steps [OF s4], rule then_steps [OF s5], rule rtranclp.rtrancl_refl)
qed

lemma swapped_reachable: "reachable 3 swapped"
proof -
  let ?g = "\<lparr>g_fd = 3, g_live = False, g_reader = False, g_woken = True, g_writer = Gone, g_late = 0, g_failed = False\<rparr>"
  let ?s1 = "awaiting\<lparr>gens := [?g\<lparr>g_reader := True\<rparr>]\<rparr>"
  let ?s2 = "awaiting\<lparr>gens := [?g]\<rparr>"
  let ?s3 = "?s2\<lparr>ctl := Respawn 4\<rparr>"
  let ?s4 = "?s3\<lparr>gens := [?g, new_gen 4], ctl := Half 1\<rparr>"
  have s1: "pump_step awaiting ?s1"
    using pump_step.head_off [of 0 awaiting, OF _ refl] by (simp add: awaiting_def writer_exits_def held_def)
  have s2: "pump_step ?s1 ?s2"
    using pump_step.reader_ends [of 0 ?s1, OF _ refl] by (simp add: awaiting_def)
  have s3: "pump_step ?s2 ?s3"
    using pump_step.stopped [of ?s2 0 "Some 4"] by (simp add: awaiting_def)
  have s4: "pump_step ?s3 ?s4"
    using pump_step.reader_up [of ?s3 4] by (simp add: awaiting_def)
  have s5: "pump_step ?s4 swapped"
    using pump_step.writer_up [of ?s4 1] by (simp add: awaiting_def swapped_def)
  have "pump_step\<^sup>*\<^sup>* awaiting swapped"
    by (rule then_steps [OF s1], rule then_steps [OF s2], rule then_steps [OF s3], rule then_steps [OF s4], rule then_steps [OF s5], rule rtranclp.rtrancl_refl)
  then show ?thesis using awaiting_reachable by simp
qed

theorem swap_frees_old_fd_witness: "io swapped = Some 1 \<and> quiet (gens swapped ! 0)"
  using swap_frees_old_fd [OF swapped_reachable, THEN conjunct1, rule_format, of 1 0]
  by (simp add: swapped_def)


theorem pump_refines_fifo_witness: "fifo_step\<^sup>*\<^sup>* ([], []) ([], [[0x60]])"
  using pump_refines_fifo [OF swapped_reachable] by (simp add: swapped_def abs_pump_def)

end
