(* ===== verification/Tunnel.thy ===== *)
theory Tunnel
  imports PumpFlow PumpIo DnsServe
begin

text \<open>
  A name looked up by an app, end to end: the reader of \<open>pump.rs\<close>, \<open>DnsProxy\<close> of \<open>dns.rs\<close> on
  its thread, and the writer channel of the pump. The parts are those of \<open>PumpFlow\<close>,
  \<open>DnsServe\<close> and \<open>PumpIo\<close>; here they are put together as \<open>handle\<close> does.
\<close>

section \<open>The proxy's thread\<close>

text \<open>
  \<open>handle\<close> and the end of \<open>serve\<close>: the thread that \<open>handle\<close> spawns sends the response on
  the writer channel, when it has one and the thread was spawned; \<open>None\<close> while it runs.
\<close>
definition handle_query :: "bool \<Rightarrow> dns_proxy \<Rightarrow> DnsServe.world \<Rightarrow> bytes \<Rightarrow> (bytes list \<times> net_op list) option rust" where
  "handle_query spawned proxy w packet =
     (if \<not> spawned then Some (Some ([], []))
      else
        map_option
          (\<lambda>(r, ops). case r of Sent response \<Rightarrow> Some ([response], ops) | NoReply \<Rightarrow> Some ([], ops) | Waiting \<Rightarrow> None)
          (serve proxy w packet))"

section \<open>A built packet\<close>

lemma built_nonempty: "build_ipv6_udp s d sp dp p = Some out \<Longrightarrow> out \<noteq> []"
  by (auto simp: build_ipv6_udp_eq Let_def)

lemma built_unique:
  assumes "build_ipv6_udp s d sp dp p = Some out" and "length s = 16" and "length d = 16" and "length p \<le> 65527"
  shows "plain_udp out \<and> udp_view out = \<lparr>ip_src = s, ip_dst = d, ip_src_port = sp, ip_dst_port = dp, ip_payload = p\<rparr>"
  by (rule built_view [OF assms(2-4), of sp dp]) (use assms(1) in simp)

lemma intercepted:
  assumes "plain_udp packet" and "ip_dst (udp_view packet) = c_dns_addr ctx" and "ip_dst_port (udp_view packet) = 53"
  shows "reader_packet ctx v packet s = Some (s\<lparr>dns_out := dns_out s @ [packet]\<rparr>, True)"
proof -
  have "intercepts packet (c_dns_addr ctx) = Some True"
    using assms by (simp add: intercepts_def parse_ipv6_udp_eq)
  then show ?thesis by (simp add: reader_packet_def)
qed

section \<open>Properties\<close>

text \<open>
  C10. An app that asks the tunnel's name server gets its answer through the tunnel. The
  reader takes the query to the proxy and nowhere else, whatever the node's pipeline and
  the firewall would have said; the proxy answers it, whatever the lookup, the responder,
  the upstreams and the sockets do, the wait of a released lookup included, provided the
  fetching thread finishes and the clock reaches the budget; and the answer goes into the
  pump's queue as a packet, never as the writer's stop sentinel, from the name server's
  address and port 53 to the address and port that asked.
\<close>
theorem query_answered_through_tunnel:
  assumes "plain_udp packet" and "ip_dst (udp_view packet) = c_dns_addr ctx" and "ip_dst_port (udp_view packet) = 53"
    and "12 \<le> length (ip_payload (udp_view packet))" and "map_option snd (lookup w) = Some OEarly \<Longrightarrow> lets_go w"
    and "chan_open p"
  shows "reader_packet ctx v packet s = Some (s\<lparr>dns_out := dns_out s @ [packet]\<rparr>, True) \<and>
    (\<exists>response payload ops. handle_query True proxy w packet = Some (Some ([response], ops)) \<and>
       pump_step p (p\<lparr>chan := chan p @ [response], sent := sent p @ [response]\<rparr>) \<and>
       (length payload \<le> 65527 \<longrightarrow> plain_udp response \<and>
          udp_view response = \<lparr>ip_src = c_dns_addr ctx, ip_dst = ip_src (udp_view packet), ip_src_port = 53,
            ip_dst_port = ip_src_port (udp_view packet), ip_payload = payload\<rparr>))"
proof -
  obtain payload response ops where r: "serve proxy w packet = Some (Sent response, ops)"
    "build_ipv6_udp (c_dns_addr ctx) (ip_src (udp_view packet)) 53 (ip_src_port (udp_view packet)) payload = Some response"
    using serve_answers_every_query [OF assms(1,4,5), of proxy] assms(2) by auto
  have "pump_step p (p\<lparr>chan := chan p @ [response], sent := sent p @ [response]\<rparr>)"
    using pump_step.send [OF assms(6), of response] built_nonempty [OF r(2)] by (simp add: real_def)
  moreover have "length (ip_src (udp_view packet)) = 16" "length (c_dns_addr ctx) = 16"
    using assms(1) unfolding assms(2) [symmetric] by (auto simp: udp_view_def plain_udp_def min_def)
  moreover have "handle_query True proxy w packet = Some (Some ([response], ops))"
    using r(1) by (simp add: handle_query_def)
  ultimately show ?thesis
    using intercepted [OF assms(1-3)] built_unique [OF r(2)] by blast
qed

section \<open>Witness\<close>

theorem query_answered_through_tunnel_witness:
  "\<exists>packet response ops.
     reader_packet \<lparr>c_dns_addr = replicate 16 3, c_has_forward = False, c_mesh_prefix = 0xfd\<rparr>
       (forwards app_packet 0) packet (reader_init None) = Some ((reader_init None)\<lparr>dns_out := [packet]\<rparr>, True) \<and>
     handle_query True test_proxy test_world packet = Some (Some ([response], ops)) \<and>
     pump_step (pump_init 5) ((pump_init 5)\<lparr>chan := [response], sent := [response]\<rparr>)"
proof -
  obtain out where p: "plain_udp out" "udp_view out = \<lparr>ip_src = replicate 16 2, ip_dst = replicate 16 3,
     ip_src_port = 40000, ip_dst_port = 53, ip_payload = web_query\<rparr>"
    by (rule built_view [of "replicate 16 2" "replicate 16 3" web_query 40000 53]) (auto simp: query_names)
  have o: "chan_open (pump_init 5)" "chan (pump_init 5) = []" "sent (pump_init 5) = []"
    by (simp_all add: pump_init_def)
  show ?thesis
    using query_answered_through_tunnel [OF p(1), of
        "\<lparr>c_dns_addr = replicate 16 3, c_has_forward = False, c_mesh_prefix = 0xfd\<rparr>" test_world "pump_init 5" "forwards app_packet 0" "reader_init None" test_proxy]
      test_lets_go o by (auto simp: p(2) query_names reader_init_def)
qed

end
