(* ===== verification/RustNet.thy ===== *)
theory RustNet
  imports RustStr
begin

text \<open>
  Rust's textual IP addresses (\<open>core::net\<close>): the parsers of \<open>IpAddr\<close> and \<open>SocketAddr\<close> and
  their \<open>Display\<close>. A parser takes a value off the front of the text or fails.
\<close>

datatype ip_addr = V4 bytes | V6 bytes

record socket_addr =
  sa_ip :: ip_addr
  sa_port :: nat

definition is_ipv4 :: "ip_addr \<Rightarrow> bool" where
  "is_ipv4 a = (case a of V4 _ \<Rightarrow> True | V6 _ \<Rightarrow> False)"

type_synonym 'a parser = "bytes \<Rightarrow> ('a \<times> bytes) option"

definition given_char :: "u8 \<Rightarrow> unit parser" where
  "given_char c s = (case s of [] \<Rightarrow> None | b # r \<Rightarrow> if b = c then Some ((), r) else None)"

text \<open>\<open>read_number\<close>: the digits, at most so many, without a leading zero unless allowed, in \<open>w\<close> bits.\<close>
definition read_number :: "nat \<Rightarrow> nat \<Rightarrow> nat option \<Rightarrow> bool \<Rightarrow> nat parser" where
  "read_number w radix max_digits allow_zero_prefix s =
     (let ds = takeWhile (\<lambda>b. to_digit radix b \<noteq> None) s
      in if ds = [] \<or> (\<exists>m\<in>set_option max_digits. m < length ds) \<or>
            \<not> allow_zero_prefix \<and> hd ds = 48 \<and> 1 < length ds
         then None
         else
           (case digits_value radix 0 ds of
              Some n \<Rightarrow> if n < 2 ^ w then Some (n, drop (length ds) s) else None
            | None \<Rightarrow> None))"

definition separated :: "u8 \<Rightarrow> nat \<Rightarrow> 'a parser \<Rightarrow> 'a parser" where
  "separated c i p s = (if 0 < i then do { (u, r) \<leftarrow> given_char c s; p r } else p s)"

definition read_ipv4 :: "bytes parser" where
  "read_ipv4 s = do {
     (a, s) \<leftarrow> read_number 8 10 (Some 3) False s;
     (b, s) \<leftarrow> separated 46 1 (read_number 8 10 (Some 3) False) s;
     (c, s) \<leftarrow> separated 46 2 (read_number 8 10 (Some 3) False) s;
     (d, s) \<leftarrow> separated 46 3 (read_number 8 10 (Some 3) False) s;
     Some (map word_of_nat [a, b, c, d], s)
   }"

text \<open>\<open>read_groups\<close>: the groups from the \<open>i\<close>th on, as bytes, and whether an IPv4 address ended them.\<close>
function read_groups :: "nat \<Rightarrow> nat \<Rightarrow> bytes \<Rightarrow> bytes \<times> bool \<times> bytes" where
  "read_groups limit i s =
     (if i < limit then
        (case (if i + 1 < limit then separated 58 i read_ipv4 s else None) of
           Some (v4, r) \<Rightarrow> (v4, True, r)
         | None \<Rightarrow>
             (case separated 58 i (read_number 16 16 (Some 4) True) s of
                Some (g, r) \<Rightarrow>
                  (let (gs, v4, r) = read_groups limit (i + 1) r
                   in (to_be16 (word_of_nat g) @ gs, v4, r))
              | None \<Rightarrow> ([], False, s)))
      else ([], False, s))"
  by pat_completeness auto
termination by (relation "measure (\<lambda>(limit, i, s). limit - i)") auto

declare read_groups.simps [simp del]

definition read_ipv6 :: "bytes parser" where
  "read_ipv6 s =
     (let (front, v4, r) = read_groups 8 0 s
      in if length front = 16 then Some (front, r)
         else if v4 then None
         else do {
           (u, r) \<leftarrow> given_char 58 r;
           (u, r) \<leftarrow> given_char 58 r;
           let (back, v4, r) = read_groups (8 - (length front div 2 + 1)) 0 r;
           Some (front @ replicate (16 - length front - length back) 0 @ back, r)
         })"

text \<open>The whole text must be the value.\<close>
definition whole :: "'a parser \<Rightarrow> rust_string \<Rightarrow> 'a option" where
  "whole p s = (case p s of Some (a, []) \<Rightarrow> Some a | _ \<Rightarrow> None)"

definition read_ip :: "ip_addr parser" where
  "read_ip s =
     (case read_ipv4 s of
        Some (a, r) \<Rightarrow> Some (V4 a, r)
      | None \<Rightarrow> map_option (\<lambda>(a, r). (V6 a, r)) (read_ipv6 s))"

definition parse_ip :: "rust_string \<Rightarrow> ip_addr option" where
  "parse_ip = whole read_ip"

definition read_port :: "nat parser" where
  "read_port s = do { (u, s) \<leftarrow> given_char 58 s; read_number 16 10 None True s }"

definition read_socket_v4 :: "socket_addr parser" where
  "read_socket_v4 s = do {
     (a, s) \<leftarrow> read_ipv4 s;
     (p, s) \<leftarrow> read_port s;
     Some (\<lparr>sa_ip = V4 a, sa_port = p\<rparr>, s)
   }"

text \<open>The scope of an IPv6 socket address is read and, as far as \<open>ip()\<close> and \<open>port()\<close> go, dropped.\<close>
definition read_socket_v6 :: "socket_addr parser" where
  "read_socket_v6 s = do {
     (u, s) \<leftarrow> given_char 91 s;
     (a, s) \<leftarrow> read_ipv6 s;
     let s = (case given_char 37 s of
                Some (u, r) \<Rightarrow> (case read_number 32 10 None True r of Some (n, r) \<Rightarrow> r | None \<Rightarrow> s)
              | None \<Rightarrow> s);
     (u, s) \<leftarrow> given_char 93 s;
     (p, s) \<leftarrow> read_port s;
     Some (\<lparr>sa_ip = V6 a, sa_port = p\<rparr>, s)
   }"

definition parse_socket_addr :: "rust_string \<Rightarrow> socket_addr option" where
  "parse_socket_addr s =
     (case whole read_socket_v4 s of Some a \<Rightarrow> Some a | None \<Rightarrow> whole read_socket_v6 s)"

definition show_ip :: "ip_addr \<Rightarrow> rust_string" where
  "show_ip a =
     (case a of
        V4 b \<Rightarrow> show_dec (unat (b ! 0)) @ ascii ''.'' @ show_dec (unat (b ! 1)) @ ascii ''.'' @
          show_dec (unat (b ! 2)) @ ascii ''.'' @ show_dec (unat (b ! 3))
      | V6 b \<Rightarrow> show_ipv6 b)"

definition show_socket_addr :: "socket_addr \<Rightarrow> rust_string" where
  "show_socket_addr a =
     (case sa_ip a of
        V4 b \<Rightarrow> show_ip (sa_ip a)
      | V6 b \<Rightarrow> ascii ''['' @ show_ip (sa_ip a) @ ascii '']'') @ ascii '':'' @ show_dec (sa_port a)"

section \<open>Round trip\<close>

lemma show_dec_digits: "b \<in> set (show_dec n) \<Longrightarrow> to_digit 10 b \<noteq> None"
proof (induction n rule: less_induct)
  case (less n)
  show ?case
  proof (cases "n < 10")
    case True
    then show ?thesis using less.prems by (simp add: show_radix.simps [of 10 n] to_digit_digit)
  next
    case False
    have e: "show_dec n = show_dec (n div 10) @ [digit (n mod 10)]"
      using False by (subst show_radix.simps) simp
    have "to_digit 10 (digit (n mod 10)) = Some (n mod 10)" by (rule to_digit_digit) simp_all
    then show ?thesis using less.IH [of "n div 10"] less.prems False e by auto
  qed
qed

lemma show_dec_first: "0 < n \<Longrightarrow> hd (show_dec n) \<noteq> 48"
proof (induction n rule: less_induct)
  case (less n)
  show ?case
  proof (cases "n < 10")
    case True
    then have "\<forall>m<10. 0 < m \<longrightarrow> digit m \<noteq> 48" by code_simp
    then show ?thesis using less.prems True by (simp add: show_radix.simps [of 10 n])
  next
    case False
    have "show_dec n = show_dec (n div 10) @ [digit (n mod 10)]"
      using False by (subst show_radix.simps) simp
    then show ?thesis using less.IH [of "n div 10"] False by simp
  qed
qed

lemma show_dec_length: "n < 10 ^ k \<Longrightarrow> 0 < k \<Longrightarrow> length (show_dec n) \<le> k"
proof (induction k arbitrary: n)
  case (Suc k)
  show ?case
  proof (cases "n < 10")
    case True
    then show ?thesis by (simp add: show_radix.simps [of 10 n])
  next
    case False
    have "show_dec n = show_dec (n div 10) @ [digit (n mod 10)]"
      using False by (subst show_radix.simps) simp
    moreover have "n div 10 < 10 ^ k" using Suc.prems by (simp add: less_mult_imp_div_less)
    moreover have "0 < k" using False Suc.prems by (cases k) auto
    ultimately show ?thesis using Suc.IH [of "n div 10"] by simp
  qed
qed simp

lemma read_number_show:
  assumes "n < 2 ^ w" and "w \<le> 16" and "\<And>m. max_digits = Some m \<Longrightarrow> n < 10 ^ m \<and> 0 < m"
    and "r = [] \<or> to_digit 10 (hd r) = None"
  shows "read_number w 10 max_digits zero (show_dec n @ r) = Some (n, r)"
proof -
  have "takeWhile (\<lambda>b. to_digit 10 b \<noteq> None) (show_dec n @ r) = show_dec n"
    using assms(4) show_dec_digits by (cases r) (simp_all add: takeWhile_append)
  moreover have "\<not> (hd (show_dec n) = 48 \<and> 1 < length (show_dec n))"
    using show_dec_first [of n] by (cases "n = 0") (auto simp: show_radix.simps [of 10 0])
  moreover have "length (show_dec n) \<le> m" if "max_digits = Some m" for m
    using assms(3) [OF that] show_dec_length by blast
  ultimately show ?thesis
    using assms(1) digits_value_show [of 10 n]
    by (cases max_digits) (auto simp: read_number_def Let_def not_less)
qed

lemma dot_no_digit: "to_digit 10 46 = None" "to_digit 10 58 = None" "to_digit 10 47 = None"
  by (simp_all add: to_digit_def)

lemma read_ipv4_show:
  assumes "length b = 4" and "r = [] \<or> to_digit 10 (hd r) = None"
  shows "read_ipv4 (show_ip (V4 b) @ r) = Some (b, r)"
proof -
  obtain a0 a1 a2 a3 where b: "b = [a0, a1, a2, a3]"
    using assms(1) by (auto simp: length_Suc_conv numeral_eq_Suc)
  have n: "read_number 8 10 (Some 3) False (show_dec (unat x) @ r') = Some (unat x, r')"
    if "r' = [] \<or> to_digit 10 (hd r') = None" for x :: u8 and r'
    using that unsigned_less [of x] by (intro read_number_show) auto
  show ?thesis
    using assms(2) n
    by (simp add: b show_ip_def read_ipv4_def separated_def given_char_def ascii_def dot_no_digit)
qed

text \<open>An IPv4 socket address reads back from its text.\<close>
lemma parse_show_socket_v4:
  assumes "length b = 4" and "p < 2 ^ 16"
  shows "parse_socket_addr (show_socket_addr \<lparr>sa_ip = V4 b, sa_port = p\<rparr>) = Some \<lparr>sa_ip = V4 b, sa_port = p\<rparr>"
proof -
  have "read_ipv4 (show_ip (V4 b) @ 58 # show_dec p) = Some (b, 58 # show_dec p)"
    using assms(1) by (rule read_ipv4_show) (simp add: dot_no_digit)
  moreover have "read_number 16 10 None True (show_dec p) = Some (p, [])"
    using read_number_show [of p 16 None "[]" True] assms(2) by simp
  ultimately show ?thesis
    by (simp add: parse_socket_addr_def show_socket_addr_def whole_def read_socket_v4_def read_port_def
        given_char_def ascii_def)
qed

end
