(* ===== verification/Ipv6Text.thy ===== *)
theory Ipv6Text
  imports RustNet
begin

text \<open>
  The text of an IPv6 address reads back: \<open>Display\<close> with its compression of the longest run
  of zeros and its form for mapped IPv4 addresses, against \<open>core::net\<close>'s parser. The shim
  hands addresses around as text (\<open>resolve_npub\<close>, \<open>derive_identity\<close>) and parses them again.
\<close>

section \<open>A group\<close>

lemma length_show_hex: "n < 16 ^ k \<Longrightarrow> 0 < k \<Longrightarrow> length (show_hex n) \<le> k"
proof (induction k arbitrary: n)
  case (Suc k)
  show ?case
  proof (cases "n < 16")
    case True
    then show ?thesis by (simp add: show_radix.simps [of 16 n])
  next
    case False
    then have "0 < k" using Suc.prems by (cases k) auto
    moreover have "n div 16 < 16 ^ k" using Suc.prems by (simp add: less_mult_imp_div_less)
    ultimately have "length (show_hex (n div 16)) \<le> k" by (rule Suc.IH [rotated])
    then show ?thesis using False by (simp add: show_radix.simps [of 16 n])
  qed
qed simp

lemma hex_char: "b \<in> set (show_hex n) \<Longrightarrow> to_digit 16 b \<noteq> None \<and> b \<noteq> 46 \<and> b \<noteq> 58"
proof -
  have "\<forall>d<16. digit d \<noteq> 46 \<and> digit d \<noteq> 58" by code_simp
  then show "b \<in> set (show_hex n) \<Longrightarrow> ?thesis"
    using show_radix_digits [of 16 b n] to_digit_digit [of _ 16] by fastforce
qed

lemma colon_no_digit: "to_digit 16 58 = None" "to_digit 10 58 = None" "to_digit 16 93 = None" "to_digit 10 93 = None"
  by (simp_all add: to_digit_def)

lemma read_hex_group:
  assumes "g < 65536" and "r = [] \<or> hd r \<in> {58, 93}"
  shows "read_number 16 16 (Some 4) True (show_hex g @ r) = Some (g, r)"
proof -
  have "takeWhile (\<lambda>b. to_digit 16 b \<noteq> None) (show_hex g @ r) = show_hex g"
    using assms(2) hex_char by (cases r) (auto simp: takeWhile_append colon_no_digit)
  moreover have "length (show_hex g) \<le> 4" using assms(1) by (intro length_show_hex) simp_all
  ultimately show ?thesis
    using assms(1) digits_value_show [of 16 g] by (auto simp: read_number_def Let_def not_less)
qed

lemma no_hex_group: "r = [] \<or> hd r \<in> {58, 93} \<Longrightarrow> read_number 16 16 (Some 4) True r = None"
  by (cases r) (auto simp: read_number_def colon_no_digit)

text \<open>A text whose first group has no dot is not an IPv4 address.\<close>
lemma no_dot_no_ipv4:
  assumes "46 \<notin> set g" and "r = [] \<or> hd r \<in> {58, 93}"
  shows "read_ipv4 (g @ r) = None"
proof (cases "read_number 8 10 (Some 3) False (g @ r)")
  case (Some p)
  define P where "P = (\<lambda>b. to_digit 10 b \<noteq> None)"
  obtain n where p: "p = (n, dropWhile P (g @ r))"
    using Some by (auto simp: read_number_def Let_def P_def dropWhile_eq_drop split: if_splits option.splits)
  have "given_char 46 (dropWhile P (g @ r)) = None"
  proof (cases "\<exists>x\<in>set g. \<not> P x")
    case True
    then have ne: "dropWhile P g \<noteq> []" by simp
    then have "hd (dropWhile P g) \<in> set g" by (metis hd_in_set set_dropWhileD)
    then show ?thesis
      using True assms(1) ne by (cases "dropWhile P g") (auto simp: dropWhile_append1 given_char_def)
  next
    case False
    then have "dropWhile P (g @ r) = dropWhile P r" by (simp add: dropWhile_append2)
    also have "\<dots> = r" using assms(2) by (cases r) (auto simp: P_def colon_no_digit)
    finally have e: "dropWhile P (g @ r) = r" .
    show ?thesis unfolding e using assms(2) by (cases r) (auto simp: given_char_def)
  qed
  then show ?thesis using Some p by (simp add: read_ipv4_def separated_def)
qed (simp add: read_ipv4_def)

lemma group_no_ipv4: "r = [] \<or> hd r \<in> {58, 93} \<Longrightarrow> read_ipv4 (show_hex g @ r) = None"
  using hex_char by (intro no_dot_no_ipv4) auto

section \<open>The groups\<close>

text \<open>The groups from the \<open>i\<close>th on, each after the first with its colon.\<close>
fun groups_text :: "nat \<Rightarrow> nat list \<Rightarrow> bytes" where
  "groups_text i [] = []"
| "groups_text i (g # gs) = (if 0 < i then [58] else []) @ show_hex g @ groups_text (Suc i) gs"

lemma groups_text_pos: "0 < i \<Longrightarrow> groups_text i gs = concat (map (\<lambda>g. 58 # show_hex g) gs)"
  by (induction gs arbitrary: i) simp_all

lemma intersperse_groups: "intersperse [58] (map show_hex gs) = groups_text 0 gs"
proof (induction gs rule: induct_list012)
  case (3 g h gs)
  then show ?case by (simp add: groups_text_pos)
qed simp_all

definition groups_bytes :: "nat list \<Rightarrow> bytes" where
  "groups_bytes gs = concat (map (\<lambda>g. to_be16 (word_of_nat g)) gs)"

lemma length_groups_bytes [simp]: "length (groups_bytes gs) = 2 * length gs"
  by (induction gs) (simp_all add: groups_bytes_def)

text \<open>What a group list may be followed by: the end, a closing bracket, or a compression.\<close>
definition stops :: "bytes \<Rightarrow> bool" where
  "stops r \<longleftrightarrow> r = [] \<or> hd r = 93 \<or> (\<exists>u. r = 58 # 58 # u)"

lemma read_groups_stops:
  assumes "stops r"
  shows "read_groups limit i r = ([], False, r)"
proof -
  have r: "r = [] \<or> hd r \<in> {58, 93}" using assms by (auto simp: stops_def)
  have "read_ipv4 r = None" "read_number 16 16 (Some 4) True r = None"
    using no_dot_no_ipv4 [of "[]" r] no_hex_group [of r] r by auto
  moreover have "given_char 58 r = None \<or>
    given_char 58 r = Some ((), tl r) \<and> read_ipv4 (tl r) = None \<and> read_number 16 16 (Some 4) True (tl r) = None"
    using assms no_dot_no_ipv4 [of "[]" "tl r"] no_hex_group [of "tl r"]
    by (cases r) (auto simp: given_char_def stops_def)
  ultimately show ?thesis by (subst read_groups.simps) (auto simp: separated_def)
qed

lemma read_groups_text:
  assumes "\<forall>g\<in>set gs. g < 65536" and "i + length gs \<le> limit" and "stops r"
  shows "read_groups limit i (groups_text i gs @ r) = (groups_bytes gs, False, r)"
  using assms(1,2)
proof (induction gs arbitrary: i)
  case Nil
  show ?case using read_groups_stops [OF assms(3)] by (simp add: groups_bytes_def)
next
  case (Cons g gs)
  define t where "t = groups_text (Suc i) gs @ r"
  have t: "t = [] \<or> hd t \<in> {58, 93}"
    using assms(3) by (cases gs) (auto simp: t_def stops_def)
  have e: "groups_text i (g # gs) @ r = (if 0 < i then [58] else []) @ show_hex g @ t" by (simp add: t_def)
  have "separated 58 i read_ipv4 (groups_text i (g # gs) @ r) = None"
    unfolding e using group_no_ipv4 [OF t, of g] by (simp add: separated_def given_char_def)
  moreover have "separated 58 i (read_number 16 16 (Some 4) True) (groups_text i (g # gs) @ r) = Some (g, t)"
    unfolding e using read_hex_group [OF _ t, of g] Cons.prems by (simp add: separated_def given_char_def)
  moreover have "read_groups limit (Suc i) t = (groups_bytes gs, False, r)"
    unfolding t_def using Cons.prems by (intro Cons.IH) simp_all
  ultimately show ?case
    using Cons.prems by (subst read_groups.simps) (simp add: groups_bytes_def)
qed

section \<open>The segments\<close>

lemma eight: "[0..<8] = [0, 1, 2, 3, 4, 5, 6, 7 :: nat]"
  by (simp add: upt_rec)

lemma to_be16_be16: "to_be16 (be16 a b) = [a, b]"
proof -
  have "\<not> bit b (8 + n)" for n using bit_imp_le_length [of b "8 + n"] by auto
  then show ?thesis unfolding to_be16_def be16_def by (auto intro!: bit_word_eqI simp: bit_simps)
qed

lemma to_be16_pair: "to_be16 (256 * ucast a + ucast b) = [a, b]"
proof -
  have "be16 a b = word_of_nat (unat (be16 a b))" by simp
  then have "be16 a b = 256 * ucast a + ucast b" unfolding unat_be16 by simp
  then show ?thesis by (metis to_be16_be16)
qed

lemma segments_bytes:
  assumes "length b = 16"
  shows "groups_bytes (segments b) = b" "\<forall>g\<in>set (segments b). g < 65536" "length (segments b) = 8"
proof -
  obtain b0 b1 b2 b3 b4 b5 b6 b7 b8 b9 ba bb bc bd be bf
    where b: "b = [b0, b1, b2, b3, b4, b5, b6, b7, b8, b9, ba, bb, bc, bd, be, bf]"
    using assms by (auto simp: length_Suc_conv numeral_eq_Suc)
  show "groups_bytes (segments b) = b" by (simp add: b segments_def eight groups_bytes_def to_be16_pair)
  have "256 * unat x + unat y < 65536" for x y :: u8 using unat_u8 [of x] unat_u8 [of y] by linarith
  then show "\<forall>g\<in>set (segments b). g < 65536" by (simp add: b segments_def eight)
  show "length (segments b) = 8" by (simp add: segments_def)
qed

lemma groups_bytes_append: "groups_bytes (a @ b) = groups_bytes a @ groups_bytes b"
  by (simp add: groups_bytes_def)

lemma groups_bytes_zeros: "groups_bytes (replicate n 0) = replicate (2 * n) 0"
  by (induction n) (simp_all add: groups_bytes_def to_be16_def)

text \<open>The run that is compressed is one of zeros.\<close>
lemma longest_zero_run:
  "longest_zero k s = (i, n) \<Longrightarrow> k \<le> i \<and> i - k + n \<le> length s \<and> take n (drop (i - k) s) = replicate n 0"
proof (induction s arbitrary: k i n)
  case (Cons x s)
  obtain j m where jm: "longest_zero (Suc k) s = (j, m)" by fastforce
  have z: "zero_run t \<le> length t" "take (zero_run t) t = replicate (zero_run t) 0" for t :: "nat list"
    by (auto simp: zero_run_def length_takeWhile_le takeWhile_eq_take [symmetric] intro!: replicate_eqI dest: set_takeWhileD)
  show ?case
  proof (cases "m \<le> zero_run (x # s)")
    case True
    then show ?thesis using Cons.prems jm z [of "x # s"] by (auto simp: Let_def)
  next
    case False
    then have "i = j" "n = m" using Cons.prems jm by (auto simp: Let_def)
    moreover from Cons.IH [OF jm] have "Suc k \<le> j" "j - Suc k + m \<le> length s"
      "take m (drop (j - Suc k) s) = replicate m 0" by auto
    moreover from \<open>Suc k \<le> j\<close> have "j - k = Suc (j - Suc k)" by simp
    ultimately show ?thesis by simp
  qed
qed simp

section \<open>The round trip\<close>

lemma read_compressed:
  assumes "\<forall>g\<in>set front. g < 65536" and "\<forall>g\<in>set back. g < 65536" and "length front + n + length back = 8" and "1 < n"
    and "r = [] \<or> hd r = 93"
  shows "read_ipv6 (groups_text 0 front @ 58 # 58 # groups_text 0 back @ r) =
    Some (groups_bytes (front @ replicate n 0 @ back), r)"
proof -
  have f: "read_groups 8 0 (groups_text 0 front @ 58 # 58 # groups_text 0 back @ r) =
      (groups_bytes front, False, 58 # 58 # groups_text 0 back @ r)"
    using assms by (intro read_groups_text) (auto simp: stops_def)
  have "read_groups (8 - (length front + 1)) 0 (groups_text 0 back @ r) = (groups_bytes back, False, r)"
    using assms by (intro read_groups_text) (auto simp: stops_def)
  then show ?thesis
    using assms(3,4) by (simp add: read_ipv6_def f given_char_def groups_bytes_append groups_bytes_zeros)
qed

lemma read_plain:
  assumes "\<forall>g\<in>set gs. g < 65536" and "length gs = 8" and "r = [] \<or> hd r = 93"
  shows "read_ipv6 (groups_text 0 gs @ r) = Some (groups_bytes gs, r)"
  using read_groups_text [of gs 0 8 r] assms by (auto simp: read_ipv6_def stops_def)

lemma read_mapped:
  assumes "length b = 4" and "r = [] \<or> hd r = 93"
  shows "read_ipv6 (ascii ''::ffff:'' @ show_ip (V4 b) @ r) = Some (replicate 10 0 @ [0xff, 0xff] @ b, r)"
proof -
  have a: "ascii ''::ffff:'' @ show_ip (V4 b) @ r = 58 # 58 # show_hex 65535 @ 58 # show_ip (V4 b) @ r"
    by (simp add: ascii_def show_radix.simps digit_def)
  have "read_groups 8 0 (58 # 58 # t) = ([], False, 58 # 58 # t)" for t
    by (rule read_groups_stops) (simp add: stops_def)
  moreover have "read_groups 7 0 (show_hex 65535 @ 58 # show_ip (V4 b) @ r) = ([0xff, 0xff] @ b, True, r)"
  proof -
    have "read_ipv4 (show_hex 65535 @ 58 # show_ip (V4 b) @ r) = None" by (rule group_no_ipv4) simp
    moreover have "read_number 16 16 (Some 4) True (show_hex 65535 @ 58 # show_ip (V4 b) @ r) =
        Some (65535, 58 # show_ip (V4 b) @ r)"
      by (rule read_hex_group) simp_all
    moreover have "read_ipv4 (show_ip (V4 b) @ r) = Some (b, r)"
      using assms(2) by (intro read_ipv4_show [OF assms(1)]) (auto simp: colon_no_digit)
    then have "read_groups 7 1 (58 # show_ip (V4 b) @ r) = (b, True, r)"
      by (subst read_groups.simps) (simp add: separated_def given_char_def)
    ultimately show ?thesis by (subst read_groups.simps) (simp add: separated_def to_be16_def)
  qed
  ultimately show ?thesis
    unfolding a using assms by (simp add: read_ipv6_def given_char_def)
qed

text \<open>Every address reads back from its text, alone or in brackets.\<close>
theorem read_ipv6_show:
  assumes "length b = 16" and "r = [] \<or> hd r = 93"
  shows "read_ipv6 (show_ipv6 b @ r) = Some (b, r)"
proof -
  define s where "s = segments b"
  have s: "groups_bytes s = b" "\<forall>g\<in>set s. g < 65536" "length s = 8"
    using segments_bytes [OF assms(1)] by (simp_all add: s_def)
  show ?thesis
  proof (cases "take 10 b = replicate 10 0 \<and> take 2 (drop 10 b) = [0xff, 0xff]")
    case True
    have l: "length (drop 12 b) = 4" using assms(1) by simp
    have "\<exists>c d e f. v = [c, d, e, f]" if "length v = 4" for v :: bytes
      using that by (auto simp: length_Suc_conv numeral_eq_Suc)
    then obtain c d e f where v: "drop 12 b = [c, d, e, f]" using l by blast
    have "b = take 10 b @ take 2 (drop 10 b) @ drop 12 b" by (metis add_2_eq_Suc' append_take_drop_id drop_drop add.commute numeral_plus_numeral add_num_simps)
    then have "b = replicate 10 0 @ [0xff, 0xff] @ drop 12 b" using True by simp
    moreover have "show_ipv6 b = ascii ''::ffff:'' @ show_ip (V4 (drop 12 b))"
      using True by (simp add: show_ipv6_def show_ip_def v)
    ultimately show ?thesis using read_mapped [OF l assms(2)] by (metis append.assoc)
  next
    case False
    obtain i n where z: "longest_zero 0 s = (i, n)" by fastforce
    show ?thesis
    proof (cases "1 < n")
      case True
      have r: "i + n \<le> 8" "take n (drop i s) = replicate n 0" using longest_zero_run [OF z] s(3) by auto
      have split: "s = take i s @ replicate n 0 @ drop (i + n) s"
        using r(2) by (metis append_take_drop_id drop_drop add.commute)
      have "show_ipv6 b = groups_text 0 (take i s) @ 58 # 58 # groups_text 0 (drop (i + n) s)"
        unfolding show_ipv6_def if_not_P [OF False] using True z by (simp add: s_def [symmetric] intersperse_groups ascii_def)
      then show ?thesis
        using read_compressed [of "take i s" "drop (i + n) s" n, OF _ _ _ _ assms(2)] r(1) s True split
        by (auto dest: in_set_takeD in_set_dropD)
    next
      case no: False
      then have "show_ipv6 b = groups_text 0 s"
        unfolding show_ipv6_def if_not_P [OF False] using z by (simp add: s_def [symmetric] intersperse_groups ascii_def)
      then show ?thesis using read_plain [OF s(2,3) assms(2)] s(1) by simp
    qed
  qed
qed

lemma show_ipv6_no_ipv4:
  assumes "length b = 16"
  shows "read_ipv4 (show_ipv6 b) = None"
proof (cases "\<exists>t. show_ipv6 b = 58 # t")
  case True
  then show ?thesis using no_dot_no_ipv4 [of "[]" "show_ipv6 b"] by auto
next
  case False
  obtain i n where z: "longest_zero 0 (segments b) = (i, n)" by fastforce
  have "\<not> (take 10 b = replicate 10 0 \<and> take 2 (drop 10 b) = [0xff, 0xff])"
    using False by (auto simp: show_ipv6_def ascii_def)
  then have e: "show_ipv6 b =
      (if 1 < n then groups_text 0 (take i (segments b)) @ 58 # 58 # groups_text 0 (drop (i + n) (segments b))
       else groups_text 0 (segments b))"
    using z by (auto simp: show_ipv6_def intersperse_groups ascii_def Let_def)
  obtain gs u where t: "show_ipv6 b = groups_text 0 gs @ u" "u = [] \<or> hd u \<in> {58, 93}"
  proof (cases "1 < n")
    case True
    then show thesis using e that [of _ "58 # 58 # groups_text 0 (drop (i + n) (segments b))"] by simp
  next
    case no: False
    then show thesis using e that [of _ "[]"] by simp
  qed
  show ?thesis
  proof (cases gs)
    case Nil
    then show ?thesis using t no_dot_no_ipv4 [of "[]" u] by simp
  next
    case (Cons g hs)
    have "groups_text 1 hs @ u = [] \<or> hd (groups_text 1 hs @ u) \<in> {58, 93}"
      using t(2) by (cases hs) auto
    then show ?thesis using group_no_ipv4 [of "groups_text 1 hs @ u" g] t(1) Cons by simp
  qed
qed

theorem parse_show_ipv6:
  assumes "length b = 16"
  shows "whole read_ipv6 (show_ipv6 b) = Some b" and "parse_ip (show_ipv6 b) = Some (V6 b)"
  using read_ipv6_show [OF assms, of "[]"] show_ipv6_no_ipv4 [OF assms]
  by (simp_all add: parse_ip_def whole_def read_ip_def)

text \<open>Every socket address reads back from its text.\<close>
definition ip_ok :: "ip_addr \<Rightarrow> bool" where
  "ip_ok a = (case a of V4 b \<Rightarrow> length b = 4 | V6 b \<Rightarrow> length b = 16)"

lemma parse_show_socket_v6:
  assumes "length b = 16" and "p < 2 ^ 16"
  shows "parse_socket_addr (show_socket_addr \<lparr>sa_ip = V6 b, sa_port = p\<rparr>) = Some \<lparr>sa_ip = V6 b, sa_port = p\<rparr>"
proof -
  have "read_ipv4 (91 # t) = None" for t by (simp add: read_ipv4_def read_number_def to_digit_def)
  then have "whole read_socket_v4 (91 # t) = None" for t by (simp add: whole_def read_socket_v4_def)
  moreover have "read_ipv6 (show_ipv6 b @ 93 # 58 # show_dec p) = Some (b, 93 # 58 # show_dec p)"
    by (rule read_ipv6_show [OF assms(1)]) simp
  moreover have "read_number 16 10 None True (show_dec p) = Some (p, [])"
    using read_number_show [of p 16 None "[]" True] assms(2) by simp
  ultimately show ?thesis
    by (simp add: parse_socket_addr_def show_socket_addr_def show_ip_def whole_def read_socket_v6_def read_port_def
        given_char_def ascii_def)
qed

theorem parse_show_socket:
  assumes "ip_ok ip" and "p < 2 ^ 16"
  shows "parse_socket_addr (show_socket_addr \<lparr>sa_ip = ip, sa_port = p\<rparr>) = Some \<lparr>sa_ip = ip, sa_port = p\<rparr>"
  using assms by (cases ip) (simp_all add: ip_ok_def parse_show_socket_v4 parse_show_socket_v6)

section \<open>What is read\<close>

lemma read_ipv4_length: "read_ipv4 s = Some (b, r) \<Longrightarrow> length b = 4"
  by (auto simp: read_ipv4_def bind_eq_Some_conv split: prod.splits)

lemma read_groups_length:
  "read_groups limit i s = (gs, v4, r) \<Longrightarrow> i \<le> limit \<Longrightarrow> length gs \<le> 2 * (limit - i) \<and> even (length gs)"
proof (induction limit i s arbitrary: gs v4 r rule: read_groups.induct)
  case (1 limit i s)
  show ?case
  proof (cases "i < limit")
    case True
    show ?thesis
    proof (cases "if i + 1 < limit then separated 58 i read_ipv4 s else None")
      case (Some p)
      then have "length (fst p) = 4" "i + 1 < limit"
        by (cases p; auto simp: separated_def read_ipv4_length bind_eq_Some_conv split: if_splits prod.splits)+
      then show ?thesis using "1.prems"(1) True Some by (subst (asm) read_groups.simps) (auto split: prod.splits)
    next
      case none: None
      show ?thesis
      proof (cases "separated 58 i (read_number 16 16 (Some 4) True) s")
        case None
        then show ?thesis using "1.prems"(1) True none by (subst (asm) read_groups.simps) auto
      next
        case (Some p)
        obtain g r1 where p: "p = (g, r1)" by fastforce
        obtain gs1 v1 r2 where rec: "read_groups limit (i + 1) r1 = (gs1, v1, r2)" by (metis surj_pair)
        have "gs = to_be16 (word_of_nat g) @ gs1"
          using "1.prems"(1) True none Some p rec by (subst (asm) read_groups.simps) auto
        moreover have "length gs1 \<le> 2 * (limit - (i + 1)) \<and> even (length gs1)"
          using "1.IH" [OF True none Some p [symmetric] rec] True by simp
        ultimately show ?thesis using True by (auto simp: to_be16_def)
      qed
    qed
  next
    case False
    then show ?thesis using "1.prems"(1) by (subst (asm) read_groups.simps) auto
  qed
qed

lemma read_ipv6_length:
  assumes "read_ipv6 s = Some (b, r)"
  shows "length b = 16"
proof -
  obtain front v4 r1 where f: "read_groups 8 0 s = (front, v4, r1)" by (metis surj_pair)
  have l: "length front \<le> 16" "even (length front)" using read_groups_length [OF f] by auto
  show ?thesis
  proof (cases "length front = 16")
    case True
    then show ?thesis using assms f by (simp add: read_ipv6_def)
  next
    case False
    then obtain r2 where "b = (case read_groups (8 - (length front div 2 + 1)) 0 r2 of
        (bk, _, _) \<Rightarrow> front @ replicate (16 - length front - length bk) 0 @ bk)"
      using assms f by (auto simp: read_ipv6_def bind_eq_Some_conv case_prod_beta Let_def split: if_splits)
    moreover obtain bk v r3 where b: "read_groups (8 - (length front div 2 + 1)) 0 r2 = (bk, v, r3)" by (metis surj_pair)
    ultimately have b: "read_groups (8 - (length front div 2 + 1)) 0 r2 = (bk, v, r3)"
      "b = front @ replicate (16 - length front - length bk) 0 @ bk" by simp_all
    have "length bk \<le> 2 * (8 - (length front div 2 + 1))" using read_groups_length [OF b(1)] by simp
    then have "length front + length bk \<le> 16" using l False by (auto elim!: evenE)
    then show ?thesis using b(2) by simp
  qed
qed

lemma parse_ip_ok: "parse_ip s = Some a \<Longrightarrow> ip_ok a"
  by (auto simp: parse_ip_def whole_def read_ip_def ip_ok_def read_ipv4_length read_ipv6_length
      split: option.splits list.splits prod.splits)

lemma read_socket_v6_ok:
  assumes "read_socket_v6 s = Some (m, r)"
  shows "ip_ok (sa_ip m)"
proof -
  obtain u s1 a s2 where "given_char 91 s = Some (u, s1)" and a: "read_ipv6 s1 = Some (a, s2)"
    using assms by (auto simp: read_socket_v6_def bind_eq_Some_conv split: prod.splits)
  then have "sa_ip m = V6 a"
    using assms by (auto simp: read_socket_v6_def bind_eq_Some_conv Let_def split: prod.splits)
  then show ?thesis using read_ipv6_length [OF a] by (simp add: ip_ok_def)
qed

lemma read_socket_v4_ok: "read_socket_v4 s = Some (m, r) \<Longrightarrow> ip_ok (sa_ip m)"
  by (auto simp: read_socket_v4_def ip_ok_def read_ipv4_length bind_eq_Some_conv split: prod.splits)

lemma parse_socket_addr_ok: "parse_socket_addr s = Some m \<Longrightarrow> ip_ok (sa_ip m)"
  by (auto simp: parse_socket_addr_def whole_def split: option.splits list.splits prod.splits
      dest: read_socket_v4_ok read_socket_v6_ok)

end
