(* ===== verification/Config.thy ===== *)
theory Config
  imports Ipv6Text "HOL-Library.List_Lexorder"
begin

text \<open>
  \<open>shim/src/config.rs\<close>: the configuration Kotlin sends (\<open>ShimConfig\<close>, its defaults), the
  checks on the hotspot overlay, the translation into the node's configuration and the
  choice of pinned servers. JSON and YAML parsing, the node's own types and defaults, keys
  and the pin file belong to other crates: they are a record of arguments, \<open>fips_lib\<close>. Of
  the node's configuration the model has the settings that the shim touches.
\<close>

section \<open>Data\<close>

record hotspot_config =
  hs_addr :: rust_string
  hs_prefix_len :: nat

record peer_entry =
  pe_npub :: rust_string
  pe_endpoint :: rust_string
  pe_transport :: rust_string

record shim_config =
  nsec :: rust_string
  peers :: "peer_entry list"
  dns_upstreams :: "rust_string list"
  enable_nostr :: bool
  nostr_discovery :: bool
  nostr_discovery_max_peers :: nat
  enable_fips_dns :: bool
  worker_threads :: nat
  forward_clearnet :: bool
  battery_saver :: bool
  enable_lan_mdns :: bool
  log_level :: "rust_string option"
  nostr_relays :: "rust_string list"
  stun_servers :: "rust_string list"
  udp_bind :: "rust_string option"
  tcp_bind :: "rust_string option"
  inbound_filter_on :: bool
  inbound_ports :: "u16 list"
  hotspot :: "hotspot_config option"
  hosts_path :: "rust_string option"
  names_pins_path :: "rust_string option"
  names_server_peers :: nat
  names_mesh_relays :: "rust_string list"
  names_allow_unverified_offline :: bool
  names_witnesses :: "rust_string list"
  names_attestation_threshold :: "nat option"
  names_dnssec :: "bool option"
  fips_yaml :: "rust_string option"

definition default_transport :: rust_string where "default_transport = ascii ''udp''"
definition default_true :: bool where "default_true = True"
definition default_worker_threads :: nat where "default_worker_threads = 1"
definition default_names_server_peers :: nat where "default_names_server_peers = 2"
definition default_nostr_discovery_max_peers :: nat where "default_nostr_discovery_max_peers = 3"
definition default_dns_upstreams :: "rust_string list" where
  "default_dns_upstreams = [ascii ''1.1.1.1:53'', ascii ''9.9.9.9:53'']"

text \<open>The configuration when Kotlin gives only the key: every \<open>serde\<close> default.\<close>
definition config_defaults :: "rust_string \<Rightarrow> shim_config" where
  "config_defaults key =
     \<lparr>nsec = key, peers = [], dns_upstreams = default_dns_upstreams, enable_nostr = False,
      nostr_discovery = False, nostr_discovery_max_peers = default_nostr_discovery_max_peers,
      enable_fips_dns = default_true, worker_threads = default_worker_threads,
      forward_clearnet = default_true, battery_saver = default_true, enable_lan_mdns = False,
      log_level = None, nostr_relays = [], stun_servers = [], udp_bind = None, tcp_bind = None,
      inbound_filter_on = default_true, inbound_ports = [], hotspot = None, hosts_path = None,
      names_pins_path = None, names_server_peers = default_names_server_peers, names_mesh_relays = [],
      names_allow_unverified_offline = False, names_witnesses = [], names_attestation_threshold = None,
      names_dnssec = None, fips_yaml = None\<rparr>"

record identity_info =
  id_nsec :: rust_string
  id_npub :: rust_string
  id_address :: rust_string

section \<open>The node's configuration\<close>

record udp_config =
  bind_addr :: "rust_string option"
  dial_prefixes :: "rust_string list option"
  share_port :: "bool option"

datatype transports = Single udp_config | Named "(rust_string \<times> udp_config) list"

text \<open>\<open>PeerConfig\<close>: the addresses as transport and endpoint.\<close>
record peer_config =
  pc_npub :: rust_string
  pc_addresses :: "(rust_string \<times> rust_string) list"
  via_nostr :: bool

record fips_config =
  node_nsec :: "rust_string option"
  tun_enabled :: bool
  control_enabled :: bool
  udp :: transports
  tcp :: "rust_string option"
  dns_enabled :: bool
  nostr_enabled :: bool
  policy_open :: bool
  open_discovery_max_pending :: nat
  open_discovery_max_peers :: nat
  lan_enabled :: bool
  exclude_addrs :: "ip_addr list"
  advert_relays :: "rust_string list"
  dm_relays :: "rust_string list"
  node_stun_servers :: "rust_string list"
  tick_interval_secs :: nat
  heartbeat_interval_secs :: nat
  link_dead_timeout_secs :: nat
  node_peers :: "peer_config list"

text \<open>A pin of the pin file, with \<open>method\<close> as in \<open>pubdom_core::Method\<close>.\<close>
datatype pin_method = Dnssec | Dns | OtherMethod

record 'n pin =
  pin_npub :: 'n
  pin_method :: pin_method
  verified_at :: nat

text \<open>What the other crates do, and the port that a probing bind finds.\<close>
record 'n fips_lib =
  l_generate :: identity_info
  l_from_secret :: "rust_string \<Rightarrow> rust_string + identity_info"
  l_new :: fips_config
  l_from_yaml :: "rust_string \<Rightarrow> rust_string + fips_config"
  l_udp_is_empty :: "transports \<Rightarrow> bool"
  l_validate :: "fips_config \<Rightarrow> rust_string option"
  l_pins :: "rust_string \<Rightarrow> 'n pin list option"
  l_parse_npub :: "rust_string \<Rightarrow> 'n option"
  l_show_npub :: "'n \<Rightarrow> rust_string"
  l_probe :: "ip_addr \<Rightarrow> rust_string + nat"

definition udp_default :: udp_config where
  "udp_default = \<lparr>bind_addr = None, dial_prefixes = None, share_port = None\<rparr>"

section \<open>Operations\<close>

definition derive_identity :: "'n fips_lib \<Rightarrow> rust_string \<Rightarrow> rust_string + identity_info" where
  "derive_identity lib secret =
     (if trim secret = [] then Inr (l_generate lib)
      else
        (case l_from_secret lib (trim secret) of
           Inl e \<Rightarrow> Inl (ascii ''invalid nsec: '' @ e)
         | Inr i \<Rightarrow> Inr i))"

text \<open>The error texts keep the part that the code words itself.\<close>
definition hotspot_binds ::
  "(ip_addr \<Rightarrow> rust_string + nat) \<Rightarrow> rust_string \<Rightarrow> hotspot_config \<Rightarrow>
   rust_string + (rust_string \<times> rust_string \<times> rust_string)" where
  "hotspot_binds probe bind_to hs =
     (case parse_ip (trim (hs_addr hs)) of
        None \<Rightarrow> Inl (ascii ''bad hotspot addr'')
      | Some addr \<Rightarrow>
          if (if is_ipv4 addr then 32 else 128) < hs_prefix_len hs
          then Inl (ascii ''bad hotspot prefix_len '' @ show_dec (hs_prefix_len hs))
          else
            (case parse_socket_addr bind_to of
               None \<Rightarrow> Inl (ascii ''bad udp_bind'')
             | Some m \<Rightarrow>
                 (case (if sa_port m \<noteq> 0 then Inr (sa_port m) else probe (sa_ip m)) of
                    Inl e \<Rightarrow> Inl (ascii ''port probe: '' @ e)
                  | Inr port \<Rightarrow>
                      Inr (show_socket_addr \<lparr>sa_ip = sa_ip m, sa_port = port\<rparr>,
                           show_socket_addr \<lparr>sa_ip = addr, sa_port = port\<rparr>,
                           show_ip addr @ ascii ''/'' @ show_dec (hs_prefix_len hs)))))"

text \<open>
  The comparison of \<open>sort_by\<close>, as an order on what it compares: more recently verified
  first, ties by the text of the key. The sort is stable, as \<open>sort_key\<close> is.
\<close>
datatype pin_rank = Rank (rank_at: nat) (rank_name: rust_string)

instantiation pin_rank :: linorder
begin

definition less_eq_pin_rank :: "pin_rank \<Rightarrow> pin_rank \<Rightarrow> bool" where
  "a \<le> b \<longleftrightarrow> rank_at b < rank_at a \<or> rank_at b = rank_at a \<and> rank_name a \<le> rank_name b"

definition less_pin_rank :: "pin_rank \<Rightarrow> pin_rank \<Rightarrow> bool" where
  "a < b \<longleftrightarrow> rank_at b < rank_at a \<or> rank_at b = rank_at a \<and> rank_name a < rank_name b"

instance
  by standard (auto simp: less_eq_pin_rank_def less_pin_rank_def intro: pin_rank.expand)

end

definition pin_rank_of :: "('n \<Rightarrow> rust_string) \<Rightarrow> 'n pin \<Rightarrow> pin_rank" where
  "pin_rank_of show_npub p = Rank (verified_at p) (show_npub (pin_npub p))"

lemma pin_rank_recent: "pin_rank_of f p \<le> pin_rank_of f q \<Longrightarrow> verified_at q \<le> verified_at p"
  by (auto simp: pin_rank_of_def less_eq_pin_rank_def)

text \<open>The choosing loop, up to \<open>limit\<close>.\<close>
fun choose_servers :: "nat \<Rightarrow> 'n list \<Rightarrow> 'n pin list \<Rightarrow> 'n list \<Rightarrow> 'n list" where
  "choose_servers limit known [] out = out"
| "choose_servers limit known (p # ps) out =
     (let out = (if pin_npub p \<notin> set known \<and> pin_npub p \<notin> set out then out @ [pin_npub p] else out)
      in if length out = limit then out else choose_servers limit known ps out)"

definition pinned_servers ::
  "'n fips_lib \<Rightarrow> rust_string \<Rightarrow> nat \<Rightarrow> rust_string \<Rightarrow> rust_string list \<Rightarrow> rust_string list" where
  "pinned_servers lib path limit own configured =
     (if limit = 0 then []
      else
        (case l_pins lib path of
           None \<Rightarrow> []
         | Some pins \<Rightarrow>
             (let pins = filter (\<lambda>p. pin_method p = Dnssec \<or> pin_method p = Dns) pins;
                  pins = sort_key (pin_rank_of (l_show_npub lib)) pins;
                  known = List.map_filter (l_parse_npub lib) (configured @ [own])
              in map (l_show_npub lib) (choose_servers limit known pins []))))"

definition upstream_addrs :: "shim_config \<Rightarrow> socket_addr list" where
  "upstream_addrs c = List.map_filter parse_socket_addr (dns_upstreams c)"

definition nonblank :: "rust_string option \<Rightarrow> rust_string option" where
  "nonblank v = (case v of Some s \<Rightarrow> if trim s = [] then None else Some s | None \<Rightarrow> None)"

text \<open>The configuration from a whole \<open>fips.yaml\<close>, with the Android settings forced on it.\<close>
definition from_fips_yaml :: "'n fips_lib \<Rightarrow> identity_info \<Rightarrow> rust_string \<Rightarrow> rust_string + fips_config" where
  "from_fips_yaml lib identity yaml =
     (case l_from_yaml lib yaml of
        Inl e \<Rightarrow> Inl (ascii ''fips.yaml parse: '' @ e)
      | Inr config \<Rightarrow>
          (let config = config\<lparr>node_nsec := Some (id_nsec identity), tun_enabled := True, control_enabled := False\<rparr>;
               config = (if l_udp_is_empty lib (udp config)
                         then config\<lparr>udp := Single (udp_default\<lparr>bind_addr := Some (ascii ''0.0.0.0:0'')\<rparr>)\<rparr>
                         else config)
           in case l_validate lib config of
                Some e \<Rightarrow> Inl (ascii ''config validate: '' @ e)
              | None \<Rightarrow> Inr config))"

definition udp_transports :: "'n fips_lib \<Rightarrow> shim_config \<Rightarrow> rust_string + transports" where
  "udp_transports lib c =
     (let bind_to = (case nonblank (udp_bind c) of Some s \<Rightarrow> s | None \<Rightarrow> ascii ''0.0.0.0:0'')
      in case hotspot c of
           None \<Rightarrow> Inr (Single (udp_default\<lparr>bind_addr := Some bind_to\<rparr>))
         | Some hs \<Rightarrow>
             (case hotspot_binds (l_probe lib) bind_to hs of
                Inl e \<Rightarrow> Inl (ascii ''hotspot config: '' @ e)
              | Inr (main_bind, hotspot_bind, dial_prefix) \<Rightarrow>
                  Inr (Named
                    [(ascii ''main'', udp_default\<lparr>bind_addr := Some main_bind, share_port := Some True\<rparr>),
                     (ascii ''hotspot'',
                        udp_default\<lparr>bind_addr := Some hotspot_bind, dial_prefixes := Some [dial_prefix],
                                    share_port := Some True\<rparr>)])))"

definition discovery :: "shim_config \<Rightarrow> fips_config \<Rightarrow> fips_config" where
  "discovery c config =
     (if enable_nostr c \<and> nostr_discovery c then
        (let cap = (if nostr_discovery_max_peers c = 0 then default_nostr_discovery_max_peers
                    else nostr_discovery_max_peers c)
         in config\<lparr>policy_open := True, open_discovery_max_pending := cap, open_discovery_max_peers := cap\<rparr>)
      else config)"

definition lan_discovery :: "shim_config \<Rightarrow> identity_info \<Rightarrow> fips_config \<Rightarrow> rust_string + fips_config" where
  "lan_discovery c identity config =
     (let lan_mdns = (enable_lan_mdns c \<or> hotspot c \<noteq> None);
          config = config\<lparr>lan_enabled := lan_mdns\<rparr>
      in if lan_mdns then
           (case parse_ip (id_address identity) of
              None \<Rightarrow> Inl (ascii ''own address unparseable'')
            | Some own \<Rightarrow> Inr (config\<lparr>exclude_addrs := [own, V4 [10, 111, 222, 1]]\<rparr>))
         else Inr config)"

definition relays_and_timers :: "shim_config \<Rightarrow> fips_config \<Rightarrow> fips_config" where
  "relays_and_timers c config =
     (let config = (if nostr_relays c \<noteq> [] then config\<lparr>advert_relays := nostr_relays c, dm_relays := nostr_relays c\<rparr> else config);
          config = (if stun_servers c \<noteq> [] then config\<lparr>node_stun_servers := stun_servers c\<rparr> else config)
      in if battery_saver c
         then config\<lparr>tick_interval_secs := 5, heartbeat_interval_secs := 20, link_dead_timeout_secs := 60\<rparr>
         else config)"

definition static_peers :: "shim_config \<Rightarrow> peer_config list" where
  "static_peers c =
     map (\<lambda>p. \<lparr>pc_npub = pe_npub p, pc_addresses = [(pe_transport p, pe_endpoint p)], via_nostr = enable_nostr c\<rparr>) (peers c)"

definition server_peers :: "'n fips_lib \<Rightarrow> shim_config \<Rightarrow> identity_info \<Rightarrow> peer_config list \<Rightarrow> peer_config list" where
  "server_peers lib c identity configured =
     (if enable_nostr c then
        (case names_pins_path c of
           Some pins \<Rightarrow>
             map (\<lambda>n. \<lparr>pc_npub = n, pc_addresses = [], via_nostr = True\<rparr>)
               (pinned_servers lib pins (names_server_peers c) (id_npub identity) (map pc_npub configured))
         | None \<Rightarrow> [])
      else [])"

definition to_fips_config :: "'n fips_lib \<Rightarrow> shim_config \<Rightarrow> rust_string + fips_config" where
  "to_fips_config lib c =
     (case derive_identity lib (nsec c) of
        Inl e \<Rightarrow> Inl e
      | Inr identity \<Rightarrow>
          (case nonblank (fips_yaml c) of
             Some yaml \<Rightarrow> from_fips_yaml lib identity (trim yaml)
           | None \<Rightarrow>
               (case udp_transports lib c of
                  Inl e \<Rightarrow> Inl e
                | Inr transports \<Rightarrow>
                    (let config = (l_new lib)\<lparr>node_nsec := Some (id_nsec identity), udp := transports\<rparr>;
                         config = (case nonblank (tcp_bind c) of Some t \<Rightarrow> config\<lparr>tcp := Some t\<rparr> | None \<Rightarrow> config);
                         config = config\<lparr>tun_enabled := True, dns_enabled := enable_fips_dns c,
                                         control_enabled := False, nostr_enabled := enable_nostr c\<rparr>
                     in case lan_discovery c identity (discovery c config) of
                          Inl e \<Rightarrow> Inl e
                        | Inr config \<Rightarrow>
                            (let config = relays_and_timers c config;
                                 config = config\<lparr>node_peers := node_peers config @ static_peers c\<rparr>;
                                 config = config\<lparr>node_peers := node_peers config @ server_peers lib c identity (node_peers config)\<rparr>
                             in case l_validate lib config of
                                  Some e \<Rightarrow> Inl (ascii ''config validate: '' @ e)
                                | None \<Rightarrow> Inr config)))))"

section \<open>The pinned servers\<close>

lemma choose_servers_spec:
  fixes known :: "'n list" and rank :: "'n pin \<Rightarrow> 'r::linorder"
  assumes "sorted (map rank ps)" and "distinct out" and "length out < limit"
  defines "res \<equiv> choose_servers limit known ps out"
  shows "distinct res \<and> length res \<le> limit \<and> set out \<subseteq> set res \<and>
    (\<forall>n\<in>set res - set out. n \<notin> set known \<and> n \<in> pin_npub ` set ps) \<and>
    (\<forall>p\<in>set ps. pin_npub p \<notin> set known \<and> pin_npub p \<notin> set res \<longrightarrow>
       length res = limit \<and> (\<forall>n\<in>set res - set out. \<exists>q\<in>set ps. pin_npub q = n \<and> rank q \<le> rank p))"
  unfolding res_def using assms(1-3)
proof (induction ps arbitrary: out)
  case (Cons p ps)
  define out1 where "out1 = (if pin_npub p \<notin> set known \<and> pin_npub p \<notin> set out then out @ [pin_npub p] else out)"
  have out1: "distinct out1" "length out1 \<le> limit" "set out \<subseteq> set out1" "set out1 \<subseteq> insert (pin_npub p) (set out)"
    "pin_npub p \<in> set out1 \<or> pin_npub p \<in> set known" "pin_npub p \<in> set out1 - set out \<Longrightarrow> pin_npub p \<notin> set known"
    using Cons.prems by (auto simp: out1_def)
  have le: "\<forall>q\<in>set ps. rank p \<le> rank q" using Cons.prems(1) by simp
  show ?case
  proof (cases "length out1 = limit")
    case True
    then have "choose_servers limit known (p # ps) out = out1" by (simp add: out1_def Let_def)
    then show ?thesis using True out1 le by auto
  next
    case False
    have "choose_servers limit known (p # ps) out = choose_servers limit known ps out1"
      using False by (simp add: out1_def Let_def)
    moreover have "length out1 < limit" using False out1(2) by simp
    moreover define r where "r = choose_servers limit known ps out1"
    ultimately have r: "choose_servers limit known (p # ps) out = r" "distinct r" "length r \<le> limit"
      "set out1 \<subseteq> set r" "\<forall>n\<in>set r - set out1. n \<notin> set known \<and> n \<in> pin_npub ` set ps"
      "\<forall>p\<in>set ps. pin_npub p \<notin> set known \<and> pin_npub p \<notin> set r \<longrightarrow>
         length r = limit \<and> (\<forall>n\<in>set r - set out1. \<exists>q\<in>set ps. pin_npub q = n \<and> rank q \<le> rank p)"
      using Cons.IH [of out1] Cons.prems(1) out1(1) by simp_all
    have "n \<notin> set known \<and> n \<in> pin_npub ` set (p # ps)" if "n \<in> set r - set out" for n
      using that r(5) out1(4,6) by (cases "n \<in> set out1") auto
    moreover have "length r = limit \<and> (\<forall>n\<in>set r - set out. \<exists>q'\<in>set (p # ps). pin_npub q' = n \<and> rank q' \<le> rank q)"
      if q: "q \<in> set (p # ps)" "pin_npub q \<notin> set known \<and> pin_npub q \<notin> set r" for q
    proof -
      have "q \<in> set ps" using q out1(5) r(4) by auto
      then have "length r = limit" "\<forall>n\<in>set r - set out1. \<exists>q'\<in>set ps. pin_npub q' = n \<and> rank q' \<le> rank q"
        "rank p \<le> rank q"
        using r(6) q(2) le by blast+
      moreover have "n = pin_npub p" if "n \<in> set out1" "n \<notin> set out" for n using that out1(4) by auto
      ultimately show ?thesis by (metis Diff_iff list.set_intros(1,2))
    qed
    ultimately show ?thesis
      unfolding r(1) using r(2,3) subset_trans [OF out1(3) r(4)]
      by (intro conjI ballI impI) (blast | assumption)+
  qed
qed simp

definition eligible :: "'n pin \<Rightarrow> bool" where
  "eligible p \<longleftrightarrow> pin_method p = Dnssec \<or> pin_method p = Dns"

text \<open>
  C31. The servers the node keeps a direct link to: at most the configured number, distinct,
  never this node or a configured peer, each the server of a pin verified by DNSSEC or by
  several resolvers (a pin a single resolver vouched for never makes a permanent peer); and
  if one such server is left out, the list is full of servers that come before it: verified
  more recently, or at the same time and with a smaller key.
\<close>
theorem pinned_servers_chosen:
  assumes "l_pins lib path = Some pins" and "0 < limit"
  shows "\<exists>ns. pinned_servers lib path limit own configured = map (l_show_npub lib) ns \<and>
    distinct ns \<and> length ns \<le> limit \<and>
    (\<forall>n\<in>set ns. n \<notin> Some -` (l_parse_npub lib ` set (own # configured)) \<and>
       (\<exists>p\<in>set pins. pin_npub p = n \<and> eligible p)) \<and>
    (\<forall>p\<in>set pins. eligible p \<and> Some (pin_npub p) \<notin> l_parse_npub lib ` set (own # configured) \<and> pin_npub p \<notin> set ns \<longrightarrow>
       length ns = limit \<and> (\<forall>n\<in>set ns. \<exists>q\<in>set pins. eligible q \<and> pin_npub q = n \<and> pin_rank_of (l_show_npub lib) q \<le> pin_rank_of (l_show_npub lib) p))"
proof -
  define ps where "ps = sort_key (pin_rank_of (l_show_npub lib)) (filter eligible pins)"
  define known where "known = List.map_filter (l_parse_npub lib) (configured @ [own])"
  define ns where "ns = choose_servers limit known ps []"
  have known: "n \<in> set known \<longleftrightarrow> Some n \<in> l_parse_npub lib ` set (own # configured)" for n
    unfolding known_def by (auto simp: map_filter_def image_iff) (metis option.sel)+
  have ps: "p \<in> set ps \<longleftrightarrow> p \<in> set pins \<and> eligible p" for p by (auto simp: ps_def)
  have "distinct ns \<and> length ns \<le> limit \<and> set [] \<subseteq> set ns \<and>
    (\<forall>n\<in>set ns - set []. n \<notin> set known \<and> n \<in> pin_npub ` set ps) \<and>
    (\<forall>p\<in>set ps. pin_npub p \<notin> set known \<and> pin_npub p \<notin> set ns \<longrightarrow>
       length ns = limit \<and> (\<forall>n\<in>set ns - set []. \<exists>q\<in>set ps. pin_npub q = n \<and> pin_rank_of (l_show_npub lib) q \<le> pin_rank_of (l_show_npub lib) p))"
    unfolding ns_def by (rule choose_servers_spec) (use assms(2) in \<open>simp_all add: ps_def\<close>)
  then have spec: "distinct ns" "length ns \<le> limit" "\<forall>n\<in>set ns. n \<notin> set known \<and> n \<in> pin_npub ` set ps"
    "\<forall>p\<in>set ps. pin_npub p \<notin> set known \<and> pin_npub p \<notin> set ns \<longrightarrow>
       length ns = limit \<and> (\<forall>n\<in>set ns. \<exists>q\<in>set ps. pin_npub q = n \<and> pin_rank_of (l_show_npub lib) q \<le> pin_rank_of (l_show_npub lib) p)"
    by simp_all
  have "pinned_servers lib path limit own configured = map (l_show_npub lib) ns"
    using assms by (simp add: pinned_servers_def ns_def ps_def known_def eligible_def [abs_def])
  moreover have "\<forall>n\<in>set ns. n \<notin> Some -` (l_parse_npub lib ` set (own # configured)) \<and> (\<exists>p\<in>set pins. pin_npub p = n \<and> eligible p)"
    using spec(3) known ps by (fastforce simp: vimage_def)
  moreover have "\<forall>p\<in>set pins. eligible p \<and> Some (pin_npub p) \<notin> l_parse_npub lib ` set (own # configured) \<and> pin_npub p \<notin> set ns \<longrightarrow>
       length ns = limit \<and> (\<forall>n\<in>set ns. \<exists>q\<in>set pins. eligible q \<and> pin_npub q = n \<and> pin_rank_of (l_show_npub lib) q \<le> pin_rank_of (l_show_npub lib) p)"
    using spec(4) known ps by blast
  ultimately show ?thesis using spec(1,2) by blast
qed

lemma choose_servers_length:
  "length out < limit \<Longrightarrow> length (choose_servers limit known ps out) \<le> limit"
  by (induction ps arbitrary: out) (auto simp: Let_def)

lemma pinned_servers_length: "length (pinned_servers lib path limit own configured) \<le> limit"
  by (auto simp: pinned_servers_def Let_def choose_servers_length split: option.split)

section \<open>The hotspot overlay\<close>

text \<open>
  C32. Both transports of the hotspot overlay are bound to one and the same port, so that the
  single advertised port is valid on both networks: the configured one, or the one the
  probe found when none is configured. The main transport keeps its host, the other is on
  the hotspot address, and both binds read back as exactly these addresses, IPv4 or IPv6. The dial scope
  is that address with a prefix length its family allows.
\<close>
theorem hotspot_shares_port:
  assumes "hotspot_binds probe bind_to hs = Inr (main_bind, hotspot_bind, dial_prefix)"
  shows "\<exists>m addr port. parse_socket_addr bind_to = Some m \<and> parse_ip (trim (hs_addr hs)) = Some addr \<and>
    main_bind = show_socket_addr \<lparr>sa_ip = sa_ip m, sa_port = port\<rparr> \<and>
    hotspot_bind = show_socket_addr \<lparr>sa_ip = addr, sa_port = port\<rparr> \<and>
    (if sa_port m = 0 then probe (sa_ip m) = Inr port else port = sa_port m) \<and>
    dial_prefix = show_ip addr @ ascii ''/'' @ show_dec (hs_prefix_len hs) \<and>
    hs_prefix_len hs \<le> (case addr of V4 _ \<Rightarrow> 32 | V6 _ \<Rightarrow> 128) \<and>
    (port < 2 ^ 16 \<longrightarrow>
       parse_socket_addr hotspot_bind = Some \<lparr>sa_ip = addr, sa_port = port\<rparr> \<and>
       parse_socket_addr main_bind = Some \<lparr>sa_ip = sa_ip m, sa_port = port\<rparr>)"
proof -
  obtain addr where addr: "parse_ip (trim (hs_addr hs)) = Some addr"
    "hs_prefix_len hs \<le> (if is_ipv4 addr then 32 else 128)"
    using assms by (auto simp: hotspot_binds_def not_less split: option.splits if_splits)
  moreover obtain m where m: "parse_socket_addr bind_to = Some m"
    using assms addr by (auto simp: hotspot_binds_def split: option.splits)
  moreover obtain port where "(if sa_port m \<noteq> 0 then Inr (sa_port m) else probe (sa_ip m)) = Inr port"
    "main_bind = show_socket_addr \<lparr>sa_ip = sa_ip m, sa_port = port\<rparr>"
    "hotspot_bind = show_socket_addr \<lparr>sa_ip = addr, sa_port = port\<rparr>"
    "dial_prefix = show_ip addr @ ascii ''/'' @ show_dec (hs_prefix_len hs)"
    using assms addr m by (auto simp: hotspot_binds_def not_less [symmetric] split: sum.splits)
  ultimately show ?thesis
    by (intro exI [of _ m] exI [of _ addr] exI [of _ port])
      (auto simp: is_ipv4_def parse_show_socket [OF parse_ip_ok [OF addr(1)]] parse_show_socket [OF parse_socket_addr_ok [OF m]]
        split: ip_addr.splits if_splits)
qed

section \<open>The node's settings\<close>

lemma discovery_keeps:
  "tun_enabled (discovery c g) = tun_enabled g" "control_enabled (discovery c g) = control_enabled g"
  "node_nsec (discovery c g) = node_nsec g" "node_peers (discovery c g) = node_peers g"
  "nostr_enabled (discovery c g) = nostr_enabled g"
  by (simp_all add: discovery_def Let_def)

lemma lan_discovery_keeps:
  "lan_discovery c i g = Inr g' \<Longrightarrow>
   tun_enabled g' = tun_enabled g \<and> control_enabled g' = control_enabled g \<and> node_nsec g' = node_nsec g \<and>
   node_peers g' = node_peers g \<and> nostr_enabled g' = nostr_enabled g \<and> policy_open g' = policy_open g \<and>
   open_discovery_max_pending g' = open_discovery_max_pending g \<and>
   open_discovery_max_peers g' = open_discovery_max_peers g \<and>
   (hotspot c \<noteq> None \<longrightarrow> lan_enabled g') \<and>
   (lan_enabled g' \<longrightarrow> (\<exists>own. parse_ip (id_address i) = Some own \<and> own \<in> set (exclude_addrs g')))"
  by (auto simp: lan_discovery_def Let_def split: if_splits option.splits)

lemma relays_and_timers_keeps:
  "tun_enabled (relays_and_timers c g) = tun_enabled g" "control_enabled (relays_and_timers c g) = control_enabled g"
  "node_nsec (relays_and_timers c g) = node_nsec g" "node_peers (relays_and_timers c g) = node_peers g"
  "nostr_enabled (relays_and_timers c g) = nostr_enabled g" "policy_open (relays_and_timers c g) = policy_open g"
  "open_discovery_max_pending (relays_and_timers c g) = open_discovery_max_pending g"
  "open_discovery_max_peers (relays_and_timers c g) = open_discovery_max_peers g"
  "lan_enabled (relays_and_timers c g) = lan_enabled g" "exclude_addrs (relays_and_timers c g) = exclude_addrs g"
  "battery_saver c \<Longrightarrow> heartbeat_interval_secs (relays_and_timers c g) = 20 \<and>
     link_dead_timeout_secs (relays_and_timers c g) = 60"
  by (simp_all add: relays_and_timers_def Let_def)

lemmas settings_keep = discovery_keeps relays_and_timers_keeps

text \<open>What the structured fields make of the configuration, in one step.\<close>
lemma structured_config:
  assumes "to_fips_config lib c = Inr config" and "nonblank (fips_yaml c) = None"
  obtains i transports g where "derive_identity lib (nsec c) = Inr i" and "udp_transports lib c = Inr transports"
    and "lan_discovery c i (discovery c
      ((case nonblank (tcp_bind c) of
          Some t \<Rightarrow> ((l_new lib)\<lparr>node_nsec := Some (id_nsec i), udp := transports\<rparr>)\<lparr>tcp := Some t\<rparr>
        | None \<Rightarrow> (l_new lib)\<lparr>node_nsec := Some (id_nsec i), udp := transports\<rparr>)
       \<lparr>tun_enabled := True, dns_enabled := enable_fips_dns c, control_enabled := False, nostr_enabled := enable_nostr c\<rparr>)) = Inr g"
    and "config = (relays_and_timers c g)\<lparr>node_peers := node_peers g @ static_peers c @
      server_peers lib c i (node_peers g @ static_peers c)\<rparr>"
    and "l_validate lib config = None"
  using assms
  by (auto simp: to_fips_config_def Let_def relays_and_timers_keeps split: sum.splits option.splits)

text \<open>
  However it is configured, from the structured fields or from a whole \<open>fips.yaml\<close>, a
  node that starts has the app's own TUN, no control socket and the identity of the
  app's key store, whatever the YAML said, and passed the node's validation.
\<close>
theorem android_settings_forced:
  assumes "to_fips_config lib c = Inr config"
  shows "tun_enabled config \<and> \<not> control_enabled config \<and> l_validate lib config = None \<and>
    (\<exists>i. derive_identity lib (nsec c) = Inr i \<and> node_nsec config = Some (id_nsec i))"
proof (cases "nonblank (fips_yaml c)")
  case None
  from assms None show ?thesis
    by (rule structured_config) (auto simp: settings_keep dest!: lan_discovery_keeps split: option.splits)
next
  case (Some yaml)
  then show ?thesis
    using assms by (auto simp: to_fips_config_def from_fips_yaml_def Let_def split: sum.splits option.splits if_splits)
qed


section \<open>Witnesses\<close>

text \<open>A library that takes every key, reads the pins of three servers and probes port 40000.\<close>
definition some_lib :: "rust_string fips_lib" where
  "some_lib =
     \<lparr>l_generate = \<lparr>id_nsec = ascii ''nsec'', id_npub = ascii ''npub0'', id_address = ascii ''10.0.0.1''\<rparr>,
      l_from_secret = (\<lambda>s. Inr \<lparr>id_nsec = s, id_npub = ascii ''npub0'', id_address = ascii ''10.0.0.1''\<rparr>),
      l_new = \<lparr>node_nsec = None, tun_enabled = False, control_enabled = True, udp = Named [], tcp = None,
        dns_enabled = False, nostr_enabled = False, policy_open = False, open_discovery_max_pending = 64,
        open_discovery_max_peers = 0, lan_enabled = False, exclude_addrs = [], advert_relays = [], dm_relays = [],
        node_stun_servers = [], tick_interval_secs = 1, heartbeat_interval_secs = 10,
        link_dead_timeout_secs = 30, node_peers = []\<rparr>,
      l_from_yaml = (\<lambda>_. Inl []), l_udp_is_empty = (\<lambda>t. t = Named []), l_validate = (\<lambda>_. None),
      l_pins = (\<lambda>_. Some [\<lparr>pin_npub = ascii ''npub1'', pin_method = Dnssec, verified_at = 5\<rparr>,
        \<lparr>pin_npub = ascii ''npub2'', pin_method = OtherMethod, verified_at = 9\<rparr>,
        \<lparr>pin_npub = ascii ''npub3'', pin_method = Dns, verified_at = 7\<rparr>]),
      l_parse_npub = Some, l_show_npub = (\<lambda>n. n), l_probe = (\<lambda>_. Inr 40000)\<rparr>"

theorem pinned_servers_chosen_witness:
  "\<exists>ns. pinned_servers some_lib [] 1 (ascii ''npub0'') [] = ns \<and> distinct ns \<and> length ns \<le> 1 \<and>
     pinned_servers some_lib [] 1 (ascii ''npub0'') [] = [ascii ''npub3'']"
proof -
  have "pinned_servers some_lib [] 1 (ascii ''npub0'') [] = [ascii ''npub3'']" by code_simp
  then show ?thesis
    using pinned_servers_chosen [of some_lib "[]" _ 1 "ascii ''npub0''" "[]"] by (auto simp: some_lib_def)
qed

definition some_hotspot :: hotspot_config where
  "some_hotspot = \<lparr>hs_addr = show_ip (V4 [192, 168, 49, 23]), hs_prefix_len = 24\<rparr>"

lemma show_some_ip: "show_ip (V4 [192, 168, 49, 23]) = ascii ''192.168.49.23''"
  by (simp add: show_ip_def show_radix.simps digit_def ascii_def)

lemma trim_some_ip: "trim (show_ip (V4 [192, 168, 49, 23])) = show_ip (V4 [192, 168, 49, 23])"
  unfolding show_some_ip by code_simp

lemma parse_some_ip: "parse_ip (show_ip (V4 [192, 168, 49, 23])) = Some (V4 [192, 168, 49, 23])"
  using read_ipv4_show [of "[192, 168, 49, 23]" "[]"] by (simp add: parse_ip_def whole_def read_ip_def)

theorem hotspot_shares_port_witness:
  "\<exists>port. hotspot_binds (l_probe some_lib) (show_socket_addr \<lparr>sa_ip = V4 [0, 0, 0, 0], sa_port = 0\<rparr>) some_hotspot =
     Inr (show_socket_addr \<lparr>sa_ip = V4 [0, 0, 0, 0], sa_port = port\<rparr>,
          show_socket_addr \<lparr>sa_ip = V4 [192, 168, 49, 23], sa_port = port\<rparr>,
          show_ip (V4 [192, 168, 49, 23]) @ ascii ''/'' @ show_dec 24) \<and> port = 40000"
proof -
  let ?any = "show_socket_addr \<lparr>sa_ip = V4 [0, 0, 0, 0], sa_port = 0\<rparr>"
  have any: "parse_socket_addr ?any = Some \<lparr>sa_ip = V4 [0, 0, 0, 0], sa_port = 0\<rparr>"
    by (rule parse_show_socket_v4) simp_all
  have "\<exists>r. hotspot_binds (l_probe some_lib) ?any some_hotspot = Inr r"
    by (simp add: hotspot_binds_def some_hotspot_def trim_some_ip parse_some_ip is_ipv4_def any some_lib_def)
  then obtain m h p where r: "hotspot_binds (l_probe some_lib) ?any some_hotspot = Inr (m, h, p)" by (metis surj_pair)
  show ?thesis
    using hotspot_shares_port [OF r] r
    by (auto simp: any some_hotspot_def trim_some_ip parse_some_ip some_lib_def)
qed

definition some_config :: shim_config where
  "some_config = (config_defaults (ascii ''key''))\<lparr>enable_nostr := True, nostr_discovery := True,
     nostr_discovery_max_peers := 0, names_pins_path := Some [], names_server_peers := 1\<rparr>"

lemma some_config_ok: "\<exists>g. to_fips_config some_lib some_config = Inr g"
  by (simp add: to_fips_config_def some_config_def config_defaults_def derive_identity_def some_lib_def nonblank_def
      udp_transports_def lan_discovery_def Let_def split: if_splits)

theorem android_settings_forced_witness:
  "\<exists>g. to_fips_config some_lib some_config = Inr g \<and> tun_enabled g \<and> \<not> control_enabled g"
  using some_config_ok android_settings_forced [of some_lib some_config] by blast


end
