(* ===== verification/Engine.thy ===== *)
theory Engine
  imports Config
begin

text \<open>
  \<open>shim/src/engine.rs\<close>: the process's one engine, its start, stop, tunnel swap and rebuild,
  and the calls that look at it or poke it. \<open>start\<close>, \<open>stop\<close> and the body of
  \<open>network_changed\<close> hold the \<open>LIFECYCLE\<close> mutex from end to end, so each is one step, except
  that a start is two: everything up to the installation in the \<open>ENGINE\<close> slot, and the
  installation, since the calls that do not take \<open>LIFECYCLE\<close> run in between. What the node,
  the threads and the system answer is observed; the state accounts for the file
  descriptors the engine owns, the pump threads on them and the node threads.
\<close>

section \<open>State\<close>

definition DNS_SENTINEL :: bytes where
  "DNS_SENTINEL = [0xfd, 0, 0, 0, 0, 0, 0, 0, 0, 0, 0, 0, 0, 0, 0, 0x53]"

definition dns_server_string :: rust_string where
  "dns_server_string = show_ipv6 DNS_SENTINEL"

text \<open>The pump's fd, \<open>None\<close> once a swap has failed; the resolver, as what it believes of the Internet.\<close>
record engine =
  e_start :: u64
  e_node :: nat
  e_pump :: "nat option"
  e_forwarder :: bool
  e_fd :: nat
  e_config :: rust_string
  e_names :: "bool option"
  e_pokes :: nat
  e_flushes :: nat

text \<open>
  The statics \<open>ENGINE\<close>, \<open>STARTING\<close>, \<open>REBINDING\<close> (with the arguments of the call that set it),
  \<open>INTERNET_VALIDATED\<close> and \<open>STARTS\<close>; an engine built but not installed, and whether by a
  rebind, which is also when \<open>LIFECYCLE\<close> is held; the fds we own, whether one was ever
  closed that we did not own, and whether \<open>F_DUPFD\<close> ever gave one that was open, which the
  system does not do; the fds that pump threads are using; the node threads alive.
\<close>
record world =
  slot :: "engine option"
  starting :: bool
  rebinding :: "(nat \<times> rust_string option) option"
  validated :: bool
  starts :: u64
  installing :: "(engine \<times> bool) option"
  open_fds :: "nat list"
  bad_close :: bool
  bad_dup :: bool
  using_fds :: "nat list"
  nodes :: "nat list"
  next_node :: nat

definition world_init :: world where
  "world_init =
     \<lparr>slot = None, starting = False, rebinding = None, validated = True, starts = 0, installing = None,
      open_fds = [], bad_close = False, bad_dup = False, using_fds = [], nodes = [], next_node = 0\<rparr>"

definition close_fd :: "nat \<Rightarrow> world \<Rightarrow> world" where
  "close_fd fd w =
     (if fd \<in> set (open_fds w) then w\<lparr>open_fds := remove1 fd (open_fds w)\<rparr> else w\<lparr>bad_close := True\<rparr>)"

definition dup_fd :: "nat \<Rightarrow> world \<Rightarrow> world" where
  "dup_fd fd w = w\<lparr>open_fds := fd # open_fds w, bad_dup := (bad_dup w \<or> fd \<in> set (open_fds w))\<rparr>"

text \<open>What the start observes: \<open>serde\<close>, the node, its thread, its answer, and so on in order.\<close>
datatype ready = Ready | ReadyError rust_string | ReadyTimeout | ReadyDied
datatype pump_spawn = PumpUp | IoFailed rust_string | BridgeFailed rust_string

record start_obs =
  o_json :: "rust_string + shim_config"
  o_node_init :: "rust_string option"
  o_thread :: "rust_string option"
  o_ready :: ready
  o_dup :: "rust_string + nat"
  o_names_ok :: bool
  o_forwarder :: "rust_string option"
  o_pump :: pump_spawn

section \<open>Starting\<close>

definition worker_keys :: "rust_string list" where
  "worker_keys = [ascii ''FIPS_ENCRYPT_WORKERS'', ascii ''FIPS_DECRYPT_WORKERS'']"

text \<open>The environment variables: a value that is there already is respected.\<close>
definition apply_worker_thread_caps :: "nat \<Rightarrow> (rust_string \<rightharpoonup> rust_string) \<Rightarrow> (rust_string \<rightharpoonup> rust_string)" where
  "apply_worker_thread_caps n env =
     fold (\<lambda>key env. if env key = None then env(key \<mapsto> show_dec n) else env) worker_keys env"

definition node_up :: "world \<Rightarrow> world" where
  "node_up w = w\<lparr>nodes := next_node w # nodes w, next_node := Suc (next_node w)\<rparr>"

definition node_joined :: "nat \<Rightarrow> world \<Rightarrow> world" where
  "node_joined n w = w\<lparr>nodes := remove1 n (nodes w)\<rparr>"

text \<open>From the dup'd fd on; \<open>n\<close> is the node. An error drops \<open>stop_tx\<close> but joins no thread.\<close>
definition start_threads ::
  "shim_config \<Rightarrow> rust_string \<Rightarrow> start_obs \<Rightarrow> nat \<Rightarrow> nat \<Rightarrow> world \<Rightarrow> world \<times> (rust_string + engine)" where
  "start_threads c json obs n fd w =
     (let w = dup_fd fd w;
          names = (case names_pins_path c of
                     Some path \<Rightarrow> if o_names_ok obs then Some (validated w) else None
                   | None \<Rightarrow> None)
      in case (if forward_clearnet c then o_forwarder obs else None) of
           Some e \<Rightarrow> (close_fd fd w, Inl (ascii ''spawn forwarder: '' @ e))
         | None \<Rightarrow>
             (case o_pump obs of
                IoFailed e \<Rightarrow> (close_fd fd w, Inl (ascii ''spawn pump: '' @ e))
              | BridgeFailed e \<Rightarrow>
                  (close_fd fd (w\<lparr>using_fds := fd # using_fds w\<rparr>), Inl (ascii ''spawn pump: '' @ e))
              | PumpUp \<Rightarrow>
                  (w\<lparr>using_fds := fd # using_fds w, starts := starts w + 1\<rparr>,
                   Inr \<lparr>e_start = starts w, e_node = n, e_pump = Some fd, e_forwarder = forward_clearnet c,
                        e_fd = fd, e_config = json, e_names = names, e_pokes = 0, e_flushes = 0\<rparr>)))"

definition start_inner ::
  "'n fips_lib \<Rightarrow> rust_string \<Rightarrow> start_obs \<Rightarrow> world \<Rightarrow> world \<times> (rust_string + engine)" where
  "start_inner lib json obs w =
     (case o_json obs of
        Inl e \<Rightarrow> (w, Inl (ascii ''config parse: '' @ e))
      | Inr c \<Rightarrow>
          (case to_fips_config lib c of
             Inl e \<Rightarrow> (w, Inl e)
           | Inr config \<Rightarrow>
               (case (o_node_init obs, o_thread obs) of
                  (Some e, _) \<Rightarrow> (w, Inl (ascii ''node init: '' @ e))
                | (None, Some e) \<Rightarrow> (w, Inl (ascii ''spawn node thread: '' @ e))
                | (None, None) \<Rightarrow>
                    (let n = next_node w; w = node_up w
                     in case o_ready obs of
                          ReadyError e \<Rightarrow> (node_joined n w, Inl e)
                        | ReadyTimeout \<Rightarrow> (w, Inl (ascii ''node start timed out''))
                        | ReadyDied \<Rightarrow> (node_joined n w, Inl (ascii ''node thread died during start''))
                        | Ready \<Rightarrow>
                            (case o_dup obs of
                               Inl e \<Rightarrow> (node_joined n w, Inl (ascii ''dup tun fd: '' @ e))
                             | Inr fd \<Rightarrow> start_threads c json obs n fd w)))))"

text \<open>\<open>start_locked\<close> up to the installation.\<close>
definition start_locked ::
  "'n fips_lib \<Rightarrow> bool \<Rightarrow> rust_string \<Rightarrow> start_obs \<Rightarrow> world \<Rightarrow> world \<times> rust_string option" where
  "start_locked lib by_rebind json obs w =
     (if slot w \<noteq> None then (w, Some (ascii ''already running''))
      else if starting w then (w, Some (ascii ''start already in progress''))
      else
        (case start_inner lib json obs (w\<lparr>starting := True\<rparr>) of
           (w, Inr engine) \<Rightarrow> (w\<lparr>installing := Some (engine, by_rebind)\<rparr>, None)
         | (w, Inl e) \<Rightarrow> (w\<lparr>starting := False\<rparr>, Some e)))"

section \<open>Stopping\<close>

text \<open>\<open>joined_in_time\<close>: \<open>Pump::join\<close> joined the reader and the writer.\<close>
definition stop_locked :: "bool \<Rightarrow> world \<Rightarrow> world" where
  "stop_locked joined_in_time w =
     (case slot w of
        None \<Rightarrow> w
      | Some e \<Rightarrow>
          (let w = w\<lparr>slot := None\<rparr>;
               w = (case e_pump e of
                      Some fd \<Rightarrow> if joined_in_time then w\<lparr>using_fds := remove1 fd (using_fds w)\<rparr> else w
                    | None \<Rightarrow> w);
               w = node_joined (e_node e) w
           in close_fd (e_fd e) w))"

section \<open>A new tunnel\<close>

datatype swap_result = Swapped | SwapTimeout | SwapSpawnFailed rust_string

record rebind_obs =
  b_dup :: "rust_string + nat"
  b_swap :: swap_result
  b_join :: bool
  b_start :: start_obs

definition swap_tun_locked :: "rebind_obs \<Rightarrow> world \<Rightarrow> world \<times> rust_string option" where
  "swap_tun_locked obs w =
     (case b_dup obs of
        Inl e \<Rightarrow> (w, Some (ascii ''dup tun fd: '' @ e))
      | Inr fd \<Rightarrow>
          (let w = dup_fd fd w
           in case slot w of
                None \<Rightarrow> (close_fd fd w, Some (ascii ''not running''))
              | Some e \<Rightarrow>
                  (case e_pump e of
                     None \<Rightarrow> (close_fd fd w, Some (ascii ''no reader/writer to swap''))
                   | Some old \<Rightarrow>
                       (case b_swap obs of
                          SwapTimeout \<Rightarrow>
                            (close_fd fd (w\<lparr>slot := Some (e\<lparr>e_pump := None\<rparr>)\<rparr>),
                             Some (ascii ''TUN reader/writer did not stop for the swap''))
                        | SwapSpawnFailed m \<Rightarrow>
                            (close_fd fd (w\<lparr>slot := Some (e\<lparr>e_pump := None\<rparr>), using_fds := remove1 old (using_fds w)\<rparr>),
                             Some (ascii ''spawn TUN reader/writer: '' @ m))
                        | Swapped \<Rightarrow>
                            (let e' = e\<lparr>e_pump := Some fd, e_fd := fd, e_pokes := Suc (e_pokes e),
                                        e_flushes := e_flushes e + (if e_names e = None then 0 else 1)\<rparr>
                             in (close_fd (e_fd e) (w\<lparr>slot := Some e', using_fds := fd # remove1 old (using_fds w)\<rparr>),
                                 None))))))"

text \<open>The body of \<open>network_changed\<close>, which holds \<open>LIFECYCLE\<close>.\<close>
definition rebuild :: "'n fips_lib \<Rightarrow> rust_string option \<Rightarrow> rebind_obs \<Rightarrow> world \<Rightarrow> world \<times> rust_string option" where
  "rebuild lib config obs w =
     (case slot w of
        None \<Rightarrow> (w, None)
      | Some e \<Rightarrow>
          (let json = (case config of Some j \<Rightarrow> j | None \<Rightarrow> e_config e);
               (w, swapped) = (if json = e_config e
                               then (case swap_tun_locked obs w of (w, r) \<Rightarrow> (w, r = None))
                               else (w, False))
           in if swapped then (w, None)
              else start_locked lib True json (b_start obs) (stop_locked (b_join obs) w)))"

section \<open>The engine in use\<close>

datatype engine_event =
    Start rust_string start_obs
  | Install
  | Stop bool
  | NetworkChanged nat "rust_string option"
  | Rebuild rebind_obs
  | NetworkHint
  | NamesOnline bool

datatype engine_out = Busy | Coalesced | Accepted | Result "rust_string option"

fun engine_step :: "'n fips_lib \<Rightarrow> world \<Rightarrow> engine_event \<Rightarrow> world \<times> engine_out" where
  "engine_step lib w (Start json obs) =
     (if installing w \<noteq> None then (w, Busy)
      else (case start_locked lib False json obs w of (w, r) \<Rightarrow> (w, Result r)))"
| "engine_step lib w Install =
     (case installing w of
        None \<Rightarrow> (w, Busy)
      | Some (e, by_rebind) \<Rightarrow>
          (w\<lparr>slot := Some e, installing := None, starting := False,
             rebinding := (if by_rebind then None else rebinding w)\<rparr>, Result None))"
| "engine_step lib w (Stop joined_in_time) =
     (if installing w \<noteq> None then (w, Busy) else (stop_locked joined_in_time w, Result None))"
| "engine_step lib w (NetworkChanged fd config) =
     (if rebinding w \<noteq> None then (w, Coalesced) else (w\<lparr>rebinding := Some (fd, config)\<rparr>, Accepted))"
| "engine_step lib w (Rebuild obs) =
     (case rebinding w of
        None \<Rightarrow> (w, Busy)
      | Some (fd, config) \<Rightarrow>
          if installing w \<noteq> None then (w, Busy)
          else
            (case rebuild lib config obs w of
               (w, r) \<Rightarrow> (if installing w = None then w\<lparr>rebinding := None\<rparr> else w, Result r)))"
| "engine_step lib w NetworkHint =
     (case slot w of
        None \<Rightarrow> (w, Result None)
      | Some e \<Rightarrow>
          (w\<lparr>slot := Some (e\<lparr>e_pokes := Suc (e_pokes e),
                             e_flushes := e_flushes e + (if e_names e = None then 0 else 1)\<rparr>)\<rparr>, Result None))"
| "engine_step lib w (NamesOnline b) =
     (let w = w\<lparr>validated := b\<rparr>
      in case slot w of
           None \<Rightarrow> (w, Result None)
         | Some e \<Rightarrow>
             (w\<lparr>slot := Some (e\<lparr>e_names := (case e_names e of None \<Rightarrow> None | Some _ \<Rightarrow> Some b)\<rparr>)\<rparr>, Result None))"

section \<open>File descriptors\<close>

definition current :: "world \<Rightarrow> engine option" where
  "current w = (case slot w of Some e \<Rightarrow> Some e | None \<Rightarrow> map_option fst (installing w))"

definition fds_ok :: "world \<Rightarrow> bool" where
  "fds_ok w \<longleftrightarrow>
     \<not> bad_close w \<and> (slot w = None \<or> installing w = None) \<and> starting w = (installing w \<noteq> None) \<and>
     open_fds w = (case current w of Some e \<Rightarrow> [e_fd e] | None \<Rightarrow> []) \<and>
     (\<forall>e. current w = Some e \<longrightarrow> e_pump e = Some (e_fd e))"

definition engine_ok :: "world \<Rightarrow> bool" where
  "engine_ok w \<longleftrightarrow> bad_dup w \<or> fds_ok w"

lemma world_simps [simp]:
  "slot (dup_fd fd w) = slot w" "installing (dup_fd fd w) = installing w" "starting (dup_fd fd w) = starting w"
  "open_fds (dup_fd fd w) = fd # open_fds w" "bad_close (dup_fd fd w) = bad_close w"
  "bad_dup (dup_fd fd w) = (bad_dup w \<or> fd \<in> set (open_fds w))" "using_fds (dup_fd fd w) = using_fds w"
  "nodes (dup_fd fd w) = nodes w" "validated (dup_fd fd w) = validated w" "starts (dup_fd fd w) = starts w"
  "rebinding (dup_fd fd w) = rebinding w" "next_node (dup_fd fd w) = next_node w"
  "slot (close_fd fd w) = slot w" "installing (close_fd fd w) = installing w" "starting (close_fd fd w) = starting w"
  "bad_dup (close_fd fd w) = bad_dup w" "using_fds (close_fd fd w) = using_fds w" "nodes (close_fd fd w) = nodes w"
  "validated (close_fd fd w) = validated w" "starts (close_fd fd w) = starts w" "rebinding (close_fd fd w) = rebinding w"
  "next_node (close_fd fd w) = next_node w"
  "open_fds (close_fd fd w) = remove1 fd (open_fds w)" "bad_close (close_fd fd w) = (bad_close w \<or> fd \<notin> set (open_fds w))"
  "slot (node_joined n w) = slot w" "installing (node_joined n w) = installing w" "starting (node_joined n w) = starting w"
  "open_fds (node_joined n w) = open_fds w" "bad_close (node_joined n w) = bad_close w" "bad_dup (node_joined n w) = bad_dup w"
  "using_fds (node_joined n w) = using_fds w" "validated (node_joined n w) = validated w"
  "nodes (node_joined n w) = remove1 n (nodes w)" "rebinding (node_joined n w) = rebinding w"
  "slot (node_up w) = slot w" "installing (node_up w) = installing w" "starting (node_up w) = starting w"
  "open_fds (node_up w) = open_fds w" "bad_close (node_up w) = bad_close w" "bad_dup (node_up w) = bad_dup w"
  "using_fds (node_up w) = using_fds w" "validated (node_up w) = validated w"
  "nodes (node_up w) = next_node w # nodes w" "rebinding (node_up w) = rebinding w"
  by (auto simp: dup_fd_def close_fd_def node_joined_def node_up_def remove1_idem)

text \<open>A start that can leave threads behind: the node did not answer, or a thread failed to start.\<close>
definition leaves_node :: "start_obs \<Rightarrow> bool" where
  "leaves_node obs \<longleftrightarrow> o_ready obs = ReadyTimeout \<or> o_forwarder obs \<noteq> None \<or> o_pump obs \<noteq> PumpUp"

text \<open>The two ways a start goes: nothing is left of it but perhaps threads, or an engine is built.\<close>
definition start_failed :: "start_obs \<Rightarrow> world \<Rightarrow> world \<Rightarrow> bool" where
  "start_failed obs w w' \<longleftrightarrow>
     open_fds w' = open_fds w \<and> bad_close w' = bad_close w \<and> slot w' = slot w \<and> installing w' = installing w \<and>
     starting w' = starting w \<and> (bad_dup w \<longrightarrow> bad_dup w') \<and> validated w' = validated w \<and> rebinding w' = rebinding w \<and>
     (\<not> leaves_node obs \<longrightarrow> nodes w' = nodes w \<and> using_fds w' = using_fds w)"

definition start_built :: "rust_string \<Rightarrow> world \<Rightarrow> world \<Rightarrow> engine \<Rightarrow> bool" where
  "start_built json w w' e \<longleftrightarrow>
     open_fds w' = e_fd e # open_fds w \<and> bad_close w' = bad_close w \<and> slot w' = slot w \<and>
     installing w' = installing w \<and> starting w' = starting w \<and>
     bad_dup w' = (bad_dup w \<or> e_fd e \<in> set (open_fds w)) \<and> validated w' = validated w \<and>
     rebinding w' = rebinding w \<and> nodes w' = e_node e # nodes w \<and> using_fds w' = e_fd e # using_fds w \<and>
     e_pump e = Some (e_fd e) \<and> e_config e = json \<and> e_names e \<in> {None, Some (validated w)} \<and>
     e_start e = starts w \<and> starts w' = starts w + 1"

lemma start_threads_cases:
  assumes "start_threads c json obs n fd w = (w', r)"
  shows "case r of
      Inl _ \<Rightarrow> leaves_node obs \<and> open_fds w' = open_fds w \<and> bad_close w' = bad_close w \<and> slot w' = slot w \<and>
        installing w' = installing w \<and> starting w' = starting w \<and> (bad_dup w \<longrightarrow> bad_dup w') \<and>
        validated w' = validated w \<and> rebinding w' = rebinding w
    | Inr e \<Rightarrow> e_node e = n \<and> open_fds w' = e_fd e # open_fds w \<and> bad_close w' = bad_close w \<and> slot w' = slot w \<and>
        installing w' = installing w \<and> starting w' = starting w \<and>
        bad_dup w' = (bad_dup w \<or> e_fd e \<in> set (open_fds w)) \<and> validated w' = validated w \<and>
        rebinding w' = rebinding w \<and> nodes w' = nodes w \<and> using_fds w' = e_fd e # using_fds w \<and>
        e_pump e = Some (e_fd e) \<and> e_config e = json \<and> e_names e \<in> {None, Some (validated w)} \<and>
        e_start e = starts w \<and> starts w' = starts w + 1"
  using assms
  by (auto simp: start_threads_def Let_def leaves_node_def close_fd_def split: option.splits pump_spawn.splits if_splits)

lemma start_inner_cases:
  assumes "start_inner lib json obs w = (w', r)"
  shows "case r of Inl _ \<Rightarrow> start_failed obs w w' | Inr e \<Rightarrow> start_built json w w' e"
proof (cases "\<exists>c fd. start_threads c json obs (next_node w) fd (node_up w) = (w', r)")
  case True
  then obtain c fd where "start_threads c json obs (next_node w) fd (node_up w) = (w', r)" by blast
  from start_threads_cases [OF this] show ?thesis
    by (auto simp: start_failed_def start_built_def node_up_def split: sum.splits)
next
  case False
  then show ?thesis
    using assms
    by (auto simp: start_inner_def start_failed_def leaves_node_def Let_def
        split: sum.splits option.splits ready.splits prod.splits)
qed

lemma start_locked_cases:
  assumes "start_locked lib by_rebind json obs w = (w', r)" and "slot w = None" and "\<not> starting w" and "installing w = None"
  shows "case r of
      Some _ \<Rightarrow> start_failed obs w w'
    | None \<Rightarrow> \<exists>e. installing w' = Some (e, by_rebind) \<and> starting w' \<and> slot w' = None \<and>
        start_built json w (w'\<lparr>installing := None, starting := False\<rparr>) e"
proof -
  obtain w1 r1 where s: "start_inner lib json obs (w\<lparr>starting := True\<rparr>) = (w1, r1)" by fastforce
  show ?thesis
    using start_inner_cases [OF s] assms s
    by (auto simp: start_locked_def start_failed_def start_built_def split: sum.splits)
qed

text \<open>A swap replaces the fd and nothing else, or fails and leaves the engine to be stopped.\<close>
lemma swap_cases:
  assumes "swap_tun_locked obs w = (w', r)" and "slot w = Some e" and "e_pump e = Some (e_fd e)"
    and "open_fds w = [e_fd e]"
  shows "installing w' = installing w \<and> starting w' = starting w \<and> rebinding w' = rebinding w \<and>
    validated w' = validated w \<and> nodes w' = nodes w \<and> (bad_dup w \<longrightarrow> bad_dup w') \<and> starts w' = starts w \<and>
    (case r of
       None \<Rightarrow> \<exists>fd. b_dup obs = Inr fd \<and> b_swap obs = Swapped \<and>
         slot w' = Some (e\<lparr>e_pump := Some fd, e_fd := fd, e_pokes := Suc (e_pokes e),
           e_flushes := e_flushes e + (if e_names e = None then 0 else 1)\<rparr>) \<and>
         (fd = e_fd e \<longrightarrow> bad_dup w') \<and> (fd \<noteq> e_fd e \<longrightarrow> open_fds w' = [fd] \<and> bad_close w' = bad_close w) \<and>
         using_fds w' = fd # remove1 (e_fd e) (using_fds w)
     | Some _ \<Rightarrow> \<exists>e'. slot w' = Some e' \<and> e_fd e' = e_fd e \<and> e_node e' = e_node e \<and> open_fds w' = [e_fd e] \<and>
         bad_close w' = bad_close w \<and>
         (e' = e \<and> using_fds w' = using_fds w \<or>
          e_pump e' = None \<and> b_swap obs = SwapTimeout \<or>
          e_pump e' = None \<and> using_fds w' = remove1 (e_fd e) (using_fds w)))"
  using assms
  by (auto simp: swap_tun_locked_def Let_def split: sum.splits option.splits swap_result.splits)

lemma stop_cases:
  assumes "slot w = Some e" and "open_fds w = [e_fd e]"
  shows "slot (stop_locked j w) = None" and "open_fds (stop_locked j w) = []" and "bad_close (stop_locked j w) = bad_close w"
    and "bad_dup (stop_locked j w) = bad_dup w" and "installing (stop_locked j w) = installing w"
    and "starting (stop_locked j w) = starting w" and "nodes (stop_locked j w) = remove1 (e_node e) (nodes w)"
    and "validated (stop_locked j w) = validated w" and "rebinding (stop_locked j w) = rebinding w"
    and "using_fds (stop_locked j w) = (case e_pump e of Some fd \<Rightarrow> if j then remove1 fd (using_fds w) else using_fds w
      | None \<Rightarrow> using_fds w)"
    and "starts (stop_locked j w) = starts w"
  using assms by (auto simp: stop_locked_def Let_def node_joined_def close_fd_def split: option.split)

lemma stop_none: "slot w = None \<Longrightarrow> stop_locked j w = w"
  by (simp add: stop_locked_def)

lemma bad_dup_stop: "bad_dup w \<Longrightarrow> bad_dup (stop_locked j w)"
  by (auto simp: stop_locked_def Let_def node_joined_def close_fd_def split: option.split)

lemma bad_dup_start: "start_locked lib b json obs w = (w', r) \<Longrightarrow> bad_dup w \<Longrightarrow> bad_dup w'"
proof -
  assume a: "start_locked lib b json obs w = (w', r)" "bad_dup w"
  obtain w1 r1 where s: "start_inner lib json obs (w\<lparr>starting := True\<rparr>) = (w1, r1)" by fastforce
  show ?thesis
    using start_inner_cases [OF s] a s
    by (auto simp: start_locked_def start_failed_def start_built_def split: sum.splits if_splits)
qed

lemma bad_dup_step: "bad_dup w \<Longrightarrow> bad_dup (fst (engine_step lib w ev))"
proof (cases ev)
  case (Start json obs)
  assume "bad_dup w"
  then show ?thesis using bad_dup_start [of lib False json obs w] by (auto simp: Start split: prod.split)
next
  case (Rebuild obs)
  assume b: "bad_dup w"
  have swap: "swap_tun_locked obs w = (w1, r) \<Longrightarrow> bad_dup w1" for w1 r
    using b by (auto simp: swap_tun_locked_def Let_def split: sum.splits option.splits swap_result.splits)
  have start: "start_locked lib True json (b_start obs) (stop_locked (b_join obs) w1) = (w2, r) \<Longrightarrow> bad_dup w1 \<Longrightarrow> bad_dup w2"
    for json w1 w2 r using bad_dup_start bad_dup_stop by blast
  have "rebuild lib config obs w = (w2, r) \<Longrightarrow> bad_dup w2" for config w2 r
    using b swap start by (auto simp: rebuild_def Let_def split: option.splits if_splits prod.splits)
  then show ?thesis using b by (auto simp: Rebuild split: option.split prod.split)
qed (auto simp: bad_dup_stop Let_def split: option.split)

text \<open>What a rebuild does: the engine is kept on the new fd, or it is stopped and a new one is built or not.\<close>
definition kept :: "engine \<Rightarrow> world \<Rightarrow> world \<Rightarrow> bool" where
  "kept e w w' \<longleftrightarrow>
     (\<exists>fd e'. slot w' = Some e' \<and> e_fd e' = fd \<and> e_pump e' = Some fd \<and> e_node e' = e_node e \<and> e_start e' = e_start e \<and>
        e_config e' = e_config e \<and> e_names e' = e_names e \<and> e_forwarder e' = e_forwarder e \<and>
        open_fds w' = [fd] \<and> nodes w' = nodes w \<and> installing w' = None)"

definition rebuilt :: "rust_string \<Rightarrow> engine \<Rightarrow> world \<Rightarrow> world \<Rightarrow> bool" where
  "rebuilt json e w w' \<longleftrightarrow>
     (\<exists>e'. installing w' = Some (e', True) \<and> slot w' = None \<and> e_config e' = json \<and> e_start e' = starts w \<and>
        e_pump e' = Some (e_fd e') \<and> open_fds w' = [e_fd e'] \<and>
        nodes w' = e_node e' # remove1 (e_node e) (nodes w) \<and> e_names e' \<in> {None, Some (validated w)})"

definition torn_down :: "world \<Rightarrow> bool" where
  "torn_down w' \<longleftrightarrow> slot w' = None \<and> installing w' = None \<and> open_fds w' = []"

lemma rebuild_cases:
  assumes ok: "fds_ok w" and "slot w = Some e" and re: "rebuild lib config obs w = (w', r)" and "\<not> bad_dup w'"
  defines "json \<equiv> (case config of Some j \<Rightarrow> j | None \<Rightarrow> e_config e)"
  shows "\<not> bad_close w' \<and> starting w' = (installing w' \<noteq> None) \<and> validated w' = validated w \<and> rebinding w' = rebinding w \<and>
    (r = None \<and> json = e_config e \<and> b_swap obs = Swapped \<and> kept e w w' \<or>
     r = None \<and> \<not> (json = e_config e \<and> b_swap obs = Swapped \<and> (\<exists>fd. b_dup obs = Inr fd)) \<and> rebuilt json e w w' \<or>
     r \<noteq> None \<and> torn_down w' \<and> (leaves_node (b_start obs) \<or> nodes w' = remove1 (e_node e) (nodes w)))"
proof -
  have w: "installing w = None" "\<not> starting w" "open_fds w = [e_fd e]" "e_pump e = Some (e_fd e)" "\<not> bad_close w"
    using ok assms(2) by (auto simp: fds_ok_def current_def)
  have restart: "\<not> bad_close w2 \<and> starting w2 = (installing w2 \<noteq> None) \<and> validated w2 = validated w1 \<and>
      rebinding w2 = rebinding w1 \<and>
      (r2 = None \<and> rebuilt json e w w2 \<or>
       r2 \<noteq> None \<and> torn_down w2 \<and> (leaves_node (b_start obs) \<or> nodes w2 = remove1 (e_node e) (nodes w)))"
    if w1: "slot w1 = Some e1" "open_fds w1 = [e_fd e1]" "e_node e1 = e_node e" "installing w1 = None" "\<not> starting w1"
      "\<not> bad_close w1" "nodes w1 = nodes w" "starts w1 = starts w" "validated w1 = validated w"
      and st: "start_locked lib True json (b_start obs) (stop_locked (b_join obs) w1) = (w2, r2)" for w1 e1 w2 r2
  proof -
    note stop = stop_cases [OF w1(1,2), of "b_join obs"]
    have "case r2 of
        Some _ \<Rightarrow> start_failed (b_start obs) (stop_locked (b_join obs) w1) w2
      | None \<Rightarrow> \<exists>e'. installing w2 = Some (e', True) \<and> starting w2 \<and> slot w2 = None \<and>
          start_built json (stop_locked (b_join obs) w1) (w2\<lparr>installing := None, starting := False\<rparr>) e'"
      using stop w1 by (intro start_locked_cases [OF st]) auto
    then show ?thesis
      using stop w1 by (auto simp: start_failed_def start_built_def torn_down_def rebuilt_def split: option.splits)
  qed
  show ?thesis
  proof (cases "json = e_config e")
    case same: True
    obtain w1 r1 where sw: "swap_tun_locked obs w = (w1, r1)" by fastforce
    note sc = swap_cases [OF sw assms(2) w(4,3)]
    show ?thesis
    proof (cases r1)
      case None
      then have "w' = w1" "r = None" using re sw same assms(2) by (auto simp: rebuild_def json_def)
      then show ?thesis using sc None w same assms(4) by (auto simp: kept_def)
    next
      case (Some m)
      have sw_fail: "\<not> (b_swap obs = Swapped \<and> (\<exists>fd. b_dup obs = Inr fd))"
        using sw Some assms(2) w(4) by (auto simp: swap_tun_locked_def Let_def split: sum.splits)
      obtain e1 where e1: "slot w1 = Some e1" "e_fd e1 = e_fd e" "e_node e1 = e_node e" "open_fds w1 = [e_fd e]" "bad_close w1 = bad_close w"
        using sc Some by auto
      have "start_locked lib True json (b_start obs) (stop_locked (b_join obs) w1) = (w', r)"
        using re sw same assms(2) Some by (simp add: rebuild_def json_def)
      then show ?thesis
        using restart [of w1 e1 w' r] e1 sc w sw_fail by auto
    qed
  next
    case False
    then have "start_locked lib True json (b_start obs) (stop_locked (b_join obs) w) = (w', r)"
      using re assms(2) by (simp add: rebuild_def json_def)
    then show ?thesis using restart [of w e w' r] assms(2) w False by auto
  qed
qed

lemma restart_using:
  assumes w: "slot w = Some e" "open_fds w = [e_fd e]" "installing w = None" "\<not> starting w"
    and p: "e_pump e = Some (e_fd e) \<and> using_fds w = [e_fd e] \<or> e_pump e = None \<and> using_fds w = []"
    and st: "start_locked lib True json obs (stop_locked True w) = (w', r)" and "\<not> leaves_node obs"
  shows "using_fds w' = open_fds w'"
proof -
  note stop = stop_cases [OF w(1,2), of True]
  have s: "slot (stop_locked True w) = None" "open_fds (stop_locked True w) = []" "using_fds (stop_locked True w) = []"
    "installing (stop_locked True w) = None" "\<not> starting (stop_locked True w)"
    using stop w(3,4) p by auto
  show ?thesis
    using start_locked_cases [OF st s(1,5,4)] s assms(7)
    by (auto simp: start_failed_def start_built_def split: option.splits)
qed

lemma rebuild_using:
  assumes ok: "fds_ok w" and "slot w = Some e" and re: "rebuild lib config obs w = (w', r)" and "\<not> bad_dup w'"
    and tidy: "b_join obs" "b_swap obs \<noteq> SwapTimeout" "\<not> leaves_node (b_start obs)" and "using_fds w = [e_fd e]"
  shows "using_fds w' = open_fds w'"
proof -
  have w: "installing w = None" "\<not> starting w" "open_fds w = [e_fd e]" "e_pump e = Some (e_fd e)"
    using ok assms(2) by (auto simp: fds_ok_def current_def)
  define json where "json = (case config of Some j \<Rightarrow> j | None \<Rightarrow> e_config e)"
  show ?thesis
  proof (cases "json = e_config e")
    case same: True
    obtain w1 r1 where sw: "swap_tun_locked obs w = (w1, r1)" by fastforce
    note sc = swap_cases [OF sw assms(2) w(4,3)]
    show ?thesis
    proof (cases r1)
      case None
      then have "w' = w1" using re sw same assms(2) by (auto simp: rebuild_def json_def)
      then show ?thesis using sc None assms(4,8) by auto
    next
      case (Some m)
      obtain e1 where e1: "slot w1 = Some e1" "e_fd e1 = e_fd e" "open_fds w1 = [e_fd e1]"
        "e_pump e1 = Some (e_fd e1) \<and> using_fds w1 = [e_fd e1] \<or> e_pump e1 = None \<and> using_fds w1 = []"
        using sc Some tidy(2) assms(8) w(4) by auto
      have "start_locked lib True json (b_start obs) (stop_locked True w1) = (w', r)"
        using re sw same assms(2) Some tidy(1) by (simp add: rebuild_def json_def)
      then show ?thesis using restart_using [OF e1(1,3) _ _ e1(4)] sc w tidy(3) by auto
    qed
  next
    case False
    then have "start_locked lib True json (b_start obs) (stop_locked True w) = (w', r)"
      using re assms(2) tidy(1) by (simp add: rebuild_def json_def)
    then show ?thesis using restart_using [of w e] assms(2,8) w tidy(3) by auto
  qed
qed

lemma rebuild_none: "slot w = None \<Longrightarrow> rebuild lib config obs w = (w, None)"
  by (simp add: rebuild_def)

lemma engine_ok_step: "engine_ok w \<Longrightarrow> engine_ok (fst (engine_step lib w ev))"
proof -
  assume ok: "engine_ok w"
  show ?thesis
  proof (cases "bad_dup (fst (engine_step lib w ev))")
    case good: False
    then have f: "fds_ok w" using ok bad_dup_step [of w lib ev] by (auto simp: engine_ok_def)
    have "fds_ok (fst (engine_step lib w ev))"
    proof (cases ev)
      case (Start json obs)
      show ?thesis
      proof (cases "installing w = None \<and> slot w = None")
        case True
        then have st: "\<not> starting w" "open_fds w = []" using f by (auto simp: fds_ok_def current_def)
        obtain w' r where s: "start_locked lib False json obs w = (w', r)" by fastforce
        show ?thesis
          using start_locked_cases [OF s] True st f s
          by (auto simp: Start fds_ok_def current_def start_failed_def start_built_def split: option.splits)
      next
        case False
        then show ?thesis using f by (auto simp: Start start_locked_def)
      qed
    next
      case Install
      then show ?thesis using f by (auto simp: fds_ok_def current_def split: option.split)
    next
      case (Stop j)
      show ?thesis
      proof (cases "slot w")
        case None
        then show ?thesis using f by (simp add: Stop stop_none)
      next
        case (Some e)
        then have o: "open_fds w = [e_fd e]" using f by (simp add: fds_ok_def current_def)
        show ?thesis using f stop_cases [OF Some o, of j] Some by (auto simp: Stop fds_ok_def current_def)
      qed
    next
      case (Rebuild obs)
      show ?thesis
      proof (cases "rebinding w = None \<or> installing w \<noteq> None \<or> slot w = None")
        case True
        then show ?thesis using f by (auto simp: Rebuild rebuild_none fds_ok_def current_def split: option.splits)
      next
        case False
        then have i: "installing w = None" by blast
        obtain fd config e where rb: "rebinding w = Some (fd, config)" "slot w = Some e" using False by auto
        obtain w' r where re: "rebuild lib config obs w = (w', r)" by fastforce
        have "\<not> bad_dup w'" using good rb re i by (simp add: Rebuild split: if_splits)
        note rc = rebuild_cases [OF f rb(2) re this]
        then show ?thesis
          using rb re i by (auto simp: Rebuild fds_ok_def current_def kept_def rebuilt_def torn_down_def)
      qed
    next
      case (NamesOnline b)
      then show ?thesis using f by (auto simp: fds_ok_def current_def Let_def split: option.splits)
    qed (use f in \<open>auto simp: fds_ok_def current_def split: option.splits\<close>)
    then show ?thesis by (simp add: engine_ok_def)
  qed (simp add: engine_ok_def)
qed

lemma engine_ok_init: "engine_ok world_init"
  by (simp add: engine_ok_def fds_ok_def world_init_def current_def)

interpretation eng: machine world_init "engine_step lib" engine_ok for lib
  by unfold_locales (auto intro: engine_ok_init engine_ok_step)

text \<open>
  C7. The engine owns its file descriptors. After any sequence of starts, installations,
  stops, rebinds, swaps that work or fail, and hints, in which the system never hands out
  an fd that is open: exactly one duplicated fd is open while an engine exists or is being
  installed, the one its pump is on, and none otherwise; none was ever closed twice; there
  are never two engines; and \<open>STARTING\<close> is set exactly while a start holds \<open>LIFECYCLE\<close>, so
  "start already in progress" is never reported.
\<close>
theorem engine_owns_its_fds:
  assumes "\<not> bad_dup (fst (run (engine_step lib) world_init es))"
  defines "w \<equiv> fst (run (engine_step lib) world_init es)"
  shows "\<not> bad_close w \<and> (slot w = None \<or> installing w = None) \<and> starting w = (installing w \<noteq> None) \<and>
    open_fds w = (case current w of Some e \<Rightarrow> [e_fd e] | None \<Rightarrow> []) \<and>
    (\<forall>e. current w = Some e \<longrightarrow> e_pump e = Some (e_fd e))"
  using eng.ok_run [of lib es] assms by (simp add: engine_ok_def fds_ok_def w_def)

section \<open>Threads\<close>

text \<open>Nothing had to be abandoned: every join ended in time, no start left threads behind.\<close>
definition tidy :: "engine_event \<Rightarrow> bool" where
  "tidy ev \<longleftrightarrow>
     (case ev of
        Start json obs \<Rightarrow> \<not> leaves_node obs
      | Stop joined_in_time \<Rightarrow> joined_in_time
      | Rebuild obs \<Rightarrow> b_join obs \<and> b_swap obs \<noteq> SwapTimeout \<and> \<not> leaves_node (b_start obs)
      | _ \<Rightarrow> True)"

definition threads_ok :: "world \<Rightarrow> bool" where
  "threads_ok w \<longleftrightarrow> using_fds w = open_fds w \<and> nodes w = (case current w of Some e \<Rightarrow> [e_node e] | None \<Rightarrow> [])"

lemma threads_ok_step:
  assumes f: "fds_ok w" and t: "threads_ok w" and "tidy ev" and good: "\<not> bad_dup (fst (engine_step lib w ev))"
  shows "threads_ok (fst (engine_step lib w ev))"
proof (cases ev)
  case (Start json obs)
  show ?thesis
  proof (cases "installing w = None \<and> slot w = None")
    case True
    then have st: "\<not> starting w" "open_fds w = []" using f by (auto simp: fds_ok_def current_def)
    obtain w' r where s: "start_locked lib False json obs w = (w', r)" by fastforce
    show ?thesis
      using start_locked_cases [OF s] True st t s assms(3)
      by (auto simp: Start threads_ok_def current_def start_failed_def start_built_def tidy_def split: option.splits)
  next
    case False
    then show ?thesis using t by (auto simp: Start start_locked_def)
  qed
next
  case Install
  then show ?thesis using t f by (auto simp: threads_ok_def fds_ok_def current_def split: option.split)
next
  case (Stop j)
  show ?thesis
  proof (cases "slot w")
    case None
    then show ?thesis using t by (simp add: Stop stop_none)
  next
    case (Some e)
    then have o: "open_fds w = [e_fd e]" "e_pump e = Some (e_fd e)" using f by (simp_all add: fds_ok_def current_def)
    show ?thesis
      using t f stop_cases [OF Some o(1), of j] o Some assms(3)
      by (auto simp: Stop threads_ok_def fds_ok_def current_def tidy_def)
  qed
next
  case (Rebuild obs)
  show ?thesis
  proof (cases "rebinding w = None \<or> installing w \<noteq> None \<or> slot w = None")
    case True
    then show ?thesis using t by (auto simp: Rebuild rebuild_none threads_ok_def current_def split: option.splits)
  next
    case False
    then have i: "installing w = None" by blast
    obtain fd config e where rb: "rebinding w = Some (fd, config)" "slot w = Some e" using False by auto
    obtain w' r where re: "rebuild lib config obs w = (w', r)" by fastforce
    have "\<not> bad_dup w'" using good rb re i by (simp add: Rebuild split: if_splits)
    note rc = rebuild_cases [OF f rb(2) re this]
    have "using_fds w = [e_fd e]" using t f rb(2) by (simp add: threads_ok_def fds_ok_def current_def)
    then have u: "using_fds w' = open_fds w'"
      using rebuild_using [OF f rb(2) re \<open>\<not> bad_dup w'\<close>] assms(3) by (simp add: Rebuild tidy_def)
    have "nodes w = [e_node e]" using t rb(2) by (simp add: threads_ok_def current_def)
    then show ?thesis
      using rb re i rc u assms(3)
      by (auto simp: Rebuild threads_ok_def current_def kept_def rebuilt_def torn_down_def tidy_def)
  qed
next
  case (NamesOnline b)
  then show ?thesis using t by (auto simp: threads_ok_def current_def Let_def split: option.splits)
qed (use t in \<open>auto simp: threads_ok_def current_def split: option.splits\<close>)

lemma bad_dup_run: "bad_dup w \<Longrightarrow> bad_dup (fst (run (engine_step lib) w es))"
  by (induction es arbitrary: w) (simp_all add: bad_dup_step del: engine_step.simps)


section \<open>Rebinds\<close>

text \<open>
  C9. What a rebind does to a running engine. With the configuration unchanged and a swap that
  works, the node, its start, its configuration and its resolver are kept and only the fd
  is new; otherwise, also after a swap that failed, the engine is stopped and one is built
  on the given configuration, with a new start number; and when that fails nothing is
  left: no engine and no fd.
\<close>
theorem rebind_outcome:
  assumes "engine_ok w" and "slot w = Some e" and "rebuild lib config obs w = (w', r)" and "\<not> bad_dup w" and "\<not> bad_dup w'"
  shows "(let json = (case config of Some j \<Rightarrow> j | None \<Rightarrow> e_config e)
    in (r = None \<and> json = e_config e \<and> b_swap obs = Swapped \<and> kept e w w' \<or>
        r = None \<and> \<not> (json = e_config e \<and> b_swap obs = Swapped \<and> (\<exists>fd. b_dup obs = Inr fd)) \<and> rebuilt json e w w' \<or>
        r \<noteq> None \<and> torn_down w'))"
  using rebuild_cases [OF _ assms(2,3,5)] assms(1,4) by (auto simp: engine_ok_def Let_def)

text \<open>
  A rebind that arrives while another is under way is dropped: the call reports success,
  its tunnel fd and its configuration are used by nothing, and the rebind under way goes on
  with the arguments it was given.
\<close>
theorem late_rebind_is_dropped:
  assumes "rebinding w = Some (fd, config)"
  shows "engine_step lib w (NetworkChanged fd' config') = (w, Coalesced)"
  using assms by simp

section \<open>The Internet flag of the resolver\<close>

definition names_current :: "world \<Rightarrow> bool" where
  "names_current w \<longleftrightarrow> (\<forall>e b. current w = Some e \<and> e_names e = Some b \<longrightarrow> b = validated w)"

lemma names_current_step:
  assumes f: "fds_ok w" and n: "names_current w" and good: "\<not> bad_dup (fst (engine_step lib w ev))"
    and quiet: "\<And>b. ev = NamesOnline b \<Longrightarrow> installing w = None"
  shows "names_current (fst (engine_step lib w ev))"
proof (cases ev)
  case (Start json obs)
  show ?thesis
  proof (cases "installing w = None \<and> slot w = None")
    case True
    then have st: "\<not> starting w" using f by (auto simp: fds_ok_def)
    obtain w' r where s: "start_locked lib False json obs w = (w', r)" by fastforce
    show ?thesis
      using start_locked_cases [OF s] True st n s
      by (auto simp: Start names_current_def current_def start_failed_def start_built_def split: option.splits)
  next
    case False
    then show ?thesis using n by (auto simp: Start start_locked_def)
  qed
next
  case Install
  then show ?thesis using n f by (auto simp: names_current_def fds_ok_def current_def split: option.split)
next
  case (Stop j)
  show ?thesis
  proof (cases "slot w")
    case None
    then show ?thesis using n by (simp add: Stop stop_none)
  next
    case (Some e)
    then have o: "open_fds w = [e_fd e]" "installing w = None" using f by (auto simp: fds_ok_def current_def)
    show ?thesis using stop_cases [OF Some o(1), of j] o by (auto simp: Stop names_current_def current_def)
  qed
next
  case (Rebuild obs)
  show ?thesis
  proof (cases "rebinding w = None \<or> installing w \<noteq> None \<or> slot w = None")
    case True
    then show ?thesis using n by (auto simp: Rebuild rebuild_none names_current_def current_def split: option.splits)
  next
    case False
    then have i: "installing w = None" by blast
    obtain fd config e where rb: "rebinding w = Some (fd, config)" "slot w = Some e" using False by auto
    obtain w' r where re: "rebuild lib config obs w = (w', r)" by fastforce
    have "\<not> bad_dup w'" using good rb re i by (simp add: Rebuild split: if_splits)
    note rc = rebuild_cases [OF f rb(2) re this]
    have "\<forall>b. e_names e = Some b \<longrightarrow> b = validated w" using n rb(2) by (simp add: names_current_def current_def)
    then show ?thesis
      using rb re i rc
      by (cases "e_names e") (auto simp: Rebuild names_current_def current_def kept_def rebuilt_def torn_down_def)
  qed
next
  case (NamesOnline b)
  then show ?thesis
    using n quiet [OF NamesOnline] by (auto simp: names_current_def current_def Let_def split: option.splits)
qed (use n in \<open>auto simp: names_current_def current_def split: option.splits\<close>)


text \<open>
  In that window the word is lost: the engine being installed keeps the old belief although
  \<open>INTERNET_VALIDATED\<close> has the new one, and keeps it whatever hints follow, until Kotlin
  speaks again.
\<close>
theorem names_flag_lost_in_window:
  assumes "installing w = Some (e, by_rebind)" and "slot w = None" and "e_names e = Some b"
  shows "\<exists>w' e'. fst (run (engine_step lib) w ([NamesOnline (\<not> b), Install] @ replicate n NetworkHint)) = w' \<and>
    validated w' = (\<not> b) \<and> slot w' = Some e' \<and> e_names e' = Some b"
proof -
  define w2 where "w2 = fst (run (engine_step lib) w [NamesOnline (\<not> b), Install])"
  have "validated w2 = (\<not> b) \<and> (\<exists>e'. slot w2 = Some e' \<and> e_names e' = Some b)"
    using assms(1-3) by (simp add: w2_def)
  moreover have "validated (fst (run (engine_step lib) v (replicate n NetworkHint))) = (\<not> b) \<and>
      (\<exists>e'. slot (fst (run (engine_step lib) v (replicate n NetworkHint))) = Some e' \<and> e_names e' = Some b)"
    if "validated v = (\<not> b) \<and> (\<exists>e'. slot v = Some e' \<and> e_names e' = Some b)" for v
    using that
  proof (induction n arbitrary: v)
    case (Suc n)
    have "validated (fst (engine_step lib v NetworkHint)) = (\<not> b) \<and>
      (\<exists>e'. slot (fst (engine_step lib v NetworkHint)) = Some e' \<and> e_names e' = Some b)"
      using Suc.prems by auto
    then show ?case using Suc.IH [of "fst (engine_step lib v NetworkHint)"] by (simp del: engine_step.simps)
  qed simp
  ultimately show ?thesis
    unfolding run_append w2_def [symmetric] by simp
qed

section \<open>A start that fails half way\<close>

text \<open>
  When the last of the pump's threads cannot be started, \<open>start\<close> reports the error and
  closes the fd, but the reader and the writer it had started go on using that fd, and the
  node goes on too: the next start runs beside it.
\<close>
theorem bridge_failure_leaves_threads:
  assumes "slot w = None" and "installing w = None" and "\<not> starting w"
    and "o_json obs = Inr c" and "to_fips_config lib c = Inr g" and "o_node_init obs = None" and "o_thread obs = None"
    and "o_ready obs = Ready" and "o_dup obs = Inr fd" and "fd \<notin> set (open_fds w)" and "o_forwarder obs = None"
    and "o_pump obs = BridgeFailed m"
  shows "\<exists>w'. engine_step lib w (Start json obs) = (w', Result (Some (ascii ''spawn pump: '' @ m))) \<and>
    open_fds w' = open_fds w \<and> fd \<in> set (using_fds w') \<and> fd \<notin> set (open_fds w') \<and>
    nodes w' = next_node w # nodes w \<and> installing w' = None \<and> slot w' = None \<and> \<not> starting w'"
  using assms
  by (simp add: start_locked_def start_inner_def start_threads_def node_up_def dup_fd_def close_fd_def Let_def)

section \<open>Witnesses\<close>

definition some_obs :: "nat \<Rightarrow> pump_spawn \<Rightarrow> start_obs" where
  "some_obs fd p =
     \<lparr>o_json = Inr some_config, o_node_init = None, o_thread = None, o_ready = Ready, o_dup = Inr fd,
      o_names_ok = True, o_forwarder = None, o_pump = p\<rparr>"

definition engine_on :: "nat \<Rightarrow> engine" where
  "engine_on fd =
     \<lparr>e_start = 0, e_node = 0, e_pump = Some fd, e_forwarder = True, e_fd = fd, e_config = ascii ''{}'',
      e_names = Some True, e_pokes = 0, e_flushes = 0\<rparr>"

definition building :: "nat \<Rightarrow> world" where
  "building fd =
     world_init\<lparr>starting := True, starts := 1, installing := Some (engine_on fd, False), open_fds := [fd],
       using_fds := [fd], nodes := [0], next_node := 1\<rparr>"

lemma start_some: "engine_step some_lib world_init (Start (ascii ''{}'') (some_obs fd PumpUp)) = (building fd, Result None)"
  using some_config_ok
  by (auto simp: start_locked_def start_inner_def start_threads_def some_obs_def node_up_def dup_fd_def
      building_def engine_on_def world_init_def Let_def)
    (simp_all add: some_config_def config_defaults_def default_true_def)

definition started :: "nat \<Rightarrow> world" where
  "started fd = (building fd)\<lparr>slot := Some (engine_on fd), installing := None, starting := False\<rparr>"

lemma install_some: "engine_step lib (building fd) Install = (started fd, Result None)"
  by (simp add: building_def started_def world_init_def)

lemma started_run:
  "fst (run (engine_step some_lib) world_init [Start (ascii ''{}'') (some_obs fd PumpUp), Install]) = started fd"
  by (simp add: start_some install_some case_prod_beta del: engine_step.simps)

lemmas started_defs = started_def building_def engine_on_def world_init_def current_def

definition swap_obs :: "nat \<Rightarrow> rebind_obs" where
  "swap_obs fd = \<lparr>b_dup = Inr fd, b_swap = Swapped, b_join = True, b_start = some_obs fd PumpUp\<rparr>"

theorem engine_owns_its_fds_witness:
  "open_fds (fst (run (engine_step some_lib) world_init [Start (ascii ''{}'') (some_obs 7 PumpUp), Install])) = [7]"
  using engine_owns_its_fds [of some_lib "[Start (ascii ''{}'') (some_obs 7 PumpUp), Install]"]
  unfolding started_run by (simp add: started_defs)


theorem rebind_outcome_witness:
  "\<exists>w'. rebuild some_lib None (swap_obs 9) (started 7) = (w', None) \<and> kept (engine_on 7) (started 7) w'"
proof -
  obtain w' r where re: "rebuild some_lib None (swap_obs 9) (started 7) = (w', r)" by fastforce
  have s: "slot (started 7) = Some (engine_on 7)" by (simp add: started_def)
  have w': "r = None \<and> \<not> bad_dup w'"
    using re by (auto simp: rebuild_def swap_tun_locked_def started_def building_def world_init_def swap_obs_def
        engine_on_def Let_def)
  have ok: "engine_ok (started 7)" and "\<not> bad_dup (started 7)"
    by (simp_all add: engine_ok_def fds_ok_def started_def building_def world_init_def current_def engine_on_def)
  then show ?thesis
    using rebind_outcome [OF ok s re] re w' by (auto simp: swap_obs_def Let_def)
qed

theorem late_rebind_is_dropped_witness:
  "engine_step some_lib (world_init\<lparr>rebinding := Some (5, None)\<rparr>) (NetworkChanged 6 (Some [])) =
     (world_init\<lparr>rebinding := Some (5, None)\<rparr>, Coalesced)"
  by (rule late_rebind_is_dropped) simp


theorem names_flag_lost_in_window_witness:
  "\<exists>w' e'. fst (run (engine_step some_lib) (building 7) ([NamesOnline False, Install] @ replicate 3 NetworkHint)) = w' \<and>
     validated w' = False \<and> slot w' = Some e' \<and> e_names e' = Some True"
  using names_flag_lost_in_window [of "building 7" "engine_on 7" False True some_lib 3]
  by (simp add: building_def world_init_def engine_on_def del: run.simps)

theorem bridge_failure_leaves_threads_witness:
  "\<exists>w'. fst (engine_step some_lib world_init (Start [] (some_obs 7 (BridgeFailed [])))) = w' \<and>
     7 \<in> set (using_fds w') \<and> 7 \<notin> set (open_fds w')"
proof -
  obtain g where g: "to_fips_config some_lib some_config = Inr g" using some_config_ok by blast
  have "\<exists>w'. engine_step some_lib world_init (Start [] (some_obs 7 (BridgeFailed []))) =
      (w', Result (Some (ascii ''spawn pump: '' @ []))) \<and> open_fds w' = open_fds world_init \<and>
      7 \<in> set (using_fds w') \<and> 7 \<notin> set (open_fds w') \<and> nodes w' = next_node world_init # nodes world_init \<and>
      installing w' = None \<and> slot w' = None \<and> \<not> starting w'"
    by (rule bridge_failure_leaves_threads [OF _ _ _ _ g]) (simp_all add: world_init_def some_obs_def)
  then show ?thesis by (auto simp del: engine_step.simps)
qed

section \<open>The sentinel and the worker caps\<close>

text \<open>The sentinel reads \<open>fd00::53\<close>: Kotlin's side and the pump's name the same address.\<close>
lemma dns_server_string_value: "dns_server_string = ascii ''fd00::53''"
proof -
  have "[0..<8] = [0, 1, 2, 3, 4, 5, 6, 7 :: nat]" by (simp add: upt_rec)
  then have "segments DNS_SENTINEL = [64768, 0, 0, 0, 0, 0, 0, 83]"
    by (simp add: segments_def DNS_SENTINEL_def)
  moreover have "show_hex 64768 = ascii ''fd00''" "show_hex 83 = ascii ''53''"
    by (simp_all add: show_radix.simps digit_def ascii_def)
  ultimately show ?thesis
    by (simp add: dns_server_string_def show_ipv6_def zero_run_def) (simp add: DNS_SENTINEL_def ascii_def)
qed

text \<open>The caps are set, unless the environment sets its own.\<close>
lemma worker_caps:
  "apply_worker_thread_caps n env k =
     (if k \<in> set worker_keys \<and> env k = None then Some (show_dec n) else env k)"
proof -
  have "ascii ''FIPS_ENCRYPT_WORKERS'' \<noteq> ascii ''FIPS_DECRYPT_WORKERS''" by (simp add: ascii_def)
  then show ?thesis by (auto simp: apply_worker_thread_caps_def worker_keys_def)
qed

end
