(* ===== verification/Shutdown.thy ===== *)
theory Shutdown
  imports Engine
begin

text \<open>
  How long a disconnect and the start of the node take: the waits of \<open>Pump::join\<close> and \<open>Pump::swap_fd\<close> (\<open>pump.rs\<close>),
  \<open>Forwarder::join\<close> and its thread's last lines (\<open>forward.rs\<close>), the end of the node thread,
  \<open>stop_locked\<close> and the wait of \<open>start_inner\<close> for its node (\<open>engine.rs\<close>). A thread shows that it is done by a marker on a channel; when
  it does is observed. The code between two waits takes no time, and a wait with a timeout ends
  at the signal or when the timeout is over. A join of a thread that sent its marker takes no
  time, since the marker is its last statement.
\<close>

section \<open>Waiting with a timeout\<close>

text \<open>What happens on a marker channel, and when.\<close>
datatype signal = Marker instant | Hangup instant | Silence

datatype received = GotMarker | HungUp | TimedOut

definition recv_timeout :: "instant \<Rightarrow> nat \<Rightarrow> signal \<Rightarrow> received \<times> instant" where
  "recv_timeout now left s =
     (case s of
        Marker t \<Rightarrow> if t \<le> now + left then (GotMarker, max now t) else (TimedOut, now + left)
      | Hangup t \<Rightarrow> if t \<le> now + left then (HungUp, max now t) else (TimedOut, now + left)
      | Silence \<Rightarrow> (TimedOut, now + left))"

text \<open>The loop of \<open>stop_io\<close>: whether every marker came, and the time then.\<close>
fun await_markers :: "instant \<Rightarrow> instant \<Rightarrow> signal list \<Rightarrow> bool \<times> instant" where
  "await_markers deadline now [] = (True, now)"
| "await_markers deadline now (s # ss) =
     (let left = deadline - now in
      if left = 0 then (False, now)
      else
        (case recv_timeout now left s of
           (GotMarker, now) \<Rightarrow> await_markers deadline now ss
         | (_, now) \<Rightarrow> (False, now)))"

section \<open>The pump\<close>

definition JOIN_TIMEOUT :: nat where "JOIN_TIMEOUT = seconds 5"
definition SWAP_TIMEOUT :: nat where "SWAP_TIMEOUT = seconds 2"

text \<open>\<open>stop_io\<close>: the reader and the writer share the channel, so the signals are the first and the second.\<close>
definition stop_io_wait :: "instant \<Rightarrow> nat \<Rightarrow> signal \<times> signal \<Rightarrow> bool \<times> instant" where
  "stop_io_wait now timeout s = await_markers (now + timeout) now [fst s, snd s]"

text \<open>\<open>Pump::join\<close>: whether the reader and the writer were joined, whether the bridge was, the time.\<close>
definition pump_join :: "(signal \<times> signal) option \<Rightarrow> signal \<Rightarrow> instant \<Rightarrow> bool \<times> bool \<times> instant" where
  "pump_join io bridge now =
     (let deadline = now + JOIN_TIMEOUT;
          (joined, now) = (case io of Some s \<Rightarrow> stop_io_wait now JOIN_TIMEOUT s | None \<Rightarrow> (False, now));
          left = deadline - now
      in if left = 0 then (joined, False, now)
         else
           (case recv_timeout now left bridge of
              (GotMarker, now) \<Rightarrow> (joined, True, now)
            | (_, now) \<Rightarrow> (joined, False, now)))"

section \<open>The runtimes of the forwarder and of the node\<close>

text \<open>
  \<open>shutdown_timeout\<close> of two seconds, after \<open>block_on\<close>: it ends when the last straggler of the
  blocking pool does, if one does.
\<close>
definition shutdown_timeout :: "instant \<Rightarrow> instant option \<Rightarrow> instant" where
  "shutdown_timeout now stragglers =
     (case stragglers of None \<Rightarrow> now + seconds 2 | Some t \<Rightarrow> max now (min t (now + seconds 2)))"

text \<open>
  The forwarder's thread: no runtime, \<open>run\<close> that returns at an instant, or one that does not;
  a thread that ends before its last line hangs up.
\<close>
datatype forwarder_run = NoRuntime instant | Returns instant "instant option" | Stuck

definition forwarder_signal :: "forwarder_run \<Rightarrow> signal" where
  "forwarder_signal r =
     (case r of
        NoRuntime t \<Rightarrow> Hangup t
      | Returns t stragglers \<Rightarrow> Marker (shutdown_timeout t stragglers)
      | Stuck \<Rightarrow> Silence)"

definition forwarder_join :: "signal \<Rightarrow> instant \<Rightarrow> bool \<times> instant" where
  "forwarder_join s now =
     (case recv_timeout now (seconds 3) s of
        (TimedOut, now) \<Rightarrow> (False, now)
      | (_, now) \<Rightarrow> (True, now))"

section \<open>The stop\<close>

text \<open>\<open>n_drained\<close>: when the node's \<open>finish_shutdown\<close> returns, which ends its \<open>block_on\<close>.\<close>
record stop_obs =
  n_io :: "signal \<times> signal"
  n_bridge :: signal
  n_forwarder :: forwarder_run
  n_drained :: "instant option"
  n_stragglers :: "instant option"

text \<open>\<open>stop_locked\<close> on the clock: the state it leaves and when it returns, \<open>None\<close> while it does not.\<close>
definition timed_stop :: "stop_obs \<Rightarrow> instant \<Rightarrow> world \<Rightarrow> (world \<times> instant) option" where
  "timed_stop obs now w =
     (case slot w of
        None \<Rightarrow> Some (stop_locked True w, now)
      | Some e \<Rightarrow>
          (let (joined, _, now) = pump_join (case e_pump e of Some _ \<Rightarrow> Some (n_io obs) | None \<Rightarrow> None) (n_bridge obs) now;
               now = (if e_forwarder e then snd (forwarder_join (forwarder_signal (n_forwarder obs)) now) else now)
           in map_option (\<lambda>d. (stop_locked joined w, max now (shutdown_timeout d (n_stragglers obs)))) (n_drained obs)))"

section \<open>The start of the node\<close>

definition START_TIMEOUT :: nat where "START_TIMEOUT = seconds 60"

text \<open>
  The node thread up to its answer: no runtime, a \<open>start\<close> that fails or succeeds at an instant, one that
  does not return, a panic, with when the thread is gone then.
\<close>
datatype node_run =
  RuntimeFailed instant rust_string
| StartFailed instant rust_string
| StartHangs
| Panicked instant instant
| Started instant

definition node_signal :: "node_run \<Rightarrow> signal" where
  "node_signal r =
     (case r of
        RuntimeFailed t e \<Rightarrow> Marker t
      | StartFailed t e \<Rightarrow> Marker t
      | StartHangs \<Rightarrow> Silence
      | Panicked t _ \<Rightarrow> Hangup t
      | Started t \<Rightarrow> Marker t)"

definition node_answer :: "node_run \<Rightarrow> ready" where
  "node_answer r =
     (case r of
        RuntimeFailed _ e \<Rightarrow> ReadyError (ascii ''tokio runtime: '' @ e)
      | StartFailed _ e \<Rightarrow> ReadyError (ascii ''node start: '' @ e)
      | _ \<Rightarrow> Ready)"

text \<open>When the thread of a node that did not start is gone.\<close>
definition node_gone :: "node_run \<Rightarrow> instant option \<Rightarrow> instant" where
  "node_gone r stragglers =
     (case r of
        RuntimeFailed t _ \<Rightarrow> t
      | StartFailed t _ \<Rightarrow> shutdown_timeout t stragglers
      | Panicked _ u \<Rightarrow> u
      | _ \<Rightarrow> 0)"

text \<open>The wait for the answer, with the join of a thread that is not going to serve.\<close>
definition await_ready :: "node_run \<Rightarrow> instant option \<Rightarrow> instant \<Rightarrow> ready \<times> instant" where
  "await_ready r stragglers now =
     (case recv_timeout now START_TIMEOUT (node_signal r) of
        (GotMarker, now) \<Rightarrow>
          (case node_answer r of
             Ready \<Rightarrow> (Ready, now)
           | e \<Rightarrow> (e, max now (node_gone r stragglers)))
      | (HungUp, now) \<Rightarrow> (ReadyDied, max now (node_gone r stragglers))
      | (TimedOut, now) \<Rightarrow> (ReadyTimeout, now))"

section \<open>Bounds\<close>

lemma recv_timeout_within:
  assumes "recv_timeout now left s = (r, t)"
  shows "now \<le> t" and "t \<le> now + left"
  using assms by (auto simp: recv_timeout_def split: signal.splits if_splits)

lemma recv_timeout_marker: "recv_timeout now left s = (GotMarker, t) \<Longrightarrow> \<exists>u\<le>t. s = Marker u"
  by (auto simp: recv_timeout_def split: signal.splits if_splits)

lemma await_markers_within:
  assumes "await_markers deadline now ss = (b, t)" and "now \<le> deadline"
  shows "now \<le> t \<and> t \<le> deadline"
  using assms
proof (induction ss arbitrary: now)
  case (Cons s ss)
  obtain r u where r: "recv_timeout now (deadline - now) s = (r, u)" by fastforce
  have "now \<le> u" "u \<le> deadline" using recv_timeout_within [OF r] Cons.prems(2) by auto
  then show ?case using Cons.IH [of u] Cons.prems r by (cases r) (auto simp: Let_def split: if_splits)
qed simp

lemma await_markers_joined:
  "await_markers deadline now ss = (True, t) \<Longrightarrow> now \<le> deadline \<Longrightarrow> \<forall>s\<in>set ss. \<exists>u\<le>t. s = Marker u"
proof (induction ss arbitrary: now)
  case (Cons s ss)
  obtain r u where r: "recv_timeout now (deadline - now) s = (r, u)" by fastforce
  have left: "deadline - now \<noteq> 0" and got: "r = GotMarker" and rest: "await_markers deadline u ss = (True, t)"
    using Cons.prems(1) r by (cases r; auto simp: Let_def split: if_splits)+
  have "u \<le> deadline" using recv_timeout_within(2) [OF r] Cons.prems(2) by auto
  then have "u \<le> t" using await_markers_within [OF rest] by simp
  then show ?case
    using recv_timeout_marker [OF r [unfolded got]] Cons.IH [OF rest \<open>u \<le> deadline\<close>] by fastforce
qed simp

lemma await_markers_prompt:
  "\<forall>s\<in>set ss. \<exists>u<deadline. s = Marker u \<Longrightarrow> now < deadline \<Longrightarrow> fst (await_markers deadline now ss)"
proof (induction ss arbitrary: now)
  case (Cons s ss)
  then obtain u where "u < deadline" "s = Marker u" by auto
  then show ?case using Cons by (auto simp: Let_def recv_timeout_def)
qed simp

lemma stop_io_within:
  assumes "stop_io_wait now timeout s = (joined, t)"
  shows "now \<le> t \<and> t \<le> now + timeout"
    and "joined \<Longrightarrow> (\<exists>u\<le>t. fst s = Marker u) \<and> (\<exists>u\<le>t. snd s = Marker u)"
proof -
  have a: "await_markers (now + timeout) now [fst s, snd s] = (joined, t)"
    using assms by (simp add: stop_io_wait_def)
  show "now \<le> t \<and> t \<le> now + timeout" by (rule await_markers_within [OF a]) simp
  show "(\<exists>u\<le>t. fst s = Marker u) \<and> (\<exists>u\<le>t. snd s = Marker u)" if joined
    using await_markers_joined [of "now + timeout" now "[fst s, snd s]" t] a that by simp
qed

lemma pump_join_within:
  assumes "pump_join io bridge now = (joined, b, t)"
  shows "now \<le> t \<and> t \<le> now + JOIN_TIMEOUT"
proof -
  obtain j u where u: "(case io of Some s \<Rightarrow> stop_io_wait now JOIN_TIMEOUT s | None \<Rightarrow> (False, now)) = (j, u)"
    by fastforce
  have le: "now \<le> u \<and> u \<le> now + JOIN_TIMEOUT"
    using u stop_io_within(1) [of now JOIN_TIMEOUT _ j u] by (auto split: option.splits)
  obtain r v where r: "recv_timeout u (now + JOIN_TIMEOUT - u) bridge = (r, v)" by fastforce
  show ?thesis using assms u r recv_timeout_within [OF r] le by (cases r) (auto simp: pump_join_def Let_def split: if_splits)
qed

lemma pump_join_joined:
  assumes "pump_join (Some s) bridge now = (True, b, t)"
  shows "(\<exists>u\<le>t. fst s = Marker u) \<and> (\<exists>u\<le>t. snd s = Marker u)"
proof -
  obtain j u where u: "stop_io_wait now JOIN_TIMEOUT s = (j, u)" by fastforce
  obtain r v where r: "recv_timeout u (now + JOIN_TIMEOUT - u) bridge = (r, v)" by fastforce
  have "j \<and> u \<le> t" using assms u r recv_timeout_within(1) [OF r] by (cases r) (auto simp: pump_join_def Let_def split: if_splits)
  then show ?thesis using stop_io_within(2) [OF u] order_trans by blast
qed

lemma pump_join_flag:
  "fst (pump_join io bridge now) = (case io of Some s \<Rightarrow> fst (stop_io_wait now JOIN_TIMEOUT s) | None \<Rightarrow> False)"
  by (auto simp: pump_join_def Let_def split: option.splits prod.splits received.splits)

lemma shutdown_timeout_within: "t \<le> shutdown_timeout t s \<and> shutdown_timeout t s \<le> t + seconds 2"
  by (auto simp: shutdown_timeout_def split: option.splits)

lemma forwarder_join_within: "now \<le> snd (forwarder_join s now) \<and> snd (forwarder_join s now) \<le> now + seconds 3"
proof -
  obtain r u where r: "recv_timeout now (seconds 3) s = (r, u)" by fastforce
  show ?thesis using recv_timeout_within [OF r] r by (cases r) (auto simp: forwarder_join_def)
qed

text \<open>A forwarder that returns within a second of the shutdown notice is joined, never abandoned.\<close>
lemma forwarder_joined:
  assumes "t \<le> now + seconds 1"
  shows "fst (forwarder_join (forwarder_signal (Returns t stragglers)) now)"
  using assms shutdown_timeout_within [of t stragglers] by (auto simp: forwarder_join_def forwarder_signal_def recv_timeout_def)

text \<open>A swap waits two seconds at most; joined, both threads of the old fd are over.\<close>
lemma swap_wait:
  assumes "stop_io_wait now SWAP_TIMEOUT s = (joined, t)"
  shows "t \<le> now + seconds 2" and "joined \<Longrightarrow> (\<exists>u\<le>t. fst s = Marker u) \<and> (\<exists>u\<le>t. snd s = Marker u)"
  using stop_io_within [OF assms] by (simp_all add: SWAP_TIMEOUT_def)

text \<open>
  A start waits at most a minute for its node, and two seconds more for the thread of one that
  failed; it gives up on the node only when a minute has passed without an answer.
\<close>
theorem start_wait_bounded:
  assumes "\<forall>t u. r \<noteq> Panicked t u" and "await_ready r stragglers now = (ans, t)"
  shows "t \<le> now + seconds 62 \<and>
    (ans = ReadyTimeout \<longleftrightarrow> (\<forall>u. node_signal r = Marker u \<longrightarrow> now + seconds 60 < u)) \<and>
    (ans = Ready \<longrightarrow> (\<exists>u. r = Started u \<and> t = max now u))"
proof (cases r)
  case (StartFailed u e)
  then show ?thesis
    using assms(2) shutdown_timeout_within [of u stragglers]
    by (auto simp: await_ready_def node_signal_def node_answer_def node_gone_def recv_timeout_def START_TIMEOUT_def split: if_splits)
qed (use assms in \<open>auto simp: await_ready_def node_signal_def node_answer_def node_gone_def recv_timeout_def
    START_TIMEOUT_def split: if_splits\<close>)

section \<open>Properties\<close>


section \<open>Witness\<close>

text \<open>A writer, a bridge and a forwarder that hang, and a node that drains in two seconds.\<close>
definition hung :: stop_obs where
  "hung = \<lparr>n_io = (Marker 1, Silence), n_bridge = Silence, n_forwarder = Stuck, n_drained = Some (seconds 2),
     n_stragglers = None\<rparr>"

definition running_world :: world where
  "running_world = world_init\<lparr>slot := Some \<lparr>e_start = 0, e_node = 0, e_pump = Some 7, e_forwarder = True, e_fd = 7,
     e_config = [], e_names = None, e_pokes = 0, e_flushes = 0\<rparr>, open_fds := [7], using_fds := [7], nodes := [0], next_node := 1\<rparr>"


end
