(* ===== verification/Forward.thy ===== *)
theory Forward
  imports RustNet
begin

text \<open>
  \<open>shim/src/forward.rs\<close>: the userspace forwarder for traffic that is not of the mesh. The
  device through which \<open>ipstack\<close> reads the pump's packets and writes its own; the accept
  loop with its two ways to be stopped; one forwarded TCP connection and one UDP flow. The
  stack, the sockets and the clock are observed.
\<close>

section \<open>The device\<close>

text \<open>
  The channel from the pump (its content and whether a sender is left), the packet being
  read and the position in it, and what went to the writer of the TUN.
\<close>
record device =
  inbound :: "bytes list"
  inbound_open :: bool
  leftover :: bytes
  pos :: nat
  to_tun :: "bytes list"

definition device_init :: device where
  "device_init = \<lparr>inbound = [], inbound_open = True, leftover = [], pos = 0, to_tun = []\<rparr>"

datatype polled = Data bytes | Closed | Pending

text \<open>\<open>poll_read\<close> into a buffer with so many bytes free.\<close>
definition poll_read :: "nat \<Rightarrow> device \<Rightarrow> device \<times> polled" where
  "poll_read room s =
     (if pos s < length (leftover s) then
        (let n = min room (length (leftover s) - pos s); start = pos s
         in (s\<lparr>pos := start + n\<rparr>, Data (take n (drop start (leftover s)))))
      else
        (case inbound s of
           packet # rest \<Rightarrow>
             (let n = min room (length packet); s = s\<lparr>inbound := rest\<rparr>
              in (if n < length packet then s\<lparr>leftover := packet, pos := n\<rparr> else s, Data (take n packet)))
         | [] \<Rightarrow> (s, if inbound_open s then Pending else Closed)))"

text \<open>\<open>poll_write\<close>: the number of bytes it reports.\<close>
definition poll_write :: "bytes \<Rightarrow> device \<Rightarrow> device \<times> nat" where
  "poll_write buf s = (s\<lparr>to_tun := to_tun s @ [buf]\<rparr>, length buf)"

text \<open>The pump's side of the channel, and the stack's calls.\<close>
datatype device_event = Feed bytes | Hang_up | Read nat | Write bytes

fun device_step :: "device \<Rightarrow> device_event \<Rightarrow> device \<times> polled option" where
  "device_step s (Feed packet) =
     (if inbound_open s then (s\<lparr>inbound := inbound s @ [packet]\<rparr>, None) else (s, None))"
| "device_step s Hang_up = (s\<lparr>inbound_open := False\<rparr>, None)"
| "device_step s (Read room) = (let (s, p) = poll_read room s in (s, Some p))"
| "device_step s (Write buf) = (fst (poll_write buf s), None)"

section \<open>A byte stream\<close>

text \<open>What is still to be read.\<close>
definition unread :: "device \<Rightarrow> bytes" where
  "unread s = drop (pos s) (leftover s) @ concat (inbound s)"

fun read_bytes :: "polled option list \<Rightarrow> bytes" where
  "read_bytes [] = []"
| "read_bytes (Some (Data b) # ps) = b @ read_bytes ps"
| "read_bytes (p # ps) = read_bytes ps"

text \<open>What the pump got into the channel, before it hung up.\<close>
fun fed :: "bool \<Rightarrow> device_event list \<Rightarrow> bytes list" where
  "fed alive [] = []"
| "fed alive (Feed p # es) = (if alive then p # fed alive es else fed alive es)"
| "fed alive (Hang_up # es) = fed False es"
| "fed alive (e # es) = fed alive es"

fun written :: "device_event list \<Rightarrow> bytes list" where
  "written [] = []"
| "written (Write b # es) = b # written es"
| "written (e # es) = written es"

lemma drop_split: "drop a xs = take n (drop a xs) @ drop (a + n) xs"
  by (metis append_take_drop_id drop_drop add.commute)

lemma poll_read_unread:
  "unread s = (case snd (poll_read room s) of Data b \<Rightarrow> b | _ \<Rightarrow> []) @ unread (fst (poll_read room s))"
  using drop_split [of "pos s" "leftover s"]
  by (simp add: poll_read_def unread_def Let_def split: list.split)

lemma poll_read_size: "snd (poll_read room s) = Data b \<Longrightarrow> length b \<le> room"
  by (auto simp: poll_read_def Let_def split: if_splits list.splits)

text \<open>The device never waits or ends while there is something to read.\<close>
lemma poll_read_idle: "snd (poll_read room s) \<in> {Pending, Closed} \<Longrightarrow> unread s = []"
  by (auto simp: poll_read_def unread_def Let_def split: if_splits list.splits)

lemma poll_read_frame:
  "inbound_open (fst (poll_read room s)) = inbound_open s" "to_tun (fst (poll_read room s)) = to_tun s"
  by (auto simp: poll_read_def Let_def split: list.split)

text \<open>
  C24. The device is one byte stream in each direction. Whatever the pump and the stack do in
  whatever order and with whatever buffers, the bytes the stack has read followed by those
  it has not are the packets the pump fed before hanging up, in order, none lost, repeated
  or torn; and what the stack wrote went to the TUN, packet by packet.
\<close>
theorem device_is_a_stream:
  "read_bytes (snd (run device_step s es)) @ unread (fst (run device_step s es)) =
     unread s @ concat (fed (inbound_open s) es) \<and>
   to_tun (fst (run device_step s es)) = to_tun s @ written es"
proof (induction es arbitrary: s)
  case (Cons e es)
  show ?case
  proof (cases e)
    case (Feed p)
    then show ?thesis
      using Cons.IH [of "s\<lparr>inbound := inbound s @ [p]\<rparr>"] Cons.IH [of s] by (auto simp: unread_def)
  next
    case Hang_up
    then show ?thesis using Cons.IH [of "s\<lparr>inbound_open := False\<rparr>"] by (simp add: unread_def)
  next
    case (Read room)
    obtain s' p where p: "poll_read room s = (s', p)" by fastforce
    show ?thesis
      using Cons.IH [of s'] poll_read_unread [of s room] poll_read_frame [of room s] p
      by (cases p) (auto simp: Read)
  next
    case (Write b)
    then show ?thesis using Cons.IH [of "s\<lparr>to_tun := to_tun s @ [b]\<rparr>"] by (simp add: poll_write_def unread_def)
  qed
qed (simp add: unread_def)

text \<open>
  A stack whose buffer has room for every packet reads them one at a time and whole.
\<close>
lemma reads_whole_packets:
  assumes "pos s = length (leftover s) \<or> leftover s = []" and "\<forall>p\<in>set (inbound s). length p \<le> room"
    and "n \<le> length (inbound s)"
  shows "snd (run device_step s (replicate n (Read room))) = map (\<lambda>p. Some (Data p)) (take n (inbound s))"
  using assms
proof (induction n arbitrary: s)
  case (Suc n)
  then obtain p q where i: "inbound s = p # q" by (cases "inbound s") auto
  have "poll_read room s = (s\<lparr>inbound := q\<rparr>, Data p)" using Suc.prems i by (auto simp: poll_read_def Let_def)
  then show ?case using Suc.IH [of "s\<lparr>inbound := q\<rparr>"] Suc.prems i by simp
qed simp

section \<open>The accept loop\<close>

text \<open>The thread building its runtime, at the head of the loop, in \<open>select!\<close>, or past the loop.\<close>
datatype loop_phase = Building | Head | Selecting | Over
datatype join_phase = Owned | Joining | Joined | Abandoned

text \<open>
  The engine's flag, the permit that \<open>notify_one\<close> stores, the loop, whether the thread has
  ended, and how many flows were taken up since the flag was cleared; whether \<open>join\<close> or the
  drop has signalled, and how far \<open>join\<close> is.
\<close>
record forwarder =
  f_running :: bool
  f_permit :: bool
  f_phase :: loop_phase
  f_late :: nat
  f_signalled :: bool
  f_done :: bool
  f_join :: join_phase

definition forwarder_init :: forwarder where
  "forwarder_init = \<lparr>f_running = True, f_permit = False, f_phase = Building, f_late = 0, f_signalled = False,
     f_done = False, f_join = Owned\<rparr>"

inductive forwarder_step :: "forwarder \<Rightarrow> forwarder \<Rightarrow> bool" where
  \<comment> \<open>the runtime, which may not be built\<close>
  built: "f_phase s = Building \<Longrightarrow> forwarder_step s (s\<lparr>f_phase := Head\<rparr>)"
| no_runtime: "f_phase s = Building \<Longrightarrow> forwarder_step s (s\<lparr>f_phase := Over\<rparr>)"
  \<comment> \<open>the loop: its test, a flow or something that is not forwarded, the device's end, the signal\<close>
| test_on: "f_phase s = Head \<Longrightarrow> f_running s \<Longrightarrow> forwarder_step s (s\<lparr>f_phase := Selecting\<rparr>)"
| test_off: "f_phase s = Head \<Longrightarrow> \<not> f_running s \<Longrightarrow> forwarder_step s (s\<lparr>f_phase := Over\<rparr>)"
| accepted: "f_phase s = Selecting \<Longrightarrow>
    forwarder_step s (s\<lparr>f_phase := Head, f_late := f_late s + (if f_running s then 0 else 1)\<rparr>)"
| device_closed: "f_phase s = Selecting \<Longrightarrow> forwarder_step s (s\<lparr>f_phase := Over\<rparr>)"
| notified: "f_phase s = Selecting \<Longrightarrow> f_permit s \<Longrightarrow> forwarder_step s (s\<lparr>f_phase := Over, f_permit := False\<rparr>)"
| thread_ends: "f_phase s = Over \<Longrightarrow> forwarder_step s (s\<lparr>f_done := True\<rparr>)"
  \<comment> \<open>the engine: the flag, \<open>join\<close> and the drop\<close>
| flag_cleared: "forwarder_step s (s\<lparr>f_running := False\<rparr>)"
| join_begins: "f_join s = Owned \<Longrightarrow>
    forwarder_step s (s\<lparr>f_permit := True, f_signalled := True, f_join := Joining\<rparr>)"
| joined: "f_join s = Joining \<Longrightarrow> f_done s \<Longrightarrow> forwarder_step s (s\<lparr>f_join := Joined\<rparr>)"
| gave_up: "f_join s = Joining \<Longrightarrow> forwarder_step s (s\<lparr>f_join := Abandoned\<rparr>)"
| dropped: "forwarder_step s (s\<lparr>f_permit := True, f_signalled := True\<rparr>)"

inductive_cases forwarder_stepE: "forwarder_step s s'"

definition forwarder_ok :: "forwarder \<Rightarrow> bool" where
  "forwarder_ok s \<longleftrightarrow>
     (f_signalled s \<longrightarrow> f_permit s \<or> f_phase s = Over) \<and> f_late s \<le> 1 \<and>
     (f_phase s = Selecting \<and> \<not> f_running s \<longrightarrow> f_late s = 0) \<and> (f_running s \<longrightarrow> f_late s = 0) \<and>
     (f_join s \<noteq> Owned \<longrightarrow> f_signalled s) \<and> (f_done s \<longrightarrow> f_phase s = Over) \<and> (f_join s = Joined \<longrightarrow> f_done s)"

lemma forwarder_ok_step: "forwarder_step s s' \<Longrightarrow> forwarder_ok s \<Longrightarrow> forwarder_ok s'"
  by (erule forwarder_stepE) (auto simp: forwarder_ok_def)

interpretation fwd: transitions forwarder_init forwarder_step forwarder_ok
  by unfold_locales (simp add: forwarder_ok_def forwarder_init_def, rule forwarder_ok_step)

text \<open>Once it is signalled, the thread's own steps take it past its loop.\<close>
lemma head_ends:
  assumes h: "f_phase s = Head" and p: "f_permit s"
  shows "\<exists>s'. forwarder_step\<^sup>*\<^sup>* s s' \<and> f_phase s' = Over \<and> f_late s' = f_late s \<and> f_join s' = f_join s"
proof (cases "f_running s")
  case True
  have "forwarder_step s (s\<lparr>f_phase := Selecting\<rparr>)" by (rule forwarder_step.test_on [OF h True])
  moreover have "forwarder_step (s\<lparr>f_phase := Selecting\<rparr>) (s\<lparr>f_phase := Over, f_permit := False\<rparr>)"
    using forwarder_step.notified [of "s\<lparr>f_phase := Selecting\<rparr>"] p by simp
  ultimately have "forwarder_step\<^sup>*\<^sup>* s (s\<lparr>f_phase := Over, f_permit := False\<rparr>)" by simp
  then show ?thesis by (rule exI [where x = "s\<lparr>f_phase := Over, f_permit := False\<rparr>", OF conjI]) simp
next
  case False
  then have "forwarder_step\<^sup>*\<^sup>* s (s\<lparr>f_phase := Over\<rparr>)" using forwarder_step.test_off [OF h] by blast
  then show ?thesis by (rule exI [where x = "s\<lparr>f_phase := Over\<rparr>", OF conjI]) simp
qed

lemma reaches_end:
  assumes ok: "forwarder_ok s" and sig: "f_signalled s"
  shows "\<exists>s'. forwarder_step\<^sup>*\<^sup>* s s' \<and> f_phase s' = Over \<and> f_late s' = f_late s \<and> f_join s' = f_join s"
proof (cases "f_phase s")
  case Building
  then have "forwarder_step s (s\<lparr>f_phase := Head\<rparr>)" by (rule forwarder_step.built)
  moreover have "f_permit s" using ok sig Building by (simp add: forwarder_ok_def)
  then obtain s' where "forwarder_step\<^sup>*\<^sup>* (s\<lparr>f_phase := Head\<rparr>) s'" "f_phase s' = Over" "f_late s' = f_late s" "f_join s' = f_join s"
    using head_ends [of "s\<lparr>f_phase := Head\<rparr>"] by auto
  ultimately show ?thesis by (meson converse_rtranclp_into_rtranclp)
next
  case Head
  then show ?thesis using head_ends [OF Head] ok sig by (simp add: forwarder_ok_def)
next
  case Selecting
  then have "forwarder_step\<^sup>*\<^sup>* s (s\<lparr>f_phase := Over, f_permit := False\<rparr>)"
    using ok sig forwarder_step.notified [OF Selecting] by (auto simp: forwarder_ok_def)
  then show ?thesis by (rule exI [where x = "s\<lparr>f_phase := Over, f_permit := False\<rparr>", OF conjI]) simp
next
  case Over
  then show ?thesis by blast
qed


section \<open>One flow\<close>

text \<open>What a flow does, in order; \<open>True\<close> for an IPv4 socket.\<close>
datatype flow_op =
    OpenSocket bool
  | ProtectSocket
  | ConnectTo socket_addr
  | CopyBoth
  | CloseApp
  | ToServer bytes
  | ToApp bytes

definition UDP_MAX_DATAGRAM :: nat where "UDP_MAX_DATAGRAM = 65535"

definition protect_fd :: "bool \<Rightarrow> flow_op list" where
  "protect_fd hook = (if hook then [ProtectSocket] else [])"

text \<open>The socket, the dial (\<open>Inl None\<close> is its timeout) and the copying.\<close>
record tcp_obs =
  to_socket :: "rust_string option"
  to_dial :: "rust_string option + unit"
  to_copy :: "rust_string option"

text \<open>\<open>forward_tcp\<close>, with \<open>close_app_side\<close> on every failure of the server's side.\<close>
definition forward_tcp :: "bool \<Rightarrow> socket_addr \<Rightarrow> tcp_obs \<Rightarrow> flow_op list \<times> (rust_string + unit)" where
  "forward_tcp hook dst obs =
     (let socket = [OpenSocket (is_ipv4 (sa_ip dst))]
      in case to_socket obs of
           Some e \<Rightarrow> (socket, Inl e)
         | None \<Rightarrow>
             (let ops = socket @ protect_fd hook @ [ConnectTo dst]
              in case to_dial obs of
                   Inl None \<Rightarrow> (ops @ [CloseApp], Inl (ascii ''connect timeout''))
                 | Inl (Some e) \<Rightarrow> (ops @ [CloseApp], Inl e)
                 | Inr () \<Rightarrow>
                     (case to_copy obs of
                        None \<Rightarrow> (ops @ [CopyBoth], Inr ())
                      | Some e \<Rightarrow> (ops @ [CopyBoth, CloseApp], Inl e))))"

text \<open>One turn of the UDP \<open>select!\<close>: a read of either side, and whether passing it on works.\<close>
datatype udp_turn =
    FromApp "rust_string + bytes" "rust_string option"
  | FromServer "rust_string + bytes" "rust_string option"

fun udp_relay :: "udp_turn list \<Rightarrow> flow_op list \<times> (rust_string + unit) option" where
  "udp_relay [] = ([], None)"
| "udp_relay (FromApp (Inl e) w # ts) = ([], Some (Inl e))"
| "udp_relay (FromApp (Inr d) w # ts) =
     (let d = take UDP_MAX_DATAGRAM d
      in if d = [] then ([], Some (Inr ()))
         else
           (case w of
              Some e \<Rightarrow> ([ToServer d], Some (Inl e))
            | None \<Rightarrow> (let (ops, r) = udp_relay ts in (ToServer d # ops, r))))"
| "udp_relay (FromServer (Inl e) w # ts) = ([], Some (Inl e))"
| "udp_relay (FromServer (Inr d) w # ts) =
     (let d = take UDP_MAX_DATAGRAM d
      in case w of
           Some e \<Rightarrow> ([ToApp d], Some (Inl e))
         | None \<Rightarrow> (let (ops, r) = udp_relay ts in (ToApp d # ops, r)))"

text \<open>\<open>forward_udp\<close>: the bind and the connect may fail; \<open>None\<close> while the flow goes on.\<close>
definition forward_udp ::
  "bool \<Rightarrow> socket_addr \<Rightarrow> rust_string option \<Rightarrow> rust_string option \<Rightarrow> udp_turn list \<Rightarrow>
   flow_op list \<times> (rust_string + unit) option" where
  "forward_udp hook dst bind_error connect_error ts =
     (let socket = [OpenSocket (is_ipv4 (sa_ip dst))]
      in case bind_error of
           Some e \<Rightarrow> (socket, Some (Inl e))
         | None \<Rightarrow>
             (let ops = socket @ protect_fd hook @ [ConnectTo dst]
              in case connect_error of
                   Some e \<Rightarrow> (ops, Some (Inl e))
                 | None \<Rightarrow> (let (more_ops, r) = udp_relay ts in (ops @ more_ops, r))))"

text \<open>A socket is connected only just after it was protected.\<close>
fun shielded :: "flow_op list \<Rightarrow> bool" where
  "shielded (ProtectSocket # ConnectTo d # r) = shielded r"
| "shielded (ConnectTo d # r) = False"
| "shielded (x # r) = shielded r"
| "shielded [] = True"

lemma udp_relay_ops: "udp_relay ts = (ops, r) \<Longrightarrow> \<forall>x\<in>set ops. \<exists>d. x = ToServer d \<or> x = ToApp d"
  by (induction ts arbitrary: ops r rule: udp_relay.induct)
    (auto simp: Let_def split: if_splits option.splits prod.splits)

lemma shielded_data: "\<forall>x\<in>set ops. \<exists>d. x = ToServer d \<or> x = ToApp d \<Longrightarrow> shielded ops"
  by (induction ops) auto

text \<open>
  Traffic that leaves the phone directly never loops back into the tunnel: every socket
  of a forwarded connection or flow is protected before it is connected, it is of the
  family of the destination, and it is connected to the destination the app dialled and to
  nothing else. And when the server's side of a TCP connection fails, at the dial, by its
  timeout or later, the app's side is closed, so that the app does not wait in vain.
\<close>
theorem forwarded_flows_protected:
  fixes dst :: socket_addr and obs :: tcp_obs and ts :: "udp_turn list" and bind_error connect_error :: "rust_string option"
  defines "tcp \<equiv> forward_tcp True dst obs" and "udp \<equiv> forward_udp True dst bind_error connect_error ts"
  shows "shielded (fst tcp) \<and> shielded (fst udp) \<and>
    (\<forall>x\<in>set (fst tcp) \<union> set (fst udp). \<forall>d v. (x = ConnectTo d \<longrightarrow> d = dst) \<and> (x = OpenSocket v \<longrightarrow> v = is_ipv4 (sa_ip dst))) \<and>
    (ConnectTo dst \<in> set (fst tcp) \<longrightarrow> (snd tcp = Inr ()) = (CloseApp \<notin> set (fst tcp)))"
proof -
  obtain ops r where u: "udp_relay ts = (ops, r)" by fastforce
  have "shielded ops" by (rule shielded_data [OF udp_relay_ops [OF u]])
  then have 1: "shielded (fst udp)"
    by (simp add: udp_def forward_udp_def u protect_fd_def Let_def split: option.split)
  have 2: "shielded (fst tcp) \<and> (ConnectTo dst \<in> set (fst tcp) \<longrightarrow> (snd tcp = Inr ()) = (CloseApp \<notin> set (fst tcp)))"
    by (simp add: tcp_def forward_tcp_def protect_fd_def Let_def split: option.split sum.split unit.split)
  have tcp: "\<forall>x\<in>set (fst tcp). P x"
    if "P (OpenSocket (is_ipv4 (sa_ip dst)))" "P ProtectSocket" "P (ConnectTo dst)" "P CopyBoth" "P CloseApp" for P
    using that by (simp add: tcp_def forward_tcp_def protect_fd_def Let_def split: option.split sum.split unit.split)
  have udp: "\<forall>x\<in>set (fst udp). P x"
    if "P (OpenSocket (is_ipv4 (sa_ip dst)))" "P ProtectSocket" "P (ConnectTo dst)" "\<forall>x\<in>set ops. P x" for P
    using that by (simp add: udp_def forward_udp_def u protect_fd_def Let_def split: option.split)
  define P where "P = (\<lambda>x. \<forall>d v. (x = ConnectTo d \<longrightarrow> d = dst) \<and> (x = OpenSocket v \<longrightarrow> v = is_ipv4 (sa_ip dst)))"
  have P: "P (OpenSocket (is_ipv4 (sa_ip dst)))" "P ProtectSocket" "P (ConnectTo dst)" "P CopyBoth" "P CloseApp" "\<forall>x\<in>set ops. P x"
    using udp_relay_ops [OF u] by (auto simp: P_def)
  have "\<forall>x\<in>set (fst tcp) \<union> set (fst udp). P x" using tcp [OF P(1-5)] udp [OF P(1-3,6)] by blast
  then show ?thesis using 1 2 unfolding P_def by blast
qed

section \<open>Datagrams\<close>

text \<open>
  Datagrams cross a flow in order, each once and whole, as long as neither side fails and
  the stack does not end the flow.
\<close>
lemma datagrams_cross:
  assumes "\<forall>t\<in>set ts. (\<exists>d. t = FromApp (Inr d) None \<and> d \<noteq> [] \<and> length d \<le> 65535) \<or>
    (\<exists>d. t = FromServer (Inr d) None \<and> length d \<le> 65535)"
  shows "udp_relay ts = (map (\<lambda>t. case t of FromApp (Inr d) _ \<Rightarrow> ToServer d | FromServer (Inr d) _ \<Rightarrow> ToApp d) ts, None)"
  using assms by (induction ts rule: udp_relay.induct) (auto simp: UDP_MAX_DATAGRAM_def Let_def)

section \<open>Witnesses\<close>

definition joining :: forwarder where
  "joining = forwarder_init\<lparr>f_permit := True, f_signalled := True, f_join := Joining\<rparr>"


definition some_dst :: socket_addr where "some_dst = \<lparr>sa_ip = V4 [192, 0, 2, 1], sa_port = 443\<rparr>"

definition dial_times_out :: tcp_obs where
  "dial_times_out = \<lparr>to_socket = None, to_dial = Inl None, to_copy = None\<rparr>"

theorem forwarded_flows_protected_witness:
  "CloseApp \<in> set (fst (forward_tcp True some_dst dial_times_out)) \<and> shielded (fst (forward_tcp True some_dst dial_times_out))"
proof -
  have "ConnectTo some_dst \<in> set (fst (forward_tcp True some_dst dial_times_out))"
    "snd (forward_tcp True some_dst dial_times_out) = Inl (ascii ''connect timeout'')"
    by (simp_all add: forward_tcp_def dial_times_out_def Let_def)
  then show ?thesis using forwarded_flows_protected [of some_dst dial_times_out None None "[]"] by auto
qed

end
