(* ===== verification/MeshRelay.thy ===== *)
theory MeshRelay
  imports MeshTcp Ipv6Text
begin

text \<open>
  \<open>shim/src/meshtcp.rs\<close>, \<open>MeshRelayProxy::start\<close>: a loopback listener for a mesh relay, and the
  URL it hands to the resolver, which \<open>admit\<close> reads back. The listener's address, the
  random numbers and the thread are observed; \<open>Npub\<close>'s printing and its mesh address are
  the key library's, arguments.
\<close>

section \<open>Starting\<close>

record relay =
  r_npub :: rust_string
  r_addr :: bytes
  r_port :: nat
  r_path :: rust_string
  r_token :: rust_string
  r_name :: rust_string

record relay_obs =
  ro_bind :: "rust_string option"
  ro_local :: "rust_string + socket_addr"
  ro_random :: "u64 \<times> u64"
  ro_spawn :: "rust_string option"

text \<open>\<open>{:016x}\<close>\<close>
definition show_hex16 :: "u64 \<Rightarrow> rust_string" where
  "show_hex16 n = (let h = show_hex (unat n) in replicate (16 - length h) 48 @ h)"

definition relay_token :: "u64 \<times> u64 \<Rightarrow> rust_string" where
  "relay_token r = show_hex16 (fst r) @ show_hex16 (snd r)"

text \<open>The relay that the accept loop serves, and \<open>local_url\<close>.\<close>
definition relay_start ::
  "(rust_string \<Rightarrow> 'n option) \<Rightarrow> ('n \<Rightarrow> rust_string) \<Rightarrow> ('n \<Rightarrow> bytes) \<Rightarrow> relay_obs \<Rightarrow> rust_string \<Rightarrow>
   rust_string + (relay \<times> rust_string)" where
  "relay_start parse_npub show_npub fips_address obs url =
     (case parse_mesh_relay parse_npub url of
        None \<Rightarrow> Inl (url @ ascii '': not a ws://<npub>.fips relay'')
      | Some (npub, port, path) \<Rightarrow>
          (case (ro_bind obs, ro_local obs) of
             (Some e, _) \<Rightarrow> Inl (url @ ascii '': listen: '' @ e)
           | (None, Inl e) \<Rightarrow> Inl e
           | (None, Inr local) \<Rightarrow>
               (let token = relay_token (ro_random obs);
                    relay = \<lparr>r_npub = show_npub npub, r_addr = fips_address npub, r_port = port, r_path = path,
                             r_token = token, r_name = url\<rparr>
                in case ro_spawn obs of
                     Some e \<Rightarrow> Inl e
                   | None \<Rightarrow>
                       Inr (relay, ascii ''ws://'' @ show_socket_addr local @ ascii ''/'' @ token @ path))))"

section \<open>The token\<close>

lemma hex_digit: "d < 16 \<Longrightarrow> digit d < 0x80 \<and> digit d \<noteq> LF \<and> digit d \<noteq> CR \<and> digit d \<noteq> 47"
proof -
  have "\<forall>d<16. digit d < 0x80 \<and> digit d \<noteq> LF \<and> digit d \<noteq> CR \<and> digit d \<noteq> 47" by code_simp
  then show "d < 16 \<Longrightarrow> ?thesis" by blast
qed

lemma length_show_hex16: "length (show_hex16 n) = 16"
proof -
  have "unat n < 16 ^ 16" using unsigned_less [of n] by simp
  then have "length (show_hex (unat n)) \<le> 16" by (intro length_show_hex) simp_all
  then show ?thesis by (simp add: show_hex16_def Let_def)
qed

lemma show_hex16_plain: "b \<in> set (show_hex16 n) \<Longrightarrow> b < 0x80 \<and> b \<noteq> LF \<and> b \<noteq> CR \<and> b \<noteq> 47"
  using show_radix_digits [of 16 b "unat n"] hex_digit
  by (auto simp: show_hex16_def Let_def LF_def CR_def)

lemma relay_token_plain: "b \<in> set (relay_token r) \<Longrightarrow> b < 0x80 \<and> b \<noteq> LF \<and> b \<noteq> CR \<and> b \<noteq> 47"
  by (auto simp: relay_token_def dest: show_hex16_plain)

lemma length_relay_token: "length (relay_token r) = 32"
  by (simp add: relay_token_def length_show_hex16)

lemma parse_mesh_relay_path:
  "parse_mesh_relay parse_npub url = Some (n, port, path) \<Longrightarrow> path = [] \<or> hd path = 47"
  by (auto simp: parse_mesh_relay_def Let_def bind_eq_Some_conv hd_dropWhile split: if_splits prod.splits)
    (metis (mono_tags, lifting) hd_dropWhile dropWhile_eq_Nil_conv)+

section \<open>The URL handed out\<close>

text \<open>
  C20. The URL handed to the resolver works: a client that asks for what follows the
  listener's address in it is admitted, and the relay sees a request for its own path, or
  \<open>/\<close> when it has none, with the same headers; the connection goes to the node and port of
  the URL that was configured; and the token is 32 characters without a slash.
\<close>
theorem relay_url_admitted:
  assumes "relay_start parse_npub show_npub fips_address obs url = Inr (relay, local_url)"
    and "ro_local obs = Inr local" and "\<forall>b\<in>set (r_path relay). b < 0x80 \<and> b \<noteq> LF \<and> b \<noteq> CR"
    and "find_window (CRLF @ CRLF) (CRLF @ headers) \<noteq> None"
  shows "\<exists>npub target. local_url = ascii ''ws://'' @ show_socket_addr local @ target \<and>
    admit (ascii ''GET '' @ target @ ascii '' HTTP/1.1'' @ CRLF @ headers) (r_token relay) (r_path relay) =
      Some (ascii ''GET '' @ (if r_path relay = [] then ascii ''/'' else r_path relay) @ ascii '' HTTP/1.1'' @ CRLF @ headers) \<and>
    parse_mesh_relay parse_npub url = Some (npub, r_port relay, r_path relay) \<and> r_npub relay = show_npub npub \<and>
    r_addr relay = fips_address npub \<and> length (r_token relay) = 32 \<and> 47 \<notin> set (r_token relay)"
proof -
  obtain npub where n: "parse_mesh_relay parse_npub url = Some (npub, r_port relay, r_path relay)"
    "r_npub relay = show_npub npub" "r_addr relay = fips_address npub" "r_token relay = relay_token (ro_random obs)"
    "local_url = ascii ''ws://'' @ show_socket_addr local @ ascii ''/'' @ r_token relay @ r_path relay"
    using assms(1,2) by (auto simp: relay_start_def Let_def split: option.splits)
  have a: "admit (ascii ''GET /'' @ r_token relay @ r_path relay @ ascii '' HTTP/1.1'' @ CRLF @ headers)
      (r_token relay) (r_path relay) =
    Some (ascii ''GET '' @ (if r_path relay = [] then ascii ''/'' else r_path relay) @ ascii '' HTTP/1.1'' @ CRLF @ headers)"
    using assms(3) relay_token_plain [of _ "ro_random obs"] n(4)
    by (intro admit_rewrites_own_request [OF _ parse_mesh_relay_path [OF n(1)] assms(4)]) auto
  have t: "ascii ''GET /'' @ r_token relay @ r_path relay = ascii ''GET '' @ ascii ''/'' @ r_token relay @ r_path relay"
    by (simp add: ascii_def)
  show ?thesis
    using a n length_relay_token [of "ro_random obs"] relay_token_plain [of 47 "ro_random obs"]
    by (intro exI [of _ npub] exI [of _ "ascii ''/'' @ r_token relay @ r_path relay"]) (auto simp: ascii_def)
qed

definition some_relay_obs :: relay_obs where
  "some_relay_obs = \<lparr>ro_bind = None, ro_local = Inr \<lparr>sa_ip = V4 [127, 0, 0, 1], sa_port = 4000\<rparr>, ro_random = (1, 0xabc), ro_spawn = None\<rparr>"

theorem relay_url_admitted_witness:
  "\<exists>relay local_url target. relay_start Some id (\<lambda>_. replicate 16 0xfd) some_relay_obs (ascii ''ws://n.fips/r'') = Inr (relay, local_url) \<and>
     admit (ascii ''GET '' @ target @ ascii '' HTTP/1.1'' @ CRLF @ own_headers) (r_token relay) (r_path relay) =
       Some (ascii ''GET /r HTTP/1.1'' @ CRLF @ own_headers)"
proof -
  have "Some (map ascii_lower (ascii ''n'')) = Some (ascii ''n'')" "47 \<notin> set (ascii ''n'')" "58 \<notin> set (ascii ''n'')"
    "ascii ''/r'' = [] \<or> hd (ascii ''/r'') = 47" by code_simp+
  from mesh_relay_url_parses [where parse_npub = Some and port = 7, OF this(1-3) _ _ this(4)]
  have p: "parse_mesh_relay Some (ascii ''ws://n.fips/r'') = Some (ascii ''n'', 80, ascii ''/r'')" by (simp add: ascii_def)
  obtain relay local_url where r: "relay_start Some id (\<lambda>_. replicate 16 0xfd) some_relay_obs (ascii ''ws://n.fips/r'') = Inr (relay, local_url)"
    "r_path relay = ascii ''/r''"
    using p by (auto simp: relay_start_def some_relay_obs_def Let_def)
  have w: "find_window (CRLF @ CRLF) (CRLF @ own_headers) \<noteq> None" by code_simp
  have l: "ro_local some_relay_obs = Inr \<lparr>sa_ip = V4 [127, 0, 0, 1], sa_port = 4000\<rparr>" by (simp add: some_relay_obs_def)
  have c: "\<forall>b\<in>set (r_path relay). b < 0x80 \<and> b \<noteq> LF \<and> b \<noteq> CR" unfolding r(2) by code_simp
  from relay_url_admitted [OF r(1) l c w]
  obtain target where t: "admit (ascii ''GET '' @ target @ ascii '' HTTP/1.1'' @ CRLF @ own_headers) (r_token relay) (r_path relay) =
       Some (ascii ''GET '' @ (if r_path relay = [] then ascii ''/'' else r_path relay) @ ascii '' HTTP/1.1'' @ CRLF @ own_headers)"
    by blast
  have "ascii ''GET '' @ (if r_path relay = [] then ascii ''/'' else r_path relay) @ ascii '' HTTP/1.1'' @ CRLF @ own_headers =
      ascii ''GET /r HTTP/1.1'' @ CRLF @ own_headers"
    unfolding r(2) by (simp add: ascii_def)
  with t r(1) show ?thesis by metis
qed

end
