(* ===== verification/Names.thy ===== *)
theory Names
  imports DnsServe MeshUdp MeshRelay Config
begin

text \<open>
  \<open>shim/src/names.rs\<close>: public domain names over fips, the phone's half. The resolver of
  \<open>pubdom-resolve\<close> is a dependency: when a lookup's task ends and with what, and when an
  upstream's denial is noted, are observed. The model has what the shim makes of them: the
  budget, the early release and its closure, the Internet flag, the resolver's settings,
  and the mesh transport it gives to the resolver.
\<close>

section \<open>Decisions\<close>

text \<open>\<open>LookupResult\<close>; the time to the next attempt in seconds.\<close>
datatype lookup_result = Answered bytes | Passthrough | Unavailable nat

text \<open>\<open>pubdom_core\<close>'s constants.\<close>
record names_lib =
  n_unavailable_ttl :: "nat \<Rightarrow> u32"
  n_overrun_ttl :: u32

definition decide :: "names_lib \<Rightarrow> lookup_result \<Rightarrow> decided" where
  "decide lib r =
     (case r of
        Answered a \<Rightarrow> DAnswer a
      | Passthrough \<Rightarrow> DLegacy
      | Unavailable retry_in \<Rightarrow> DCapped (n_unavailable_ttl lib retry_in))"

definition settled :: "names_lib \<Rightarrow> lookup_result \<Rightarrow> outcome" where
  "settled lib r =
     (case decide lib r of DAnswer a \<Rightarrow> OAnswer a | DLegacy \<Rightarrow> OLegacy | DCapped cap \<Rightarrow> OCapped cap)"

section \<open>The Internet flag\<close>

text \<open>Milliseconds.\<close>
definition BUDGET :: nat where "BUDGET = 3500"
definition TXT_TIMEOUT_ONLINE :: nat where "TXT_TIMEOUT_ONLINE = 1500"
definition TXT_TIMEOUT_UNVALIDATED :: nat where "TXT_TIMEOUT_UNVALIDATED = 500"

text \<open>What the shim sees of the resolver: the wait of its TXT source, its cache flushes.\<close>
record resolver =
  txt_timeout :: nat
  flushed :: nat

definition network_changed :: "resolver \<Rightarrow> resolver" where
  "network_changed s = s\<lparr>flushed := Suc (flushed s)\<rparr>"

text \<open>\<open>set_ok\<close>: whether the TXT verifier takes the new wait.\<close>
definition set_internet_validated :: "bool \<Rightarrow> bool \<Rightarrow> resolver \<Rightarrow> resolver" where
  "set_internet_validated set_ok validated s =
     (let want = (if validated then TXT_TIMEOUT_ONLINE else TXT_TIMEOUT_UNVALIDATED)
      in if txt_timeout s = want then s
         else if \<not> set_ok then s
         else network_changed (s\<lparr>txt_timeout := want\<rparr>))"

definition probes :: "nat \<Rightarrow> bool" where
  "probes timeout \<longleftrightarrow> TXT_TIMEOUT_UNVALIDATED < timeout"

text \<open>\<open>PhoneTxt::probe\<close>; \<open>plain\<close> is the library's probe.\<close>
datatype 'p probe = Plain 'p | Unknown

definition probe :: "resolver \<Rightarrow> 'p \<Rightarrow> 'p probe" where
  "probe s plain = (if probes (txt_timeout s) then Plain plain else Unknown)"

section \<open>A lookup\<close>

text \<open>
  What a lookup meets: whether the runtime is there; the result, if the first poll has it;
  the TXT wait and the pins when \<open>pending\<close> is decided; when the task ends, from its start,
  and with what (\<open>None\<close> when it panics); the TXT wait when the waiting starts, and when an
  upstream's denial is in.
\<close>
record lookup_env =
  q_runtime :: bool
  q_first :: "lookup_result option"
  q_timeout :: nat
  q_pinned :: bool
  q_task :: "(nat \<times> lookup_result option) option"
  q_wait_timeout :: nat
  q_denied :: "nat option"

datatype waited = Joined "lookup_result option" | Overrun | Denied

text \<open>The biased \<open>select!\<close>: what it waited for, and until when.\<close>
definition wait_for_task :: "lookup_env \<Rightarrow> nat \<times> waited" where
  "wait_for_task q =
     (let first = (case q_task q of
                     Some (t, r) \<Rightarrow> if t \<le> BUDGET then (t, Joined r) else (BUDGET, Overrun)
                   | None \<Rightarrow> (BUDGET, Overrun))
      in case (if probes (q_wait_timeout q) then q_denied q else None) of
           None \<Rightarrow> first
         | Some d \<Rightarrow> if d < fst first then (d, Denied) else first)"

record looked_up =
  k_outcome :: outcome
  k_pending :: nat
  k_time :: nat

text \<open>\<open>Names::lookup\<close>: the outcome, how often \<open>pending\<close> was called, and the time it took.\<close>
definition names_lookup :: "names_lib \<Rightarrow> lookup_env \<Rightarrow> looked_up" where
  "names_lookup lib q =
     (if \<not> q_runtime q then \<lparr>k_outcome = OLegacy, k_pending = 0, k_time = 0\<rparr>
      else
        (case q_first q of
           Some r \<Rightarrow> \<lparr>k_outcome = settled lib r, k_pending = 0, k_time = 0\<rparr>
         | None \<Rightarrow>
             (let pending = (if probes (q_timeout q) \<and> \<not> q_pinned q then 1 else 0);
                  (t, w) = wait_for_task q
              in \<lparr>k_outcome = (case w of
                    Joined (Some r) \<Rightarrow> settled lib r
                  | Joined None \<Rightarrow> OLegacy
                  | Overrun \<Rightarrow> OCapped (n_overrun_ttl lib)
                  | Denied \<Rightarrow> OEarly),
                 k_pending = pending, k_time = t\<rparr>)))"

text \<open>The closure of an early release, asked until a given time; the task, until taken.\<close>
definition early_ask ::
  "names_lib \<Rightarrow> (nat \<times> lookup_result option) option option \<Rightarrow> nat \<Rightarrow>
   (nat \<times> lookup_result option) option option \<times> decided option" where
  "early_ask lib task until =
     (case task of
        None \<Rightarrow> (None, None)
      | Some None \<Rightarrow> (task, None)
      | Some (Some (t, r)) \<Rightarrow>
          if t \<le> until
          then (None, Some (case r of Some x \<Rightarrow> decide lib x | None \<Rightarrow> DLegacy))
          else (task, None))"

section \<open>Starting\<close>

record resolver_config =
  rc_public_relays :: "rust_string list"
  rc_mesh_relays :: "rust_string list"
  rc_allow_unverified_offline :: bool
  rc_witnesses :: "rust_string list"
  rc_attestation_threshold :: nat
  rc_dnssec :: bool
  rc_txt_timeout :: nat

text \<open>The settings; \<open>parse_any\<close> is \<open>Npub::parse_any\<close>, its value as a string.\<close>
definition resolver_settings ::
  "(rust_string \<Rightarrow> rust_string option) \<Rightarrow> resolver_config \<Rightarrow> shim_config \<Rightarrow> rust_string list \<Rightarrow> resolver_config" where
  "resolver_settings parse_any defaults c local_urls =
     defaults\<lparr>
       rc_public_relays := (if nostr_relays c = [] then rc_public_relays defaults else nostr_relays c),
       rc_mesh_relays := local_urls,
       rc_allow_unverified_offline := names_allow_unverified_offline c,
       rc_witnesses := List.map_filter (\<lambda>w. parse_any (trim w)) (names_witnesses c),
       rc_attestation_threshold :=
         (case names_attestation_threshold c of Some n \<Rightarrow> n | None \<Rightarrow> rc_attestation_threshold defaults),
       rc_dnssec := (case names_dnssec c of Some b \<Rightarrow> b | None \<Rightarrow> rc_dnssec defaults)\<rparr>"

text \<open>What the start observes: the runtime, the relays' listeners, the pin file, the verifier.\<close>
record names_obs =
  no_runtime :: "rust_string option"
  no_relay :: "rust_string \<Rightarrow> relay_obs"
  no_pins :: "rust_string option"
  no_txt :: "rust_string option"

definition names_start ::
  "(rust_string \<Rightarrow> 'n option) \<Rightarrow> ('n \<Rightarrow> rust_string) \<Rightarrow> ('n \<Rightarrow> bytes) \<Rightarrow> (rust_string \<Rightarrow> rust_string option) \<Rightarrow>
   resolver_config \<Rightarrow> names_obs \<Rightarrow> shim_config \<Rightarrow> rust_string \<Rightarrow>
   rust_string + (resolver_config \<times> ip_addr list \<times> resolver)" where
  "names_start parse_npub show_npub fips_address parse_any defaults obs c pins_path =
     (case no_runtime obs of
        Some e \<Rightarrow> Inl (ascii ''names runtime: '' @ e)
      | None \<Rightarrow>
          (let started = map (\<lambda>url. relay_start parse_npub show_npub fips_address (no_relay obs url) url) (names_mesh_relays c);
               local_urls = List.map_filter (\<lambda>r. case r of Inr (_, local_url) \<Rightarrow> Some local_url | Inl _ \<Rightarrow> None) started;
               upstreams = map sa_ip (upstream_addrs c);
               rc = resolver_settings parse_any defaults c local_urls
           in case no_pins obs of
                Some e \<Rightarrow> Inl (ascii ''pins '' @ pins_path @ ascii '': '' @ e)
              | None \<Rightarrow>
                  (case no_txt obs of
                     Some e \<Rightarrow> Inl e
                   | None \<Rightarrow> Inr (rc, upstreams, \<lparr>txt_timeout = rc_txt_timeout rc, flushed = 0\<rparr>))))"

text \<open>\<open>warm_soon\<close>: the sleeps before each warming; a \<open>Duration\<close> does not go below zero.\<close>
definition WARM_AT :: "nat list" where "WARM_AT = [3000, 10000]"

fun warm_sleeps :: "nat \<Rightarrow> nat list \<Rightarrow> nat list rust" where
  "warm_sleeps waited [] = Some []"
| "warm_sleeps waited (at # ats) =
     (if at < waited then None else map_option ((#) (at - waited)) (warm_sleeps at ats))"

definition warm_soon :: "bool \<Rightarrow> nat list rust" where
  "warm_soon has_runtime = (if has_runtime then warm_sleeps 0 WARM_AT else Some [])"

text \<open>The resolver is warmed at exactly the times given, and never panics on them.\<close>
lemma warm_sleeps_times:
  "sorted (waited # ats) \<Longrightarrow>
   \<exists>ds. warm_sleeps waited ats = Some ds \<and> length ds = length ats \<and> (\<forall>i<length ats. waited + sum_list (take (Suc i) ds) = ats ! i)"
proof (induction ats arbitrary: waited)
  case (Cons at ats)
  have "sorted (at # ats)" using Cons.prems by simp
  then obtain ds where ds: "warm_sleeps at ats = Some ds" "length ds = length ats"
    "\<forall>i<length ats. at + sum_list (take (Suc i) ds) = ats ! i" using Cons.IH by blast
  have "waited + sum_list (take (Suc i) ((at - waited) # ds)) = (at # ats) ! i" if "i < length (at # ats)" for i
    using that ds(3) Cons.prems by (cases i) auto
  moreover have "warm_sleeps waited (at # ats) = Some ((at - waited) # ds)" using ds(1) Cons.prems by simp
  ultimately show ?case using ds(2) by (intro exI [of _ "(at - waited) # ds"]) simp_all
qed simp

section \<open>The mesh transport\<close>

text \<open>What the registering socket does: it binds, sends, and receives or not.\<close>
record register_obs =
  ra_bound :: bool
  ra_random :: u64
  ra_sent :: bool
  ra_received :: "bytes option"

text \<open>The datagram's buffer.\<close>
definition ID_BUF :: nat where "ID_BUF = 512"

definition query_id :: "u64 \<Rightarrow> u16" where
  "query_id random = ucast (random AND 0xffff)"

text \<open>\<open>PhoneMesh::register\<close>: the query it sent, and whether the responder knows the node.\<close>
definition register :: "register_obs \<Rightarrow> rust_string \<Rightarrow> bytes option \<times> bool" where
  "register obs fips_name =
     (if \<not> ra_bound obs then (None, False)
      else
        (let id = query_id (ra_random obs);
             query = aaaa_query id fips_name
         in if \<not> ra_sent obs then (None, False)
            else
              (Some query,
               (case ra_received obs of
                  None \<Rightarrow> False
                | Some d \<Rightarrow>
                    (let buf = take ID_BUF d
                     in 12 \<le> length buf \<and> take 2 buf = to_be16 id \<and> (buf ! 3) AND 0x0f = 0)))))"

definition query_tcp :: "rust_string + bytes" where
  "query_tcp = Inl (ascii ''TCP fallback not available on the phone'')"

text \<open>\<open>query_udp\<close> and \<open>reachable\<close> of the transport; \<open>None\<close> while the exchange goes on.\<close>
definition mesh_query_udp ::
  "divert \<Rightarrow> bytes \<Rightarrow> bytes \<times> u16 \<Rightarrow> u64 \<Rightarrow> rust_string option \<Rightarrow> udp_pass list \<Rightarrow> divert \<times> (rust_string + bytes) option" where
  "mesh_query_udp d our_addr server random bind_error ps =
     (case query d our_addr (fst server) (snd server) random bind_error ps of
        (d, Asking _) \<Rightarrow> (d, None)
      | (d, Replied (Inl e)) \<Rightarrow> (d, Some (Inl (message e)))
      | (d, Replied (Inr answer)) \<Rightarrow> (d, Some (Inr answer)))"

definition mesh_reachable ::
  "divert \<Rightarrow> bytes \<Rightarrow> bytes \<Rightarrow> u64 \<Rightarrow> rust_string option \<Rightarrow> echo_pass list \<Rightarrow> divert \<times> bool option" where
  "mesh_reachable d our_addr fips_address random setup ps =
     (case ping d our_addr fips_address random setup ps of
        (d, Echoing _) \<Rightarrow> (d, None)
      | (d, Echoed (Inl _)) \<Rightarrow> (d, Some False)
      | (d, Echoed (Inr b)) \<Rightarrow> (d, Some b))"

section \<open>The proxy the engine builds\<close>

text \<open>The hosts file that is watched, if the configuration names one.\<close>
definition hosts_reloader :: "rust_string option \<Rightarrow> rust_string option" where
  "hosts_reloader path = (case path of Some p \<Rightarrow> if trim p \<noteq> [] then Some (trim p) else None | None \<Rightarrow> None)"

definition to_sockaddr :: "socket_addr \<Rightarrow> sockaddr" where
  "to_sockaddr a = (case sa_ip a of V4 b \<Rightarrow> SockV4 b (word_of_nat (sa_port a)) | V6 b \<Rightarrow> SockV6 b (word_of_nat (sa_port a)))"

text \<open>\<open>[::1]:5354\<close>\<close>
definition LOCAL_RESPONDER :: sockaddr where
  "LOCAL_RESPONDER = SockV6 (replicate 15 0 @ [1]) 5354"

text \<open>\<open>host_map\<close>: what the reloader of a file answers.\<close>
definition engine_proxy ::
  "(rust_string \<Rightarrow> rust_string \<Rightarrow> rust_string option) \<Rightarrow> (bytes \<Rightarrow> u32 \<Rightarrow> bytes option) \<Rightarrow> names_lib \<Rightarrow> bool \<Rightarrow>
   shim_config \<Rightarrow> dns_proxy" where
  "engine_proxy host_map clamp lib hook c =
     \<lparr>local_responder = LOCAL_RESPONDER, upstreams = map to_sockaddr (upstream_addrs c), protect_hook = hook,
      hosts = map_option host_map (hosts_reloader (hosts_path c)), clamp_ttls = clamp, overrun_ttl = n_overrun_ttl lib\<rparr>"

text \<open>With the defaults the upstreams are the two well-known resolvers.\<close>
lemma default_upstreams:
  "upstreams (engine_proxy host_map clamp lib hook (config_defaults key)) = [SockV4 [1, 1, 1, 1] 53, SockV4 [9, 9, 9, 9] 53]"
proof -
  have "show_socket_addr \<lparr>sa_ip = V4 [n, n, n, n], sa_port = 53\<rparr> = d @ ascii ''.'' @ d @ ascii ''.'' @ d @ ascii ''.'' @ d @ ascii '':53''"
    if "show_dec (unat n) = d" for n d
    using that by (simp add: show_socket_addr_def show_ip_def show_radix.simps [of 10 53] show_radix.simps [of 10 5] digit_def ascii_def)
  from this [of 1] this [of 9]
  have "ascii ''1.1.1.1:53'' = show_socket_addr \<lparr>sa_ip = V4 [1, 1, 1, 1], sa_port = 53\<rparr>"
    "ascii ''9.9.9.9:53'' = show_socket_addr \<lparr>sa_ip = V4 [9, 9, 9, 9], sa_port = 53\<rparr>"
    by (simp_all add: show_radix.simps digit_def ascii_def)
  then show ?thesis
    by (simp add: engine_proxy_def upstream_addrs_def config_defaults_def default_dns_upstreams_def map_filter_def
        parse_show_socket_v4 to_sockaddr_def)
qed

section \<open>The time a lookup takes\<close>

lemma names_lookup_settled:
  "q_runtime q \<Longrightarrow> q_first q = Some r \<Longrightarrow> names_lookup lib q = \<lparr>k_outcome = settled lib r, k_pending = 0, k_time = 0\<rparr>"
  by (simp add: names_lookup_def)

lemma names_lookup_waits:
  assumes "q_runtime q" and "q_first q = None"
  shows "names_lookup lib q =
    \<lparr>k_outcome = (case snd (wait_for_task q) of
        Joined (Some r) \<Rightarrow> settled lib r
      | Joined None \<Rightarrow> OLegacy
      | Overrun \<Rightarrow> OCapped (n_overrun_ttl lib)
      | Denied \<Rightarrow> OEarly),
     k_pending = (if probes (q_timeout q) \<and> \<not> q_pinned q then 1 else 0), k_time = fst (wait_for_task q)\<rparr>"
  using assms by (simp add: names_lookup_def case_prod_beta)

lemma names_lookup_off: "\<not> q_runtime q \<Longrightarrow> names_lookup lib q = \<lparr>k_outcome = OLegacy, k_pending = 0, k_time = 0\<rparr>"
  by (simp add: names_lookup_def)

lemma wait_for_task_time: "fst (wait_for_task q) \<le> BUDGET"
  by (auto simp: wait_for_task_def Let_def split: option.split)

lemma waited:
  assumes "wait_for_task q = (t, w)"
  shows "w = Denied \<Longrightarrow> TXT_TIMEOUT_UNVALIDATED < q_wait_timeout q \<and> q_denied q = Some t"
    and "w = Overrun \<Longrightarrow> t = 3500 \<and> (\<forall>u r. q_task q = Some (u, r) \<longrightarrow> 3500 < u)"
    and "w = Joined r \<Longrightarrow> q_task q = Some (t, r)"
  using assms
  by (auto simp: wait_for_task_def Let_def BUDGET_def probes_def split: option.splits if_splits prod.splits)

lemma waited_joins:
  assumes "q_task q = Some (u, r)" and "u \<le> 3500"
    and "\<forall>d. q_denied q = Some d \<and> TXT_TIMEOUT_UNVALIDATED < q_wait_timeout q \<longrightarrow> u \<le> d"
  shows "wait_for_task q = (u, Joined r)"
  using assms by (auto simp: wait_for_task_def Let_def BUDGET_def probes_def split: option.splits)

text \<open>
  C14. A lookup answers within its budget, and what it says is what it found. It takes at
  most 3.5 s; a result that is in by then is passed on as it is, unless an upstream's
  denial came first; the short-lived answer goes out only when the lookup has used up its
  budget, and an early release only when a denial is in and the Internet is validated;
  and the upstreams are asked alongside at most once, never for a name under a pinned
  domain and never without a validated Internet.
\<close>
theorem lookup_within_budget:
  fixes lib :: names_lib and q :: lookup_env
  assumes "q_runtime q" and "q_first q = None"
  defines "k \<equiv> names_lookup lib q"
  shows "k_time k \<le> 3500 \<and> k_pending k \<le> 1 \<and>
    (k_pending k = 1 \<longrightarrow> TXT_TIMEOUT_UNVALIDATED < q_timeout q \<and> \<not> q_pinned q) \<and>
    (\<forall>t r. q_task q = Some (t, Some r) \<and> t \<le> 3500 \<and>
       (\<forall>d. q_denied q = Some d \<and> TXT_TIMEOUT_UNVALIDATED < q_wait_timeout q \<longrightarrow> t \<le> d) \<longrightarrow>
       k_outcome k = settled lib r \<and> k_time k = t) \<and>
    (k_outcome k = OEarly \<longrightarrow> TXT_TIMEOUT_UNVALIDATED < q_wait_timeout q \<and> q_denied q = Some (k_time k)) \<and>
    (\<forall>a. k_outcome k = OAnswer a \<longrightarrow> q_task q = Some (k_time k, Some (Answered a))) \<and>
    (\<forall>c. k_outcome k = OCapped c \<longrightarrow> k_time k = 3500 \<and> c = n_overrun_ttl lib \<and> (\<forall>t r. q_task q = Some (t, r) \<longrightarrow> 3500 < t) \<or>
       (\<exists>s. q_task q = Some (k_time k, Some (Unavailable s)) \<and> c = n_unavailable_ttl lib s))"
proof -
  obtain t w where w: "wait_for_task q = (t, w)" by fastforce
  have k: "k_time k = t" "k_pending k = (if probes (q_timeout q) \<and> \<not> q_pinned q then 1 else 0)"
    "k_outcome k = (case w of Joined (Some r) \<Rightarrow> settled lib r | Joined None \<Rightarrow> OLegacy
       | Overrun \<Rightarrow> OCapped (n_overrun_ttl lib) | Denied \<Rightarrow> OEarly)"
    using names_lookup_waits [OF assms(1,2), of lib] w by (simp_all add: k_def)
  have settled: "settled lib r \<noteq> OEarly" "settled lib r = OAnswer a \<longleftrightarrow> r = Answered a"
    "settled lib r = OCapped c \<longleftrightarrow> (\<exists>s. r = Unavailable s \<and> c = n_unavailable_ttl lib s)" for r a c
    by (auto simp: settled_def decide_def split: lookup_result.splits decided.splits)
  have join: "k_outcome k = settled lib r \<and> k_time k = u"
    if "q_task q = Some (u, Some r)" "u \<le> 3500"
      "\<forall>d. q_denied q = Some d \<and> TXT_TIMEOUT_UNVALIDATED < q_wait_timeout q \<longrightarrow> u \<le> d" for u r
    using waited_joins [OF that] w by (simp add: k(1,3))
  have early: "w = Denied" if "k_outcome k = OEarly"
    using that settled(1) by (cases w) (auto simp: k(3) split: option.splits)
  have answer: "w = Joined (Some (Answered a))" if "k_outcome k = OAnswer a" for a
    using that by (cases w) (auto simp: k(3) settled(2) split: option.splits)
  have capped: "w = Overrun \<and> c = n_overrun_ttl lib \<or> (\<exists>s. w = Joined (Some (Unavailable s)) \<and> c = n_unavailable_ttl lib s)"
    if "k_outcome k = OCapped c" for c
    using that by (cases w) (auto simp: k(3) settled(3) split: option.splits)
  have "t \<le> 3500" using wait_for_task_time [of q] w by (simp add: BUDGET_def)
  moreover have "k_pending k \<le> 1 \<and> (k_pending k = 1 \<longrightarrow> TXT_TIMEOUT_UNVALIDATED < q_timeout q \<and> \<not> q_pinned q)"
    by (simp add: k(2) probes_def)
  moreover have "\<forall>c. k_outcome k = OCapped c \<longrightarrow> t = 3500 \<and> c = n_overrun_ttl lib \<and> (\<forall>t r. q_task q = Some (t, r) \<longrightarrow> 3500 < t) \<or>
       (\<exists>s. q_task q = Some (t, Some (Unavailable s)) \<and> c = n_unavailable_ttl lib s)"
    using capped waited(2,3) [OF w] by blast
  moreover have "\<forall>a. k_outcome k = OAnswer a \<longrightarrow> q_task q = Some (t, Some (Answered a))"
    using answer waited(3) [OF w] by blast
  moreover have "k_outcome k = OEarly \<longrightarrow> TXT_TIMEOUT_UNVALIDATED < q_wait_timeout q \<and> q_denied q = Some t"
    using early waited(1) [OF w] by blast
  moreover have "\<forall>u r. q_task q = Some (u, Some r) \<and> u \<le> 3500 \<and>
      (\<forall>d. q_denied q = Some d \<and> TXT_TIMEOUT_UNVALIDATED < q_wait_timeout q \<longrightarrow> u \<le> d) \<longrightarrow>
      k_outcome k = settled lib r \<and> t = u"
    using join k(1) by blast
  ultimately show ?thesis unfolding k(1) by (elim conjE, intro conjI) assumption+
qed

section \<open>Names under a pinned domain\<close>

text \<open>The world of \<open>serve\<close> has this lookup.\<close>
definition looks_up :: "names_lib \<Rightarrow> lookup_env \<Rightarrow> DnsServe.world \<Rightarrow> bool" where
  "looks_up lib q w \<longleftrightarrow> lookup w = Some (k_pending (names_lookup lib q), k_outcome (names_lookup lib q))"

lemma pending_count:
  "k_pending (names_lookup lib q) =
     (if q_runtime q \<and> q_first q = None \<and> probes (q_timeout q) \<and> \<not> q_pinned q then 1 else 0)"
  by (cases "q_runtime q"; cases "q_first q") (simp_all add: names_lookup_waits names_lookup_settled names_lookup_off)

text \<open>\<open>impl Lookup for Names\<close> keeps the trait's contract.\<close>
interpretation names: lookup_service
  "\<lambda>q. (k_pending (names_lookup lib q), k_outcome (names_lookup lib q))"
  "\<lambda>q. q_pinned q \<or> q_first q \<noteq> None \<or> \<not> probes (q_timeout q)" for lib
  by unfold_locales (auto simp: pending_count)

text \<open>
  C15. A name under a pinned domain stays private, end to end: when its lookup answers, the
  application gets that answer and no socket of the proxy sent anything, so no upstream
  learns of the name; the same holds for a lookup that settles at its first poll, pinned or
  not.
\<close>
theorem pinned_names_stay_private:
  assumes "plain_udp packet" and "\<not> is_fips (qname_of (ip_payload (udp_view packet)))"
    and "looks_up lib q w" and "q_pinned q \<or> q_first q \<noteq> None" and "k_outcome (names_lookup lib q) = OAnswer a"
  shows "\<exists>response. serve proxy w packet = Some (Sent response, []) \<and>
    build_ipv6_udp (ip_dst (udp_view packet)) (ip_src (udp_view packet)) 53 (ip_src_port (udp_view packet)) a = Some response"
  by (rule names.quiet_answer [OF assms(1,2) assms(3) [unfolded looks_up_def]]) (use assms(4,5) in auto)

section \<open>The closure of an early release\<close>

abbreviation task_decision :: "names_lib \<Rightarrow> lookup_result option \<Rightarrow> decided" where
  "task_decision lib r \<equiv> (case r of Some x \<Rightarrow> decide lib x | None \<Rightarrow> DLegacy)"

lemma early_ask_simps [simp]:
  "early_ask lib None u = (None, None)"
  "early_ask lib (Some (Some (t, r))) u =
     (if t \<le> u then (None, Some (task_decision lib r)) else (Some (Some (t, r)), None))"
  by (simp_all add: early_ask_def)

lemma taken_asks: "snd (run (early_ask lib) None us) = replicate (length us) None"
  by (induction us) simp_all

text \<open>
  The closure of an early release gives the lookup's own decision, and exactly once:
  asked until the times \<open>us\<close> it says nothing as long as the task runs, then what the task
  found, and nothing ever after; if the task panicked, the name is not over fips.
\<close>
theorem early_closure_decides_once:
  "snd (run (early_ask lib) (Some (Some (t, r))) us) =
     (let n = length (takeWhile (\<lambda>u. u < t) us)
      in if n = length us then replicate n None
         else replicate n None @ Some (task_decision lib r) # replicate (length us - n - 1) None)"
proof (induction us)
  case (Cons u us)
  then show ?case by (cases "u < t") (auto simp: taken_asks Let_def)
qed simp

section \<open>The Internet flag\<close>

text \<open>How often a sequence of flags, from a given one on, changes.\<close>
fun changes :: "bool \<Rightarrow> bool list \<Rightarrow> nat" where
  "changes b [] = 0"
| "changes b (v # vs) = (if v = b then 0 else 1) + changes v vs"

definition flag_wait :: "bool \<Rightarrow> nat" where
  "flag_wait v = (if v then TXT_TIMEOUT_ONLINE else TXT_TIMEOUT_UNVALIDATED)"

lemma flag_wait_eq: "flag_wait v = flag_wait b \<longleftrightarrow> v = b"
  by (simp add: flag_wait_def TXT_TIMEOUT_ONLINE_def TXT_TIMEOUT_UNVALIDATED_def)

lemma set_flag:
  "set_internet_validated True v \<lparr>txt_timeout = flag_wait b, flushed = n\<rparr> =
     \<lparr>txt_timeout = flag_wait v, flushed = n + (if v = b then 0 else 1)\<rparr>"
  using flag_wait_eq [of b v]
  by (auto simp: set_internet_validated_def network_changed_def flag_wait_def [of v, symmetric] Let_def)

text \<open>
  After any sequence of flags from Kotlin the plain probe is used exactly when the last
  said that the Internet is validated, and the caches were flushed exactly when the flag
  changed: repeating it costs nothing.
\<close>
theorem probe_follows_flag:
  "fold (set_internet_validated True) vs \<lparr>txt_timeout = flag_wait b, flushed = n\<rparr> =
     \<lparr>txt_timeout = flag_wait (last (b # vs)), flushed = n + changes b vs\<rparr> \<and>
   probe (fold (set_internet_validated True) vs \<lparr>txt_timeout = flag_wait b, flushed = n\<rparr>) plain =
     (if last (b # vs) then Plain plain else Unknown)"
proof -
  have f: "fold (set_internet_validated True) vs \<lparr>txt_timeout = flag_wait b, flushed = n\<rparr> =
     \<lparr>txt_timeout = flag_wait (last (b # vs)), flushed = n + changes b vs\<rparr>"
    by (induction vs arbitrary: b n) (simp_all add: set_flag)
  then show ?thesis
    by (simp add: probe_def probes_def flag_wait_def TXT_TIMEOUT_ONLINE_def TXT_TIMEOUT_UNVALIDATED_def)
qed

section \<open>Registration\<close>

text \<open>
  A node counts as registered only on an answer to our own question, with no error: the
  answer has the id of the query that was sent, which asks for the node's name, and an
  RCODE of zero.
\<close>
lemma register_checks_reply:
  assumes "register obs fips_name = (asked, True)"
  shows "asked = Some (aaaa_query (query_id (ra_random obs)) fips_name) \<and>
    (\<exists>d. ra_received obs = Some d \<and> 12 \<le> length d \<and> take 2 d = to_be16 (query_id (ra_random obs)) \<and> (d ! 3) AND 0x0f = 0)"
  using assms by (auto simp: register_def Let_def ID_BUF_def split: if_splits option.splits)

section \<open>Witnesses\<close>

definition some_names :: names_lib where
  "some_names = \<lparr>n_unavailable_ttl = of_nat, n_overrun_ttl = 5\<rparr>"

definition some_lookup :: lookup_env where
  "some_lookup = \<lparr>q_runtime = True, q_first = None, q_timeout = 1500, q_pinned = True,
     q_task = Some (120, Some (Answered [1, 2])), q_wait_timeout = 1500, q_denied = Some 200\<rparr>"

lemma some_lookup_outcome: "names_lookup some_names some_lookup = \<lparr>k_outcome = OAnswer [1, 2], k_pending = 0, k_time = 120\<rparr>"
  by code_simp

theorem lookup_within_budget_witness:
  "k_time (names_lookup some_names some_lookup) \<le> 3500 \<and> k_outcome (names_lookup some_names some_lookup) = OAnswer [1, 2]"
proof -
  have "q_runtime some_lookup" "q_first some_lookup = None" by (simp_all add: some_lookup_def)
  from lookup_within_budget [OF this, of some_names, THEN conjunct1] some_lookup_outcome show ?thesis by simp
qed

definition named_world :: DnsServe.world where
  "named_world = test_world\<lparr>lookup := Some (0, OAnswer [1, 2])\<rparr>"

theorem pinned_names_stay_private_witness:
  "\<exists>pkt response. plain_udp pkt \<and> serve test_proxy named_world pkt = Some (Sent response, [])"
proof -
  obtain pkt where p: "plain_udp pkt" "ip_payload (udp_view pkt) = web_query"
    by (rule test_packet [of web_query]) (simp_all add: query_names)
  have l: "looks_up some_names some_lookup named_world" by (simp add: looks_up_def named_world_def some_lookup_outcome)
  have "q_pinned some_lookup" by (simp add: some_lookup_def)
  then show ?thesis
    using pinned_names_stay_private [OF p(1) _ l, of "[1, 2]" test_proxy] p query_names(4) by (auto simp: some_lookup_outcome)
qed

end
