(* ===== verification/EngineCalls.thy ===== *)
theory EngineCalls
  imports Engine HttpExchange Ipv6Text
begin

text \<open>
  \<open>shim/src/engine.rs\<close>, the calls of the UI that look at the running engine or use its mesh
  link: \<open>status_json\<close>, \<open>query_json\<close>, \<open>connect_peer_json\<close>, \<open>mesh_http_get_json\<close>; and what the
  last needs of \<open>config.rs\<close> (\<open>resolve_npub\<close>) and \<open>meshhttp.rs\<close> (\<open>register_identity\<close>). JSON is
  a value: parsing and printing it is \<open>serde_json\<close>'s. The node's answers are arguments.
\<close>

section \<open>JSON\<close>

datatype json =
    JNull
  | JBool bool
  | JNum int
  | JStr rust_string
  | JArr "json list"
  | JObj "(rust_string \<times> json) list"

definition error_json :: "rust_string \<Rightarrow> json" where
  "error_json m = JObj [(ascii ''status'', JStr (ascii ''error'')), (ascii ''message'', JStr m)]"

section \<open>Looking at the engine\<close>

text \<open>What the running engine shows: its identity, \<open>show_status\<close>'s data, the relays last seen.\<close>
record engine_view =
  v_npub :: rust_string
  v_address :: rust_string
  v_status :: "json option"
  v_relays :: "json list"

definition is_running :: "Engine.world \<Rightarrow> bool" where
  "is_running w \<longleftrightarrow> slot w \<noteq> None"

text \<open>The status, and whether a fresh snapshot of the relays was asked for.\<close>
definition status_json :: "Engine.world \<Rightarrow> engine_view \<Rightarrow> json \<times> bool" where
  "status_json w v =
     (case slot w of
        None \<Rightarrow> (JObj [(ascii ''running'', JBool False)], False)
      | Some _ \<Rightarrow>
          (JObj
             [(ascii ''running'', JBool True), (ascii ''npub'', JStr (v_npub v)), (ascii ''address'', JStr (v_address v)),
              (ascii ''status'', (case v_status v of Some s \<Rightarrow> s | None \<Rightarrow> JNull)), (ascii ''relays'', JArr (v_relays v))],
           True))"

definition query_json ::
  "Engine.world \<Rightarrow> (rust_string \<Rightarrow> rust_string + json) \<Rightarrow> (rust_string \<Rightarrow> json option \<Rightarrow> json option) \<Rightarrow>
   rust_string \<Rightarrow> rust_string \<Rightarrow> json" where
  "query_json w parse read_query command params_json =
     (case slot w of
        None \<Rightarrow> error_json (ascii ''not running'')
      | Some _ \<Rightarrow>
          (case (if trim params_json = [] then Inr None else map_sum id Some (parse params_json)) of
             Inl e \<Rightarrow> error_json (ascii ''bad params: '' @ e)
           | Inr params \<Rightarrow>
               (case read_query command params of
                  Some response \<Rightarrow> response
                | None \<Rightarrow> error_json (ascii ''unknown or non-snapshot command: '' @ command))))"

definition connect_peer_json ::
  "Engine.world \<Rightarrow> (rust_string \<Rightarrow> json \<Rightarrow> rust_string + json) \<Rightarrow> rust_string \<Rightarrow> rust_string \<Rightarrow> json" where
  "connect_peer_json w command npub address =
     (case slot w of
        None \<Rightarrow> error_json (ascii ''not running'')
      | Some _ \<Rightarrow>
          (case command (ascii ''connect'')
                  (JObj [(ascii ''npub'', JStr npub), (ascii ''address'', JStr address), (ascii ''transport'', JStr (ascii ''udp''))]) of
             Inr response \<Rightarrow> response
           | Inl e \<Rightarrow> error_json e))"

section \<open>A request over the mesh\<close>

text \<open>\<open>PeerIdentity::from_npub\<close> gives the canonical key and the address.\<close>
definition resolve_npub ::
  "(rust_string \<Rightarrow> rust_string + (rust_string \<times> bytes)) \<Rightarrow> rust_string \<Rightarrow> rust_string + (rust_string \<times> rust_string)" where
  "resolve_npub from_npub npub =
     (case from_npub (trim npub) of
        Inl e \<Rightarrow> Inl (ascii ''invalid npub: '' @ e)
      | Inr (key, address) \<Rightarrow> Inr (key, show_ipv6 address))"

text \<open>What a request meets.\<close>
record mesh_env =
  m_from_npub :: "rust_string \<Rightarrow> rust_string + (rust_string \<times> bytes)"
  m_parse_headers :: "rust_string \<Rightarrow> rust_string + (rust_string \<times> json) list"
  m_our_addr :: bytes
  m_register :: "bool \<times> u64 \<times> bool"
  m_random :: u64
  m_connect :: "rust_string option"
  m_passes :: "tcp_pass list"

definition fetch_error_json :: "rust_string \<Rightarrow> bool \<Rightarrow> json" where
  "fetch_error_json m u = JObj [(ascii ''error'', JStr m), (ascii ''unreachable'', JBool u)]"

definition string_headers :: "(rust_string \<times> json) list \<Rightarrow> (rust_string \<times> rust_string) list" where
  "string_headers = List.map_filter (\<lambda>(k, v). case v of JStr s \<Rightarrow> Some (k, s) | _ \<Rightarrow> None)"

text \<open>\<open>meshhttp::get\<close> with the registration it starts with, and its result as JSON (\<open>None\<close> while it runs).\<close>
definition mesh_fetch ::
  "divert \<Rightarrow> mesh_env \<Rightarrow> rust_string \<Rightarrow> bytes \<Rightarrow> u16 \<Rightarrow> rust_string \<Rightarrow> (rust_string \<times> rust_string) list \<Rightarrow>
   divert \<times> bytes option \<times> json option" where
  "mesh_fetch d env npub addr port path headers =
     (let asked = (if addr = m_our_addr env then None
                   else case m_register env of (bound, random, was_sent) \<Rightarrow> register_identity bound random was_sent npub)
      in case get d (m_our_addr env) addr port path headers (m_random env) (m_connect env) (m_passes env) of
           (d, Running _) \<Rightarrow> (d, asked, None)
         | (d, Finished (Inr r)) \<Rightarrow>
             (d, asked, Some (JObj [(ascii ''status'', JNum (uint (status r))), (ascii ''body'', JStr (from_utf8_lossy (body r)))]))
         | (d, Finished (Inl e)) \<Rightarrow>
             (d, asked, Some (JObj [(ascii ''error'', JStr (message e)), (ascii ''unreachable'', JBool (unreachable e)),
                                    (ascii ''restarted'', JBool (restarted e))])))"

definition mesh_http_get_json ::
  "Engine.world \<Rightarrow> divert \<Rightarrow> mesh_env \<Rightarrow> rust_string \<Rightarrow> u16 \<Rightarrow> rust_string \<Rightarrow> rust_string \<Rightarrow>
   divert \<times> bytes option \<times> json option" where
  "mesh_http_get_json w d env npub port path headers_json =
     (if slot w = None then (d, None, Some (fetch_error_json (ascii ''not connected'') False))
      else
        (case resolve_npub (m_from_npub env) npub of
           Inl e \<Rightarrow> (d, None, Some (fetch_error_json e False))
         | Inr (npub, address) \<Rightarrow>
             (case whole read_ipv6 address of
                None \<Rightarrow> (d, None, Some (fetch_error_json (ascii ''bad mesh address '' @ address) False))
              | Some addr \<Rightarrow>
                  if port = 0 \<or> \<not> starts_with path (ascii ''/'')
                  then (d, None, Some (fetch_error_json (ascii ''bad port or path'') False))
                  else
                    (case m_parse_headers env (if trim headers_json = [] then ascii ''{}'' else headers_json) of
                       Inl e \<Rightarrow> (d, None, Some (fetch_error_json (ascii ''bad headers: '' @ e) False))
                     | Inr entries \<Rightarrow> mesh_fetch d env npub addr port path (string_headers entries)))))"

section \<open>What a request does\<close>

lemma mesh_fetch_restores:
  "mesh_fetch d env npub addr port path headers = (d', asked, Some j) \<Longrightarrow> d_flows d' = d_flows d \<and> active d' = active d"
  by (auto simp: mesh_fetch_def Let_def split: prod.splits ex_result.splits sum.splits dest: get_restores)


section \<open>A request that is answered\<close>

definition named_env :: mesh_env where
  "named_env = \<lparr>m_from_npub = (\<lambda>_. Inr (ascii ''npub1q'', replicate 16 0xfd)), m_parse_headers = (\<lambda>_. Inr []),
     m_our_addr = replicate 16 2, m_register = (True, 7, True), m_random = 5, m_connect = None,
     m_passes = [quiet, answered]\<rparr>"

lemma get_answered:
  "\<exists>d'. get divert_default (replicate 16 2) (replicate 16 0xfd) 80 path headers 5 None [quiet, answered] =
     (d', Finished (Inr \<lparr>status = 200, body = ascii ''hi''\<rparr>))"
  by (simp add: get_def open_flow_empty answered_run Let_def divert_default_def)

lemma named_fetch:
  "\<exists>d' asked j. mesh_http_get_json (started 7) divert_default named_env (ascii ''npub1q'') 80 (ascii ''/'') [] = (d', asked, Some j)"
proof -
  have a: "whole read_ipv6 (show_ipv6 (replicate 16 0xfd)) = Some (replicate 16 0xfd)" by (rule parse_show_ipv6(1)) simp
  have p: "starts_with (ascii ''/'') (ascii ''/'')" by code_simp
  obtain d' where "get divert_default (replicate 16 2) (replicate 16 0xfd) 80 (ascii ''/'') [] 5 None [quiet, answered] =
      (d', Finished (Inr \<lparr>status = 200, body = ascii ''hi''\<rparr>))" using get_answered by blast
  then show ?thesis
    by (simp add: mesh_http_get_json_def mesh_fetch_def resolve_npub_def named_env_def started_defs string_headers_def a p
          map_filter_simps Let_def case_prod_beta)
qed


end
