(* ===== verification/Logbuf.thy ===== *)
theory Logbuf
  imports RustStr
begin

text \<open>
  \<open>shim/src/logbuf.rs\<close>: the ring of recent log lines and the \<open>tracing\<close> writer that feeds it
  and the platform's log, and the filter in front of them (\<open>init_logging\<close> of \<open>lib.rs\<close>).
  The \<open>BUFFER\<close> mutex makes each operation one step.
\<close>

section \<open>The ring\<close>

definition MAX_LINES :: nat where "MAX_LINES = 1000"

text \<open>The \<open>while\<close> loop that makes room.\<close>
fun pop_front :: "rust_string list \<Rightarrow> rust_string list" where
  "pop_front [] = []"
| "pop_front (l # buf) = (if MAX_LINES \<le> length (l # buf) then pop_front buf else l # buf)"

definition push_line :: "rust_string \<Rightarrow> rust_string list \<Rightarrow> rust_string list" where
  "push_line line buf = (if line = [] then buf else pop_front buf @ [line])"

fun join_lines :: "rust_string list \<Rightarrow> rust_string" where
  "join_lines [] = []"
| "join_lines [l] = l"
| "join_lines (l # m # ls) = l @ LF # join_lines (m # ls)"

definition recent :: "nat \<Rightarrow> rust_string list \<Rightarrow> rust_string" where
  "recent limit buf = join_lines (drop (length buf - limit) buf)"

section \<open>The writer\<close>

text \<open>The ring, and the lines that went to logcat, whose C strings hold no NUL.\<close>
record log =
  ring :: "rust_string list"
  logcat :: "rust_string list"

definition log_init :: log where
  "log_init = \<lparr>ring = [], logcat = []\<rparr>"

definition platform_write :: "rust_string \<Rightarrow> log \<Rightarrow> log" where
  "platform_write line s = (if 0 \<in> set line then s else s\<lparr>logcat := logcat s @ [line]\<rparr>)"

definition write_line :: "bytes \<Rightarrow> log \<Rightarrow> log" where
  "write_line line s =
     (let t = from_utf8_lossy line in platform_write t (s\<lparr>ring := push_line t (ring s)\<rparr>))"

text \<open>\<open>FanoutWriter::write\<close>: the new state and the bytes it reports as written.\<close>
definition fanout_write :: "bytes \<Rightarrow> log \<Rightarrow> log \<times> nat" where
  "fanout_write buf s = (fold write_line (filter (\<lambda>l. l \<noteq> []) (str_split LF buf)) s, length buf)"

section \<open>The filter\<close>

text \<open>
  \<open>init_logging\<close> of \<open>lib.rs\<close>. The filters are \<open>tracing_subscriber\<close>'s: \<open>try_new\<close> reads a level,
  \<open>info\<close> is the filter of \<open>EnvFilter::new("info")\<close>. The state is \<open>FILTER\<close>: unset, or a
  handle on the filter in force. \<open>installed\<close> is whether \<open>try_init\<close> succeeds, which it does
  not when the process has another subscriber.
\<close>
definition init_logging ::
  "(rust_string \<Rightarrow> 'f option) \<Rightarrow> 'f \<Rightarrow> bool \<Rightarrow> rust_string option \<Rightarrow> 'f option \<Rightarrow> 'f option" where
  "init_logging try_new info installed level handle =
     (let filter = (case try_new (case level of Some l \<Rightarrow> l | None \<Rightarrow> ascii ''info'') of Some f \<Rightarrow> f | None \<Rightarrow> info)
      in case handle of
           Some _ \<Rightarrow> Some filter
         | None \<Rightarrow> if installed then Some filter else None)"

text \<open>
  Once one call has installed the subscriber, the level of the last call is in force, an
  unreadable one counting as \<open>info\<close>; until then nothing is.
\<close>
theorem last_level_in_force:
  "fold (\<lambda>(ok, level). init_logging try_new info ok level) (calls @ [(ok, level)]) None =
     (if \<exists>c\<in>set (calls @ [(ok, level)]). fst c
      then Some (case try_new (case level of Some l \<Rightarrow> l | None \<Rightarrow> ascii ''info'') of Some f \<Rightarrow> f | None \<Rightarrow> info)
      else None)"
proof -
  have "(fold (\<lambda>(ok, level). init_logging try_new info ok level) calls None = None) = (\<forall>c\<in>set calls. \<not> fst c)"
    by (induction calls rule: rev_induct) (auto simp: init_logging_def Let_def split: option.splits)
  then show ?thesis by (auto simp: init_logging_def Let_def split: option.splits)
qed

section \<open>What it keeps\<close>

lemma pop_front_drop: "pop_front buf = drop (Suc (length buf) - MAX_LINES) buf"
  by (induction buf) (auto simp: drop_Cons' MAX_LINES_def)

definition newest :: "nat \<Rightarrow> 'a list \<Rightarrow> 'a list" where
  "newest n xs = drop (length xs - n) xs"

lemma newest_newest: "newest m (newest n xs) = newest (min m n) xs"
proof (cases "n \<le> length xs")
  case True
  then have "length xs - n + (n - m) = length xs - min m n" by (auto simp: min_def)
  then show ?thesis using True by (simp add: newest_def add.commute)
qed (auto simp: newest_def min_def)

lemma push_line_newest:
  "push_line line (newest MAX_LINES xs) = newest MAX_LINES (xs @ (if line = [] then [] else [line]))"
proof (cases "length xs < MAX_LINES")
  case True
  then show ?thesis by (simp add: push_line_def pop_front_drop newest_def)
next
  case False
  then have "Suc (length xs - MAX_LINES) = Suc (length xs) - MAX_LINES" by simp
  then show ?thesis using False by (simp add: push_line_def pop_front_drop newest_def MAX_LINES_def)
qed

lemma lossy_nonempty: "from_utf8_lossy (b # r) \<noteq> []"
  using utf8_step_pos [of b r] by (subst from_utf8_lossy.simps) (auto simp: Let_def simp del: utf8_step.simps split: prod.split)

text \<open>Every line of every write, decoded.\<close>
definition lines_of :: "bytes list \<Rightarrow> rust_string list" where
  "lines_of ws = concat (map (\<lambda>w. map from_utf8_lossy (filter (\<lambda>l. l \<noteq> []) (str_split LF w))) ws)"

lemma fold_write_line:
  "\<forall>l\<in>set ls. l \<noteq> [] \<Longrightarrow>
   fold write_line ls \<lparr>ring = newest MAX_LINES xs, logcat = filter (\<lambda>l. 0 \<notin> set l) xs\<rparr> =
     \<lparr>ring = newest MAX_LINES (xs @ map from_utf8_lossy ls),
      logcat = filter (\<lambda>l. 0 \<notin> set l) (xs @ map from_utf8_lossy ls)\<rparr>"
proof (induction ls arbitrary: xs)
  case (Cons l ls)
  have "write_line l \<lparr>ring = newest MAX_LINES xs, logcat = filter (\<lambda>l. 0 \<notin> set l) xs\<rparr> =
      \<lparr>ring = newest MAX_LINES (xs @ [from_utf8_lossy l]), logcat = filter (\<lambda>l. 0 \<notin> set l) (xs @ [from_utf8_lossy l])\<rparr>"
    using lossy_nonempty [of "hd l" "tl l"] Cons.prems by (simp add: write_line_def platform_write_def push_line_newest Let_def)
  then show ?case using Cons.IH [of "xs @ [from_utf8_lossy l]"] Cons.prems by simp
qed simp

lemma writes:
  "fold (\<lambda>w s. fst (fanout_write w s)) ws log_init =
     \<lparr>ring = newest MAX_LINES (lines_of ws), logcat = filter (\<lambda>l. 0 \<notin> set l) (lines_of ws)\<rparr>"
proof (induction ws rule: rev_induct)
  case Nil
  then show ?case by (simp add: log_init_def lines_of_def newest_def)
next
  case (snoc w ws)
  have "\<forall>l\<in>set (filter (\<lambda>l. l \<noteq> []) (str_split LF w)). l \<noteq> []" by simp
  from fold_write_line [OF this, of "lines_of ws"] snoc show ?case
    by (simp add: fanout_write_def) (simp add: lines_of_def)
qed

text \<open>
  C40. Whatever is written to the log, in whatever pieces, the ring holds the last thousand of
  its non-empty lines, decoded, in order, and logcat got every one that has no NUL; asking
  for recent lines gives the last so many of these, oldest first, and asking for none
  gives nothing.
\<close>
theorem recent_gives_newest_lines:
  fixes ws :: "bytes list" and limit :: nat
  defines "s \<equiv> fold (\<lambda>w s. fst (fanout_write w s)) ws log_init"
  shows "ring s = drop (length (lines_of ws) - MAX_LINES) (lines_of ws) \<and> length (ring s) \<le> MAX_LINES \<and>
    logcat s = filter (\<lambda>l. 0 \<notin> set l) (lines_of ws) \<and>
    recent limit (ring s) = join_lines (drop (length (lines_of ws) - min limit MAX_LINES) (lines_of ws)) \<and>
    recent 0 (ring s) = []"
  using newest_newest [of limit MAX_LINES "lines_of ws"]
  by (simp add: s_def writes recent_def) (simp add: newest_def)

end
