(* ===== verification/JniApi.thy ===== *)
theory JniApi
  imports EngineCalls Logbuf
begin

text \<open>
  \<open>shim/src/jni_api.rs\<close>: what the native entry points make of Kotlin's arguments, and of the
  results they hand back: numbers brought into range, blank configurations, caught panics,
  errors as text. A \<open>jint\<close> is a 32-bit word; a Java string is what \<open>get_string\<close> yields,
  \<open>None\<close> when it fails or is null.
\<close>

type_synonym jint = "32 word"

section \<open>Arguments\<close>

definition from_jstring :: "rust_string option \<Rightarrow> rust_string" where
  "from_jstring s = (case s of Some t \<Rightarrow> t | None \<Rightarrow> [])"

text \<open>\<open>u16::try_from(port).unwrap_or(0)\<close> and \<open>timeout_ms.clamp(1000, 120_000)\<close>.\<close>
definition port_arg :: "jint \<Rightarrow> u16" where
  "port_arg p = (if 0 \<le> sint p \<and> sint p < 65536 then word_of_int (sint p) else 0)"

definition timeout_arg :: "jint \<Rightarrow> nat" where
  "timeout_arg t = nat (max 1000 (min 120000 (sint t)))"

definition lines_arg :: "jint \<Rightarrow> nat" where
  "lines_arg n = nat (max (sint n) 0)"

text \<open>The configuration of a rebind: a blank one means the previous.\<close>
definition config_arg :: "rust_string option \<Rightarrow> rust_string option" where
  "config_arg s = (let config = from_jstring s in if trim config \<noteq> [] then Some config else None)"

section \<open>The protect hook\<close>

text \<open>\<open>protect_hook_from\<close>: whether there is a hook; the VM and the global reference may fail.\<close>
definition protect_hook_from :: "bool \<Rightarrow> bool \<Rightarrow> bool \<Rightarrow> bool" where
  "protect_hook_from callback_null has_vm has_ref = (\<not> callback_null \<and> has_vm \<and> has_ref)"

text \<open>
  What a call of the hook meets: the attach fails; \<open>protectFd\<close> returns, with a boolean or
  not; it throws, and \<open>exception_check\<close> answers or fails. What the hook does.
\<close>
datatype hook_obs = AttachFailed | Returned "bool option" | Threw "bool option"

datatype hook_op = CallProtect jint | ClearException | Warn rust_string

definition protect_hook_ops :: "jint \<Rightarrow> hook_obs \<Rightarrow> hook_op list" where
  "protect_hook_ops fd obs =
     (case obs of
        Returned z \<Rightarrow>
          CallProtect fd # (if z = Some True then [] else [Warn (ascii ''VpnService.protect returned false'')])
      | Threw pending \<Rightarrow>
          CallProtect fd # (if pending = Some True then [ClearException] else []) @ [Warn (ascii ''protectFd call failed'')]
      | AttachFailed \<Rightarrow> [Warn (ascii ''JVM attach failed in protect hook'')])"

text \<open>The hook is silent only when the socket is protected, and leaves no exception it knows of.\<close>
lemma protect_hook_reports:
  "(\<forall>m. Warn m \<notin> set (protect_hook_ops fd obs)) \<longleftrightarrow> obs = Returned (Some True)"
  "obs = Threw (Some True) \<Longrightarrow> ClearException \<in> set (protect_hook_ops fd obs)"
  by (auto simp: protect_hook_ops_def split: hook_obs.split)

section \<open>Results\<close>

text \<open>\<open>to_jstring\<close>: what \<open>new_string\<close> makes of it, or null.\<close>
definition to_jstring :: "(rust_string \<Rightarrow> 'j option) \<Rightarrow> rust_string \<Rightarrow> 'j option" where
  "to_jstring new_string s = new_string s"

text \<open>\<open>catch_unwind\<close>.\<close>
definition caught :: "'a rust \<Rightarrow> 'a \<Rightarrow> 'a" where
  "caught r otherwise = (case r of Some v \<Rightarrow> v | None \<Rightarrow> otherwise)"

text \<open>\<open>start\<close>: what the engine's start returned, as the message.\<close>
definition start_message :: "rust_string option rust \<Rightarrow> rust_string" where
  "start_message r = caught (map_option (\<lambda>e. case e of None \<Rightarrow> [] | Some m \<Rightarrow> m) r) (ascii ''panic in engine start'')"

definition plain_error :: "rust_string \<Rightarrow> json" where
  "plain_error e = JObj [(ascii ''error'', JStr e)]"

definition derive_identity_call :: "'n fips_lib \<Rightarrow> rust_string option \<Rightarrow> json" where
  "derive_identity_call lib secret =
     (case derive_identity lib (from_jstring secret) of
        Inr i \<Rightarrow> JObj [(ascii ''nsec'', JStr (id_nsec i)), (ascii ''npub'', JStr (id_npub i)), (ascii ''address'', JStr (id_address i))]
      | Inl e \<Rightarrow> plain_error e)"

definition resolve_npub_call ::
  "(rust_string \<Rightarrow> rust_string + (rust_string \<times> bytes)) \<Rightarrow> rust_string option \<Rightarrow> json" where
  "resolve_npub_call from_npub npub =
     (case resolve_npub from_npub (from_jstring npub) of
        Inr (key, address) \<Rightarrow> JObj [(ascii ''npub'', JStr key), (ascii ''address'', JStr address)]
      | Inl e \<Rightarrow> plain_error e)"

definition network_changed_call :: "'n fips_lib \<Rightarrow> Engine.world \<Rightarrow> nat \<Rightarrow> rust_string option \<Rightarrow> Engine.world \<times> engine_out" where
  "network_changed_call lib w fd config = engine_step lib w (NetworkChanged fd (config_arg config))"

definition stop_call :: "'n fips_lib \<Rightarrow> Engine.world \<Rightarrow> bool \<Rightarrow> Engine.world \<times> engine_out" where
  "stop_call lib w joined_in_time = engine_step lib w (Stop joined_in_time)"

definition network_hint_call :: "'n fips_lib \<Rightarrow> Engine.world \<Rightarrow> Engine.world" where
  "network_hint_call lib w = fst (engine_step lib w NetworkHint)"

definition dns_server_call :: "(rust_string \<Rightarrow> 'j option) \<Rightarrow> 'j option" where
  "dns_server_call new_string = to_jstring new_string dns_server_string"

definition is_running_call :: "Engine.world \<Rightarrow> u8" where
  "is_running_call w = (if is_running w then 1 else 0)"

text \<open>The name server handed to Kotlin reads back as the address the reader intercepts.\<close>
lemma dns_server_reads_back: "dns_server_call Some = Some s \<Longrightarrow> whole read_ipv6 s = Some DNS_SENTINEL"
  using parse_show_ipv6(1) [of DNS_SENTINEL] by (simp add: dns_server_call_def to_jstring_def dns_server_string_def) (simp add: DNS_SENTINEL_def)

definition names_online_call :: "'n fips_lib \<Rightarrow> Engine.world \<Rightarrow> u8 \<Rightarrow> Engine.world" where
  "names_online_call lib w online = fst (engine_step lib w (NamesOnline (online \<noteq> 0)))"

definition recent_logs_call :: "jint \<Rightarrow> log \<Rightarrow> rust_string" where
  "recent_logs_call n s = recent (lines_arg n) (ring s)"

text \<open>\<open>panics\<close>: whether the call panicked, which its parts as modelled do not.\<close>
definition connect_peer_call ::
  "bool \<Rightarrow> Engine.world \<Rightarrow> (rust_string \<Rightarrow> json \<Rightarrow> rust_string + json) \<Rightarrow> rust_string option \<Rightarrow> rust_string option \<Rightarrow> json" where
  "connect_peer_call panics w command npub address =
     caught (if panics then None else Some (connect_peer_json w command (from_jstring npub) (from_jstring address)))
       (error_json (ascii ''panic in connect''))"

definition mesh_http_get_call ::
  "bool \<Rightarrow> Engine.world \<Rightarrow> divert \<Rightarrow> mesh_env \<Rightarrow> rust_string option \<Rightarrow> jint \<Rightarrow> rust_string option \<Rightarrow>
   rust_string option \<Rightarrow> json option" where
  "mesh_http_get_call panics w d env npub port path headers =
     caught
       (if panics then None
        else Some (snd (snd (mesh_http_get_json w d env (from_jstring npub) (port_arg port) (from_jstring path) (from_jstring headers)))))
       (Some (fetch_error_json (ascii ''panic in meshHttpGet'') False))"

definition query_call ::
  "Engine.world \<Rightarrow> (rust_string \<Rightarrow> rust_string + json) \<Rightarrow> (rust_string \<Rightarrow> json option \<Rightarrow> json option) \<Rightarrow>
   rust_string option \<Rightarrow> rust_string option \<Rightarrow> json" where
  "query_call w parse read_query command params = query_json w parse read_query (from_jstring command) (from_jstring params)"

section \<open>What the guards give\<close>

lemma u16_in_range: "0 \<le> k \<Longrightarrow> k < 65536 \<Longrightarrow> uint (word_of_int k :: u16) = k"
  by (simp add: unsigned_of_int take_bit_int_eq_self)

text \<open>
  No number from Kotlin gets past the guards. The wait of a request is between one second
  and two minutes, and the given one when that is in between; the port is the given one
  when it is a port and zero otherwise; and a request to no port is answered with an error
  while the tap and the responder are left alone; a negative count of log lines gives none.
\<close>
theorem jni_numbers_in_range:
  fixes port timeout count :: jint
  shows "1000 \<le> timeout_arg timeout \<and> timeout_arg timeout \<le> 120000 \<and>
    (1000 \<le> sint timeout \<and> sint timeout \<le> 120000 \<longrightarrow> int (timeout_arg timeout) = sint timeout) \<and>
    (0 \<le> sint port \<and> sint port < 65536 \<longrightarrow> uint (port_arg port) = sint port) \<and>
    (\<not> (0 < sint port \<and> sint port < 65536) \<longrightarrow> port_arg port = 0 \<and>
       fst (mesh_http_get_json w d env npub (port_arg port) path headers) = d \<and>
       fst (snd (mesh_http_get_json w d env npub (port_arg port) path headers)) = None \<and>
       (\<exists>e. mesh_http_get_call False w d env (Some npub) port (Some path) (Some headers) = Some (fetch_error_json e False))) \<and>
    (sint count \<le> 0 \<longrightarrow> recent_logs_call count s = [])"
proof -
  have p0: "port_arg port = 0" if "\<not> (0 < sint port \<and> sint port < 65536)"
    using that by (cases "sint port = 0") (auto simp: port_arg_def)
  have m0: "\<exists>e. mesh_http_get_json w d env npub 0 path headers = (d, None, Some (fetch_error_json e False))"
    by (auto simp: mesh_http_get_json_def split: sum.split option.split)
  have "fst (mesh_http_get_json w d env npub (port_arg port) path headers) = d \<and>
       fst (snd (mesh_http_get_json w d env npub (port_arg port) path headers)) = None \<and>
       (\<exists>e. mesh_http_get_call False w d env (Some npub) port (Some path) (Some headers) = Some (fetch_error_json e False))"
    if "\<not> (0 < sint port \<and> sint port < 65536)"
    using m0 p0 [OF that] by (auto simp: mesh_http_get_call_def caught_def from_jstring_def)
  moreover have "uint (port_arg port) = sint port" if "0 \<le> sint port" "sint port < 65536"
    unfolding port_arg_def if_P [OF conjI [OF that]] by (rule u16_in_range [OF that])
  moreover have "recent_logs_call count s = []" if "sint count \<le> 0"
    using that by (simp add: recent_logs_call_def lines_arg_def recent_def)
  ultimately show ?thesis using p0 by (auto simp: timeout_arg_def)
qed

text \<open>
  C38. A rebind from Kotlin with no configuration, a blank one or none at all, keeps the node:
  when the new tunnel can be taken over, the engine, its node, its start and its
  configuration stay, and its pump is on the new fd.
\<close>
theorem rebind_without_config_keeps_node:
  assumes "engine_ok w" and "slot w = Some e" and "rebinding w = None" and "trim (from_jstring config) = []"
    and "b_dup obs = Inr new" and "b_swap obs = Swapped" and "new \<notin> set (open_fds w)" and "\<not> bad_dup w"
  shows "\<exists>w'. engine_step lib (fst (network_changed_call lib w fd config)) (Rebuild obs) = (w', Result None) \<and>
    (\<exists>e'. slot w' = Some e' \<and> e_node e' = e_node e \<and> e_start e' = e_start e \<and> e_config e' = e_config e \<and>
       e_pump e' = Some new \<and> open_fds w' = [new]) \<and> rebinding w' = None"
proof -
  have ok: "fds_ok w" using assms(1,8) by (auto simp: engine_ok_def)
  have w1: "fst (network_changed_call lib w fd config) = w\<lparr>rebinding := Some (fd, None)\<rparr>"
    using assms(3,4) by (simp add: network_changed_call_def config_arg_def)
  have p: "e_pump e = Some (e_fd e)" "installing w = None" "open_fds w = [e_fd e]"
    using ok assms(2) by (auto simp: fds_ok_def current_def)
  then show ?thesis
    using assms(2,5,6,7) by (auto simp: w1 rebuild_def swap_tun_locked_def dup_fd_def close_fd_def Let_def)
qed

section \<open>Witnesses\<close>

theorem rebind_without_config_keeps_node_witness:
  "\<exists>w' e'. engine_step some_lib (fst (network_changed_call some_lib (started 7) 5 None)) (Rebuild (swap_obs 9)) = (w', Result None) \<and>
     slot w' = Some e' \<and> e_pump e' = Some 9"
proof -
  have a: "engine_ok (started 7)" "slot (started 7) = Some (engine_on 7)" "rebinding (started 7) = None"
    "9 \<notin> set (open_fds (started 7))" "\<not> bad_dup (started 7)"
    by (simp_all add: engine_ok_def fds_ok_def started_defs)
  have b: "trim (from_jstring None) = []" by (simp add: from_jstring_def trim_def trim_start.simps trim_end.simps) code_simp
  have c: "b_dup (swap_obs 9) = Inr 9" "b_swap (swap_obs 9) = Swapped" by (simp_all add: swap_obs_def)
  show ?thesis using rebind_without_config_keeps_node [OF a(1-3) b c a(4,5), of some_lib 5] by blast
qed

theorem jni_numbers_in_range_witness:
  "timeout_arg 5 = 1000 \<and> uint (port_arg 80) = 80 \<and> port_arg 70000 = 0 \<and> recent_logs_call (- 1) log_init = []"
proof -
  have s: "sint (5 :: jint) = 5" "sint (80 :: jint) = 80" "sint (70000 :: jint) = 70000" "sint (- 1 :: jint) = - 1"
    by simp_all
  have "port_arg 70000 = 0" "recent_logs_call (- 1) log_init = []"
    using jni_numbers_in_range [of 0 70000 _ _ _ _ _ _ "- 1" log_init] s(3,4) by auto
  then show ?thesis by (simp add: timeout_arg_def port_arg_def s)
qed

end
