(* ===== verification/Smoke.thy ===== *)
theory Smoke
  imports HttpExchange Config
begin

text \<open>
  \<open>smoke/src/main.rs\<close>: two nodes in one process, and a packet that has to come out of the
  second one's app-owned TUN. The nodes, the threads and the clock are observed; the packet
  builder is with the shim's own in \<open>Packet\<close>.
\<close>

section \<open>Configurations\<close>

definition PORT_A :: nat where "PORT_A = 39411"
definition PORT_B :: nat where "PORT_B = 39412"
definition MARKER :: bytes where "MARKER = ascii ''FIPS_ANDROID_SMOKE_PING''"
definition TIMEOUT :: nat where "TIMEOUT = seconds 30"

text \<open>\<open>config\<close> is \<open>Config::new()\<close>, \<open>key\<close> the text of the identity's secret key.\<close>
definition build_config :: "fips_config \<Rightarrow> rust_string \<Rightarrow> nat \<Rightarrow> peer_config option \<Rightarrow> fips_config" where
  "build_config config key port peer =
     config\<lparr>node_nsec := Some key,
       udp := Single (udp_default\<lparr>bind_addr := Some (ascii ''127.0.0.1:'' @ show_dec port)\<rparr>),
       tun_enabled := True, dns_enabled := False, control_enabled := False,
       node_peers := node_peers config @ (case peer of Some p \<Rightarrow> [p] | None \<Rightarrow> [])\<rparr>"

text \<open>The configurations of A and of B, which dials A; \<open>new_peer\<close> is \<open>PeerConfig::new\<close>.\<close>
definition smoke_configs ::
  "fips_config \<Rightarrow> (rust_string \<Rightarrow> rust_string \<Rightarrow> rust_string \<Rightarrow> peer_config) \<Rightarrow> identity_info \<Rightarrow> identity_info \<Rightarrow>
   fips_config \<times> fips_config" where
  "smoke_configs config new_peer a b =
     (build_config config (id_nsec a) PORT_A None,
      build_config config (id_nsec b) PORT_B
        (Some (new_peer (id_npub a) (ascii ''udp'') (ascii ''127.0.0.1:'' @ show_dec PORT_A))))"

section \<open>The two ends\<close>

text \<open>\<open>pkt.windows(MARKER.len()).any(..)\<close>\<close>
definition has_marker :: "bytes \<Rightarrow> bool" where
  "has_marker p = list_ex (\<lambda>i. take (length MARKER) (drop i p) = MARKER) [0..<Suc (length p) - length MARKER]"

datatype arrival = Got bytes | Quiet | Closed

text \<open>
  The thread behind B's receiver, over the clock at the head of each pass and what came of its
  wait: what it sends to the supervisor, \<open>None\<close> while it runs.
\<close>
fun smoke_receive :: "instant \<Rightarrow> (instant \<times> arrival) list \<Rightarrow> bool option" where
  "smoke_receive deadline [] = None"
| "smoke_receive deadline ((now, r) # passes) =
     (if now < deadline
      then (case r of
              Got p \<Rightarrow> if has_marker p then Some True else smoke_receive deadline passes
            | Quiet \<Rightarrow> smoke_receive deadline passes
            | Closed \<Rightarrow> Some False)
      else Some False)"

text \<open>
  The task in front of A: the clock, the processor's action with the packet as it left it, and
  whether the node took it. What was sent, and whether the task panicked.
\<close>
fun smoke_send :: "instant \<Rightarrow> (instant \<times> (bytes \<Rightarrow> tun_action \<times> bytes) \<times> bool) list \<Rightarrow> bytes \<Rightarrow> bytes list \<times> bool" where
  "smoke_send deadline [] packet = ([], False)"
| "smoke_send deadline ((now, process, accepted) # passes) packet =
     (if now < deadline
      then (case process packet of
              (Forward, q) \<Rightarrow>
                if accepted then (let (qs, panicked) = smoke_send deadline passes packet in (q # qs, panicked))
                else ([], False)
            | _ \<Rightarrow> ([], True))
      else ([], False))"

section \<open>The program\<close>

text \<open>
  The nodes: constructed, started; how often A's hook was called by then; when the two threads
  began; their passes; what the receive loops returned, after which both shutdowns are over.
\<close>
record smoke_obs =
  s_new :: "bool \<times> bool"
  s_start :: "bool \<times> bool"
  s_protected :: nat
  s_receiver :: "instant \<times> (instant \<times> arrival) list"
  s_sender :: "instant \<times> (instant \<times> (bytes \<Rightarrow> tun_action \<times> bytes) \<times> bool) list"
  s_loops :: "(bool \<times> bool) option"

datatype verdict = Running | Pass | Fail

definition expect :: "bool \<Rightarrow> unit rust" where "expect ok = (if ok then Some () else None)"

text \<open>\<open>main\<close>: what A sent and the verdict; a panic of the sending task stays in the task.\<close>
definition smoke_main :: "bytes \<Rightarrow> bytes \<Rightarrow> smoke_obs \<Rightarrow> (bytes list \<times> verdict) rust" where
  "smoke_main addr_a addr_b obs = do {
     _ \<leftarrow> expect (fst (s_new obs));
     _ \<leftarrow> expect (snd (s_new obs));
     _ \<leftarrow> expect (fst (s_start obs));
     _ \<leftarrow> expect (snd (s_start obs));
     _ \<leftarrow> expect (1 \<le> s_protected obs);
     let delivered = smoke_receive (fst (s_receiver obs) + TIMEOUT) (snd (s_receiver obs));
     packet \<leftarrow> smoke_build_ipv6_udp addr_a addr_b MARKER;
     let (out, _) = smoke_send (fst (s_sender obs) + TIMEOUT) (snd (s_sender obs)) packet;
     case (delivered, s_loops obs) of
       (Some ok, Some (a, b)) \<Rightarrow> do {
         _ \<leftarrow> expect a;
         _ \<leftarrow> expect b;
         Some (out, if ok then Pass else Fail)
       }
     | _ \<Rightarrow> Some (out, Running)
   }"

section \<open>What the ends do\<close>

lemma has_marker_iff: "has_marker p \<longleftrightarrow> (\<exists>xs ys. p = xs @ MARKER @ ys)"
proof
  assume "has_marker p"
  then obtain i where "take (length MARKER) (drop i p) = MARKER" by (auto simp: has_marker_def list_ex_iff)
  then have "p = take i p @ MARKER @ drop (length MARKER) (drop i p)"
    by (metis append_take_drop_id)
  then show "\<exists>xs ys. p = xs @ MARKER @ ys" by blast
next
  assume "\<exists>xs ys. p = xs @ MARKER @ ys"
  then obtain xs ys where "p = xs @ MARKER @ ys" by blast
  then show "has_marker p" by (auto simp: has_marker_def list_ex_iff intro!: bexI [of _ "length xs"])
qed

text \<open>The passes that lead to a packet with the marker, in time.\<close>
fun marker_comes :: "instant \<Rightarrow> (instant \<times> arrival) list \<Rightarrow> bool" where
  "marker_comes deadline [] \<longleftrightarrow> False"
| "marker_comes deadline ((t, r) # passes) \<longleftrightarrow>
     t < deadline \<and> ((\<exists>p. r = Got p \<and> has_marker p) \<or> r \<noteq> Closed \<and> marker_comes deadline passes)"

lemma marker_comes_iff:
  "marker_comes deadline passes \<longleftrightarrow>
   (\<exists>before t p after. passes = before @ (t, Got p) # after \<and> t < deadline \<and> has_marker p \<and>
      (\<forall>x\<in>set before. fst x < deadline \<and> snd x \<noteq> Closed))"
  (is "_ \<longleftrightarrow> ?R passes")
proof
  show "marker_comes deadline passes \<Longrightarrow> ?R passes"
  proof (induction deadline passes rule: marker_comes.induct)
    case (2 deadline t r passes)
    show ?case
    proof (cases "\<exists>p. r = Got p \<and> has_marker p")
      case True
      then obtain p where "r = Got p" "has_marker p" by blast
      then show ?thesis using "2.prems" by (intro exI [of _ "[]"] exI [of _ t] exI [of _ p] exI [of _ passes]) simp
    next
      case False
      then obtain before u p after where "passes = before @ (u, Got p) # after" "u < deadline" "has_marker p"
        "\<forall>x\<in>set before. fst x < deadline \<and> snd x \<noteq> Closed"
        using 2 by auto
      then show ?thesis using "2.prems" False
        by (intro exI [of _ "(t, r) # before"] exI [of _ u] exI [of _ p] exI [of _ after]) simp
    qed
  qed simp
  assume "?R passes"
  then obtain before t p after where e: "passes = before @ (t, Got p) # after" and ok: "t < deadline" "has_marker p"
    and b: "\<forall>x\<in>set before. fst x < deadline \<and> snd x \<noteq> Closed" by blast
  show "marker_comes deadline passes"
    unfolding e using b by (induction before) (use ok in auto)
qed

lemma smoke_receive_iff: "smoke_receive deadline passes = Some True \<longleftrightarrow> marker_comes deadline passes"
  by (induction deadline passes rule: smoke_receive.induct) (auto split: arrival.splits)

lemma smoke_send_forwarded:
  "q \<in> set (fst (smoke_send deadline passes packet)) \<Longrightarrow>
   \<exists>(now, process, accepted)\<in>set passes. process packet = (Forward, q) \<and> now < deadline"
proof (induction passes)
  case (Cons x passes)
  obtain now process accepted a q' where x: "x = (now, process, accepted)" "process packet = (a, q')"
    by (metis prod.collapse)
  then show ?case using Cons by (cases a) (auto simp: split_beta split: if_splits)
qed simp

section \<open>Properties\<close>

text \<open>
  The test says what it means to. It sends an IPv6/UDP packet from A to B with the marker in
  it, as the processor left it, and nothing else; it passes exactly when the nodes came up,
  the hook was called, both loops ended well, and within thirty seconds, before B's channel
  closed, a packet with the marker arrived; so it passes when one that A sent arrives as it
  was sent by a processor that leaves it alone.
\<close>
theorem smoke_test_decides:
  assumes "length addr_a = 16" and "length addr_b = 16"
  shows "\<exists>packet. smoke_build_ipv6_udp addr_a addr_b MARKER = Some packet \<and> plain_udp packet \<and> has_marker packet \<and>
    udp_view packet = \<lparr>ip_src = addr_a, ip_dst = addr_b, ip_src_port = 40000, ip_dst_port = 40001, ip_payload = MARKER\<rparr> \<and>
    (\<forall>out v. smoke_main addr_a addr_b obs = Some (out, v) \<longrightarrow>
       (\<forall>q\<in>set out. \<exists>(now, process, accepted)\<in>set (snd (s_sender obs)). process packet = (Forward, q)) \<and>
       (v = Pass \<longleftrightarrow> s_loops obs = Some (True, True) \<and>
          (\<exists>before t p after. snd (s_receiver obs) = before @ (t, Got p) # after \<and> t < fst (s_receiver obs) + seconds 30 \<and>
             has_marker p \<and> (\<forall>x\<in>set before. fst x < fst (s_receiver obs) + seconds 30 \<and> snd x \<noteq> Closed))))"
proof -
  have len: "length MARKER \<le> 65527" by (simp add: MARKER_def ascii_def)
  obtain packet where p: "build_ipv6_udp addr_a addr_b 40000 40001 MARKER = Some packet" "plain_udp packet"
    "udp_view packet = \<lparr>ip_src = addr_a, ip_dst = addr_b, ip_src_port = 40000, ip_dst_port = 40001, ip_payload = MARKER\<rparr>"
    by (rule built_view [OF assms len])
  have b: "smoke_build_ipv6_udp addr_a addr_b MARKER = Some packet" using p(1) by (simp add: smoke_builder_agrees)
  have "\<exists>xs. packet = xs @ MARKER" using p(1) by (auto simp: build_ipv6_udp_eq Let_def)
  then have "has_marker packet" by (fastforce simp: has_marker_iff)
  moreover have "(\<forall>q\<in>set out. \<exists>(now, process, accepted)\<in>set (snd (s_sender obs)). process packet = (Forward, q)) \<and>
       (v = Pass \<longleftrightarrow> s_loops obs = Some (True, True) \<and> marker_comes (fst (s_receiver obs) + TIMEOUT) (snd (s_receiver obs)))"
    if m: "smoke_main addr_a addr_b obs = Some (out, v)" for out v
  proof
    show "\<forall>q\<in>set out. \<exists>(now, process, accepted)\<in>set (snd (s_sender obs)). process packet = (Forward, q)"
      using m smoke_send_forwarded [of _ "fst (s_sender obs) + TIMEOUT" "snd (s_sender obs)" packet]
      by (fastforce simp: smoke_main_def b Let_def split_beta expect_def split: bind_splits option.splits if_splits)
    show "v = Pass \<longleftrightarrow> s_loops obs = Some (True, True) \<and> marker_comes (fst (s_receiver obs) + TIMEOUT) (snd (s_receiver obs))"
      using m unfolding smoke_receive_iff [symmetric]
      by (auto simp: smoke_main_def b Let_def split_beta expect_def split: bind_splits option.splits if_splits)
  qed
  ultimately show ?thesis using b p(2,3) unfolding marker_comes_iff TIMEOUT_def by blast
qed

end
